(* ===== verification/Prelude.thy ===== *)
theory Prelude
  imports Main "HOL-Library.Word" "HOL-Library.Monad_Syntax"
begin

section \<open>Shared types, failure and arithmetic of the kernel model\<close>

text \<open>
  What every component of the model shares: pointers, the kernel panic, the widths of the
  C integer types, and the rounding and virtual-address macros of
  \<^verbatim>\<open>include/lib/round.h\<close> and \<^verbatim>\<open>include/threads/vaddr.h\<close>.

  A kernel operation that can panic (a failed \<^verbatim>\<open>ASSERT\<close>, \<^verbatim>\<open>NOT_REACHED\<close>,
  \<^verbatim>\<open>PANIC\<close>, or a dereference of a null pointer) returns an \<^typ>\<open>'a option\<close>,
  and \<^term>\<open>None\<close> is the panic; the operations are composed with the \<open>do\<close> notation of
  the option monad. \<^verbatim>\<open>size_t\<close> values are naturals, with the wrap-around at
  \<^term>\<open>(2::nat) ^ 64\<close> written out where the code can reach it; addresses are
  \<^typ>\<open>64 word\<close>.
\<close>

unbundle bit_operations_syntax

named_theorems panic_simps \<open>unfolding of the panic monad\<close>

type_synonym ptr = "64 word"

abbreviation NULL :: ptr where
  "NULL \<equiv> 0"

subsection \<open>Assertions\<close>

definition ASSERT :: "bool \<Rightarrow> unit option" where
  "ASSERT P = (if P then Some () else None)"

lemma ASSERT_True [simp]: "ASSERT True = Some ()"
  by (simp add: ASSERT_def)

lemma ASSERT_False [simp]: "ASSERT False = None"
  by (simp add: ASSERT_def)

lemma ASSERT_holds [simp]: "P \<Longrightarrow> ASSERT P = Some ()"
  by (simp add: ASSERT_def)

lemma ASSERT_fails [simp]: "\<not> P \<Longrightarrow> ASSERT P = None"
  by (simp add: ASSERT_def)

lemma ASSERT_eq_Some [simp]: "ASSERT P = Some u \<longleftrightarrow> P"
  by (simp add: ASSERT_def)

lemma ASSERT_eq_None [simp]: "ASSERT P = None \<longleftrightarrow> \<not> P"
  by (simp add: ASSERT_def)

lemma bind_ASSERT_eq_Some [panic_simps]:
  "Option.bind (ASSERT P) f = Some x \<longleftrightarrow> P \<and> f () = Some x"
  by (cases P) simp_all

lemma bind_ASSERT_eq_None [panic_simps]:
  "Option.bind (ASSERT P) f = None \<longleftrightarrow> (P \<longrightarrow> f () = None)"
  by (cases P) simp_all

declare Option.bind_eq_Some_conv [panic_simps]

subsection \<open>Integer widths\<close>

text \<open>
  A value of type \<^verbatim>\<open>size_t\<close>, \<^verbatim>\<open>unsigned\<close>, \<^verbatim>\<open>int\<close> or
  \<^verbatim>\<open>int64_t\<close> after an operation that may leave the type's range.
\<close>

definition SIZE_T_MAX :: nat where
  "SIZE_T_MAX = 2 ^ 64 - 1"

text \<open>
  The macro \<^verbatim>\<open>SIZE_MAX\<close> of \<^verbatim>\<open>include/lib/stdint.h\<close> is the greatest
  32-bit value, although \<^verbatim>\<open>size_t\<close> has 64 bits.
\<close>

definition SIZE_MAX :: nat where
  "SIZE_MAX = 2 ^ 32 - 1"

definition size_wrap :: "nat \<Rightarrow> nat" where
  "size_wrap n = n mod 2 ^ 64"

definition s32 :: "int \<Rightarrow> int" where
  "s32 x = (x + 2 ^ 31) mod 2 ^ 32 - 2 ^ 31"

definition s64 :: "int \<Rightarrow> int" where
  "s64 x = (x + 2 ^ 63) mod 2 ^ 64 - 2 ^ 63"

definition INT64_MAX :: int where
  "INT64_MAX = 2 ^ 63 - 1"

lemma size_wrap_id [simp]: "n \<le> SIZE_T_MAX \<Longrightarrow> size_wrap n = n"
  by (simp add: size_wrap_def SIZE_T_MAX_def)

lemma size_wrap_le [simp]: "size_wrap n \<le> SIZE_T_MAX"
proof -
  have "n mod 2 ^ 64 < (2 ^ 64 :: nat)" by simp
  then show ?thesis by (simp add: size_wrap_def SIZE_T_MAX_def)
qed

lemma s32_id [simp]: "- (2 ^ 31) \<le> x \<Longrightarrow> x < 2 ^ 31 \<Longrightarrow> s32 x = x"
  by (simp add: s32_def)

lemma s64_id [simp]: "- (2 ^ 63) \<le> x \<Longrightarrow> x < 2 ^ 63 \<Longrightarrow> s64 x = x"
  by (simp add: s64_def)

lemma s64_range: "- (2 ^ 63) \<le> s64 x \<and> s64 x < 2 ^ 63"
proof -
  have "0 \<le> (x + 2 ^ 63) mod (2 ^ 64 :: int)" "(x + 2 ^ 63) mod (2 ^ 64 :: int) < 2 ^ 64"
    by simp_all
  then show ?thesis unfolding s64_def by auto
qed

subsection \<open>Rounding (\<^verbatim>\<open>include/lib/round.h\<close>)\<close>

definition ROUND_UP :: "nat \<Rightarrow> nat \<Rightarrow> nat" where
  "ROUND_UP X STEP = (X + STEP - 1) div STEP * STEP"

definition DIV_ROUND_UP :: "nat \<Rightarrow> nat \<Rightarrow> nat" where
  "DIV_ROUND_UP X STEP = (X + STEP - 1) div STEP"

definition ROUND_DOWN :: "nat \<Rightarrow> nat \<Rightarrow> nat" where
  "ROUND_DOWN X STEP = X div STEP * STEP"

lemma DIV_ROUND_UP_0 [simp]: "0 < s \<Longrightarrow> DIV_ROUND_UP 0 s = 0"
  by (simp add: DIV_ROUND_UP_def)

lemma DIV_ROUND_UP_covers: "0 < s \<Longrightarrow> x \<le> DIV_ROUND_UP x s * s"
proof -
  assume s: "0 < s"
  have "x + s - 1 = (x + s - 1) div s * s + (x + s - 1) mod s" by simp
  moreover have "(x + s - 1) mod s < s" using s by simp
  ultimately have "x + s - 1 < (x + s - 1) div s * s + s" by linarith
  then show ?thesis using s unfolding DIV_ROUND_UP_def by linarith
qed

lemma DIV_ROUND_UP_tight: "0 < s \<Longrightarrow> 0 < x \<Longrightarrow> (DIV_ROUND_UP x s - 1) * s < x"
proof -
  assume s: "0 < s" and x: "0 < x"
  have "(x + s - 1) div s * s \<le> x + s - 1" by simp
  then have "DIV_ROUND_UP x s * s < x + s" using s x unfolding DIV_ROUND_UP_def by linarith
  then show ?thesis using x by (simp add: diff_mult_distrib)
qed

lemma DIV_ROUND_UP_index: "0 < s \<Longrightarrow> i < x \<Longrightarrow> i div s < DIV_ROUND_UP x s"
  using DIV_ROUND_UP_covers [of s x]
  by (meson div_less_iff_less_mult less_le_trans)

end
