(* ===== verification/Linked_List.thy ===== *)
theory Linked_List
  imports Prelude "HOL-Library.Multiset"
begin

section \<open>Doubly linked lists (\<^verbatim>\<open>lib/kernel/list.c\<close>)\<close>

text \<open>
  The kernel's intrusive doubly linked lists, at the level of pointers. The memory that
  holds the \<^verbatim>\<open>struct list_elem\<close>s is a function from addresses; a list is the address
  of its \<^verbatim>\<open>struct list\<close>, whose \<^verbatim>\<open>head\<close> element is at that address and whose
  \<^verbatim>\<open>tail\<close> element 16 bytes after it. Every access through a null pointer is a panic.
  The comparison functions \<^verbatim>\<open>list_less_func\<close> are arguments; they compare the structures
  the elements are embedded in and do not read the links.

  The abstraction \<open>is_list h l xs\<close> says that the memory \<open>h\<close> holds at \<open>l\<close> a well formed
  list of the elements \<open>xs\<close>. Each operation is shown to return and to act on \<open>xs\<close> as the
  corresponding function on sequences, leaving the rest of the memory alone.
\<close>

subsection \<open>Memory\<close>

record list_elem =
  le_prev :: ptr
  le_next :: ptr

type_synonym heap = "ptr \<Rightarrow> list_elem"

abbreviation (input) head_of :: "ptr \<Rightarrow> ptr" where
  "head_of l \<equiv> l"

abbreviation tail_of :: "ptr \<Rightarrow> ptr" where
  "tail_of l \<equiv> l + 16"

definition get_prev :: "ptr \<Rightarrow> heap \<Rightarrow> ptr option" where
  "get_prev p h = (if p = NULL then None else Some (le_prev (h p)))"

definition get_next :: "ptr \<Rightarrow> heap \<Rightarrow> ptr option" where
  "get_next p h = (if p = NULL then None else Some (le_next (h p)))"

definition set_prev :: "ptr \<Rightarrow> ptr \<Rightarrow> heap \<Rightarrow> heap option" where
  "set_prev p v h = (if p = NULL then None else Some (h(p := (h p)\<lparr>le_prev := v\<rparr>)))"

definition set_next :: "ptr \<Rightarrow> ptr \<Rightarrow> heap \<Rightarrow> heap option" where
  "set_next p v h = (if p = NULL then None else Some (h(p := (h p)\<lparr>le_next := v\<rparr>)))"

subsection \<open>Kinds of elements\<close>

definition is_head :: "ptr \<Rightarrow> heap \<Rightarrow> bool" where
  "is_head elem h \<longleftrightarrow> elem \<noteq> NULL \<and> le_prev (h elem) = NULL \<and> le_next (h elem) \<noteq> NULL"

definition is_interior :: "ptr \<Rightarrow> heap \<Rightarrow> bool" where
  "is_interior elem h \<longleftrightarrow> elem \<noteq> NULL \<and> le_prev (h elem) \<noteq> NULL \<and> le_next (h elem) \<noteq> NULL"

definition is_tail :: "ptr \<Rightarrow> heap \<Rightarrow> bool" where
  "is_tail elem h \<longleftrightarrow> elem \<noteq> NULL \<and> le_prev (h elem) \<noteq> NULL \<and> le_next (h elem) = NULL"

subsection \<open>Traversal\<close>

definition list_init :: "ptr \<Rightarrow> heap \<Rightarrow> heap option" where
  "list_init list h = do {
     ASSERT (list \<noteq> NULL);
     h \<leftarrow> set_prev (head_of list) NULL h;
     h \<leftarrow> set_next (head_of list) (tail_of list) h;
     h \<leftarrow> set_prev (tail_of list) (head_of list) h;
     set_next (tail_of list) NULL h
   }"

definition list_begin :: "ptr \<Rightarrow> heap \<Rightarrow> ptr option" where
  "list_begin list h = do { ASSERT (list \<noteq> NULL); get_next (head_of list) h }"

definition list_next :: "ptr \<Rightarrow> heap \<Rightarrow> ptr option" where
  "list_next elem h = do { ASSERT (is_head elem h \<or> is_interior elem h); get_next elem h }"

definition list_end :: "ptr \<Rightarrow> ptr option" where
  "list_end list = do { ASSERT (list \<noteq> NULL); Some (tail_of list) }"

definition list_rbegin :: "ptr \<Rightarrow> heap \<Rightarrow> ptr option" where
  "list_rbegin list h = do { ASSERT (list \<noteq> NULL); get_prev (tail_of list) h }"

definition list_prev :: "ptr \<Rightarrow> heap \<Rightarrow> ptr option" where
  "list_prev elem h = do { ASSERT (is_interior elem h \<or> is_tail elem h); get_prev elem h }"

definition list_rend :: "ptr \<Rightarrow> ptr option" where
  "list_rend list = do { ASSERT (list \<noteq> NULL); Some (head_of list) }"

definition list_head :: "ptr \<Rightarrow> ptr option" where
  "list_head list = do { ASSERT (list \<noteq> NULL); Some (head_of list) }"

definition list_tail :: "ptr \<Rightarrow> ptr option" where
  "list_tail list = do { ASSERT (list \<noteq> NULL); Some (tail_of list) }"

definition list_empty :: "ptr \<Rightarrow> heap \<Rightarrow> bool option" where
  "list_empty list h = do { b \<leftarrow> list_begin list h; e \<leftarrow> list_end list; Some (b = e) }"

subsection \<open>Insertion and removal\<close>

definition list_insert :: "ptr \<Rightarrow> ptr \<Rightarrow> heap \<Rightarrow> heap option" where
  "list_insert before elem h = do {
     ASSERT (is_interior before h \<or> is_tail before h);
     ASSERT (elem \<noteq> NULL);
     p \<leftarrow> get_prev before h;
     h \<leftarrow> set_prev elem p h;
     h \<leftarrow> set_next elem before h;
     p \<leftarrow> get_prev before h;
     h \<leftarrow> set_next p elem h;
     set_prev before elem h
   }"

definition list_splice :: "ptr \<Rightarrow> ptr \<Rightarrow> ptr \<Rightarrow> heap \<Rightarrow> heap option" where
  "list_splice before first lst h = do {
     ASSERT (is_interior before h \<or> is_tail before h);
     if first = lst then Some h
     else do {
       lst \<leftarrow> list_prev lst h;
       ASSERT (is_interior first h);
       ASSERT (is_interior lst h);
       fp \<leftarrow> get_prev first h;
       ln \<leftarrow> get_next lst h;
       h \<leftarrow> set_next fp ln h;
       ln \<leftarrow> get_next lst h;
       fp \<leftarrow> get_prev first h;
       h \<leftarrow> set_prev ln fp h;
       bp \<leftarrow> get_prev before h;
       h \<leftarrow> set_prev first bp h;
       h \<leftarrow> set_next lst before h;
       bp \<leftarrow> get_prev before h;
       h \<leftarrow> set_next bp first h;
       set_prev before lst h
     }
   }"

definition list_push_front :: "ptr \<Rightarrow> ptr \<Rightarrow> heap \<Rightarrow> heap option" where
  "list_push_front list elem h = do { b \<leftarrow> list_begin list h; list_insert b elem h }"

definition list_push_back :: "ptr \<Rightarrow> ptr \<Rightarrow> heap \<Rightarrow> heap option" where
  "list_push_back list elem h = do { e \<leftarrow> list_end list; list_insert e elem h }"

definition list_remove :: "ptr \<Rightarrow> heap \<Rightarrow> (ptr \<times> heap) option" where
  "list_remove elem h = do {
     ASSERT (is_interior elem h);
     p \<leftarrow> get_prev elem h;
     n \<leftarrow> get_next elem h;
     h \<leftarrow> set_next p n h;
     n \<leftarrow> get_next elem h;
     p \<leftarrow> get_prev elem h;
     h \<leftarrow> set_prev n p h;
     n \<leftarrow> get_next elem h;
     Some (n, h)
   }"

definition list_front :: "ptr \<Rightarrow> heap \<Rightarrow> ptr option" where
  "list_front list h = do {
     e \<leftarrow> list_empty list h;
     ASSERT (\<not> e);
     get_next (head_of list) h
   }"

definition list_back :: "ptr \<Rightarrow> heap \<Rightarrow> ptr option" where
  "list_back list h = do {
     e \<leftarrow> list_empty list h;
     ASSERT (\<not> e);
     get_prev (tail_of list) h
   }"

definition list_pop_front :: "ptr \<Rightarrow> heap \<Rightarrow> (ptr \<times> heap) option" where
  "list_pop_front list h = do {
     front \<leftarrow> list_front list h;
     (_, h) \<leftarrow> list_remove front h;
     Some (front, h)
   }"

definition list_pop_back :: "ptr \<Rightarrow> heap \<Rightarrow> (ptr \<times> heap) option" where
  "list_pop_back list h = do {
     back \<leftarrow> list_back list h;
     (_, h) \<leftarrow> list_remove back h;
     Some (back, h)
   }"

partial_function (option) list_size_loop :: "ptr \<Rightarrow> ptr \<Rightarrow> 64 word \<Rightarrow> heap \<Rightarrow> 64 word option" where
  "list_size_loop list e cnt h = do {
     end \<leftarrow> list_end list;
     if e \<noteq> end then do { e \<leftarrow> list_next e h; list_size_loop list e (cnt + 1) h }
     else Some cnt
   }"

definition list_size :: "ptr \<Rightarrow> heap \<Rightarrow> 64 word option" where
  "list_size list h = do { e \<leftarrow> list_begin list h; list_size_loop list e 0 h }"

subsection \<open>Reversal\<close>

text \<open>A \<^verbatim>\<open>struct list_elem **\<close>: the address of one link.\<close>

datatype link = Prev_of ptr | Next_of ptr

fun load_link :: "link \<Rightarrow> heap \<Rightarrow> ptr option" where
  "load_link (Prev_of p) h = get_prev p h"
| "load_link (Next_of p) h = get_next p h"

fun store_link :: "link \<Rightarrow> ptr \<Rightarrow> heap \<Rightarrow> heap option" where
  "store_link (Prev_of p) v h = set_prev p v h"
| "store_link (Next_of p) v h = set_next p v h"

definition swap :: "link \<Rightarrow> link \<Rightarrow> heap \<Rightarrow> heap option" where
  "swap a b h = do {
     t \<leftarrow> load_link a h;
     v \<leftarrow> load_link b h;
     h \<leftarrow> store_link a v h;
     store_link b t h
   }"

partial_function (option) list_reverse_loop :: "ptr \<Rightarrow> ptr \<Rightarrow> heap \<Rightarrow> heap option" where
  "list_reverse_loop list e h = do {
     end \<leftarrow> list_end list;
     if e \<noteq> end then do {
       h \<leftarrow> swap (Prev_of e) (Next_of e) h;
       e \<leftarrow> get_prev e h;
       list_reverse_loop list e h
     } else Some h
   }"

definition list_reverse :: "ptr \<Rightarrow> heap \<Rightarrow> heap option" where
  "list_reverse list h = do {
     empty \<leftarrow> list_empty list h;
     if \<not> empty then do {
       e \<leftarrow> list_begin list h;
       h \<leftarrow> list_reverse_loop list e h;
       h \<leftarrow> swap (Next_of (head_of list)) (Prev_of (tail_of list)) h;
       first \<leftarrow> get_next (head_of list) h;
       lst \<leftarrow> get_prev (tail_of list) h;
       swap (Prev_of first) (Next_of lst) h
     } else Some h
   }"

subsection \<open>Operations on ordered lists\<close>

partial_function (option) is_sorted_loop ::
    "ptr \<Rightarrow> ptr \<Rightarrow> (ptr \<Rightarrow> ptr \<Rightarrow> bool) \<Rightarrow> heap \<Rightarrow> bool option" where
  "is_sorted_loop a b lt h = do {
     a \<leftarrow> list_next a h;
     if a \<noteq> b then do {
       p \<leftarrow> list_prev a h;
       if lt a p then Some False else is_sorted_loop a b lt h
     } else Some True
   }"

definition is_sorted :: "ptr \<Rightarrow> ptr \<Rightarrow> (ptr \<Rightarrow> ptr \<Rightarrow> bool) \<Rightarrow> heap \<Rightarrow> bool option" where
  "is_sorted a b lt h = (if a \<noteq> b then is_sorted_loop a b lt h else Some True)"

partial_function (option) find_end_of_run_loop ::
    "ptr \<Rightarrow> ptr \<Rightarrow> (ptr \<Rightarrow> ptr \<Rightarrow> bool) \<Rightarrow> heap \<Rightarrow> ptr option" where
  "find_end_of_run_loop a b lt h = do {
     a \<leftarrow> list_next a h;
     if a \<noteq> b then do {
       p \<leftarrow> list_prev a h;
       if \<not> lt a p then find_end_of_run_loop a b lt h else Some a
     } else Some a
   }"

definition find_end_of_run ::
    "ptr \<Rightarrow> ptr \<Rightarrow> (ptr \<Rightarrow> ptr \<Rightarrow> bool) \<Rightarrow> heap \<Rightarrow> ptr option" where
  "find_end_of_run a b lt h = do {
     ASSERT (a \<noteq> NULL);
     ASSERT (b \<noteq> NULL);
     ASSERT (a \<noteq> b);
     find_end_of_run_loop a b lt h
   }"

partial_function (option) inplace_merge_loop ::
    "ptr \<Rightarrow> ptr \<Rightarrow> ptr \<Rightarrow> (ptr \<Rightarrow> ptr \<Rightarrow> bool) \<Rightarrow> heap \<Rightarrow> heap option" where
  "inplace_merge_loop a0 a1b0 b1 lt h =
     (if a0 \<noteq> a1b0 \<and> a1b0 \<noteq> b1 then
        if \<not> lt a1b0 a0 then do {
          a0 \<leftarrow> list_next a0 h;
          inplace_merge_loop a0 a1b0 b1 lt h
        } else do {
          a1b0 \<leftarrow> list_next a1b0 h;
          p \<leftarrow> list_prev a1b0 h;
          h \<leftarrow> list_splice a0 p a1b0 h;
          inplace_merge_loop a0 a1b0 b1 lt h
        }
      else Some h)"

definition inplace_merge ::
    "ptr \<Rightarrow> ptr \<Rightarrow> ptr \<Rightarrow> (ptr \<Rightarrow> ptr \<Rightarrow> bool) \<Rightarrow> heap \<Rightarrow> heap option" where
  "inplace_merge a0 a1b0 b1 lt h = do {
     ASSERT (a0 \<noteq> NULL);
     ASSERT (a1b0 \<noteq> NULL);
     ASSERT (b1 \<noteq> NULL);
     sa \<leftarrow> is_sorted a0 a1b0 lt h;
     ASSERT sa;
     sb \<leftarrow> is_sorted a1b0 b1 lt h;
     ASSERT sb;
     inplace_merge_loop a0 a1b0 b1 lt h
   }"

text \<open>One pass of the \<^verbatim>\<open>for\<close> loop of \<open>list_sort\<close>, from \<open>a0\<close> on.\<close>

partial_function (option) list_sort_pass ::
    "ptr \<Rightarrow> ptr \<Rightarrow> (ptr \<Rightarrow> ptr \<Rightarrow> bool) \<Rightarrow> 64 word \<Rightarrow> heap \<Rightarrow> (64 word \<times> heap) option" where
  "list_sort_pass list a0 lt output_run_cnt h = do {
     end \<leftarrow> list_end list;
     if a0 \<noteq> end then do {
       a1b0 \<leftarrow> find_end_of_run a0 end lt h;
       if a1b0 = end then Some (output_run_cnt + 1, h)
       else do {
         b1 \<leftarrow> find_end_of_run a1b0 end lt h;
         h \<leftarrow> inplace_merge a0 a1b0 b1 lt h;
         list_sort_pass list b1 lt (output_run_cnt + 1) h
       }
     } else Some (output_run_cnt, h)
   }"

partial_function (option) list_sort_loop ::
    "ptr \<Rightarrow> (ptr \<Rightarrow> ptr \<Rightarrow> bool) \<Rightarrow> heap \<Rightarrow> heap option" where
  "list_sort_loop list lt h = do {
     a0 \<leftarrow> list_begin list h;
     (output_run_cnt, h) \<leftarrow> list_sort_pass list a0 lt 0 h;
     if output_run_cnt > 1 then list_sort_loop list lt h else Some h
   }"

definition list_sort :: "ptr \<Rightarrow> (ptr \<Rightarrow> ptr \<Rightarrow> bool) \<Rightarrow> heap \<Rightarrow> heap option" where
  "list_sort list lt h = do {
     ASSERT (list \<noteq> NULL);
     h \<leftarrow> list_sort_loop list lt h;
     b \<leftarrow> list_begin list h;
     e \<leftarrow> list_end list;
     ok \<leftarrow> is_sorted b e lt h;
     ASSERT ok;
     Some h
   }"

partial_function (option) list_insert_ordered_loop ::
    "ptr \<Rightarrow> ptr \<Rightarrow> ptr \<Rightarrow> (ptr \<Rightarrow> ptr \<Rightarrow> bool) \<Rightarrow> heap \<Rightarrow> ptr option" where
  "list_insert_ordered_loop list elem e lt h = do {
     end \<leftarrow> list_end list;
     if e \<noteq> end then
       if lt elem e then Some e
       else do { e \<leftarrow> list_next e h; list_insert_ordered_loop list elem e lt h }
     else Some e
   }"

definition list_insert_ordered ::
    "ptr \<Rightarrow> ptr \<Rightarrow> (ptr \<Rightarrow> ptr \<Rightarrow> bool) \<Rightarrow> heap \<Rightarrow> heap option" where
  "list_insert_ordered list elem lt h = do {
     ASSERT (list \<noteq> NULL);
     ASSERT (elem \<noteq> NULL);
     b \<leftarrow> list_begin list h;
     e \<leftarrow> list_insert_ordered_loop list elem b lt h;
     list_insert e elem h
   }"

partial_function (option) list_unique_loop ::
    "ptr \<Rightarrow> ptr \<Rightarrow> ptr \<Rightarrow> (ptr \<Rightarrow> ptr \<Rightarrow> bool) \<Rightarrow> heap \<Rightarrow> heap option" where
  "list_unique_loop list duplicates elem lt h = do {
     next \<leftarrow> list_next elem h;
     end \<leftarrow> list_end list;
     if next \<noteq> end then
       if \<not> lt elem next \<and> \<not> lt next elem then do {
         (_, h) \<leftarrow> list_remove next h;
         h \<leftarrow> (if duplicates \<noteq> NULL then list_push_back duplicates next h else Some h);
         list_unique_loop list duplicates elem lt h
       } else list_unique_loop list duplicates next lt h
     else Some h
   }"

definition list_unique ::
    "ptr \<Rightarrow> ptr \<Rightarrow> (ptr \<Rightarrow> ptr \<Rightarrow> bool) \<Rightarrow> heap \<Rightarrow> heap option" where
  "list_unique list duplicates lt h = do {
     ASSERT (list \<noteq> NULL);
     empty \<leftarrow> list_empty list h;
     if empty then Some h
     else do {
       elem \<leftarrow> list_begin list h;
       list_unique_loop list duplicates elem lt h
     }
   }"

partial_function (option) list_max_loop ::
    "ptr \<Rightarrow> ptr \<Rightarrow> ptr \<Rightarrow> (ptr \<Rightarrow> ptr \<Rightarrow> bool) \<Rightarrow> heap \<Rightarrow> ptr option" where
  "list_max_loop list mx e lt h = do {
     end \<leftarrow> list_end list;
     if e \<noteq> end then do {
       n \<leftarrow> list_next e h;
       list_max_loop list (if lt mx e then e else mx) n lt h
     } else Some mx
   }"

definition list_max :: "ptr \<Rightarrow> (ptr \<Rightarrow> ptr \<Rightarrow> bool) \<Rightarrow> heap \<Rightarrow> ptr option" where
  "list_max list lt h = do {
     mx \<leftarrow> list_begin list h;
     end \<leftarrow> list_end list;
     if mx \<noteq> end then do {
       e \<leftarrow> list_next mx h;
       list_max_loop list mx e lt h
     } else Some mx
   }"

partial_function (option) list_min_loop ::
    "ptr \<Rightarrow> ptr \<Rightarrow> ptr \<Rightarrow> (ptr \<Rightarrow> ptr \<Rightarrow> bool) \<Rightarrow> heap \<Rightarrow> ptr option" where
  "list_min_loop list mn e lt h = do {
     end \<leftarrow> list_end list;
     if e \<noteq> end then do {
       n \<leftarrow> list_next e h;
       list_min_loop list (if lt e mn then e else mn) n lt h
     } else Some mn
   }"

definition list_min :: "ptr \<Rightarrow> (ptr \<Rightarrow> ptr \<Rightarrow> bool) \<Rightarrow> heap \<Rightarrow> ptr option" where
  "list_min list lt h = do {
     mn \<leftarrow> list_begin list h;
     end \<leftarrow> list_end list;
     if mn \<noteq> end then do {
       e \<leftarrow> list_next mn h;
       list_min_loop list mn e lt h
     } else Some mn
   }"


subsection \<open>Chains of elements\<close>

text \<open>
  \<open>links h p xs n\<close>: the elements \<open>xs\<close> are linked to each other in both directions, the
  first one back to \<open>p\<close> and the last one on to \<open>n\<close>.
\<close>

definition first_of :: "ptr list \<Rightarrow> ptr \<Rightarrow> ptr" where
  "first_of xs d = (case xs of [] \<Rightarrow> d | x # _ \<Rightarrow> x)"

definition last_of :: "ptr \<Rightarrow> ptr list \<Rightarrow> ptr" where
  "last_of d xs = (if xs = [] then d else last xs)"

primrec links :: "heap \<Rightarrow> ptr \<Rightarrow> ptr list \<Rightarrow> ptr \<Rightarrow> bool" where
  "links h p [] n = True"
| "links h p (x # xs) n = (h x = \<lparr>le_prev = p, le_next = first_of xs n\<rparr> \<and> links h x xs n)"

definition chain :: "heap \<Rightarrow> ptr list \<Rightarrow> bool" where
  "chain h ns \<longleftrightarrow> distinct ns \<and> NULL \<notin> set ns \<and> links h NULL ns NULL"

definition is_list :: "heap \<Rightarrow> ptr \<Rightarrow> ptr list \<Rightarrow> bool" where
  "is_list h l xs \<longleftrightarrow> chain h (head_of l # xs @ [tail_of l])"

definition list_nodes :: "ptr \<Rightarrow> ptr list \<Rightarrow> ptr set" where
  "list_nodes l xs = {head_of l, tail_of l} \<union> set xs"

lemma first_of_simps [simp]: "first_of [] d = d" "first_of (x # xs) d = x"
  by (simp_all add: first_of_def)

lemma first_of_append [simp]: "first_of (xs @ ys) d = first_of xs (first_of ys d)"
  by (cases xs) simp_all

lemma last_of_simps [simp]: "last_of d [] = d" "last_of d (xs @ [x]) = x"
  by (simp_all add: last_of_def)

lemma last_of_Cons [simp]: "last_of d (x # xs) = last_of x xs"
  by (simp add: last_of_def)

lemma last_of_append [simp]: "last_of d (xs @ ys) = last_of (last_of d xs) ys"
  by (simp add: last_of_def)

lemma first_of_in: "xs \<noteq> [] \<Longrightarrow> first_of xs d \<in> set xs"
  by (cases xs) simp_all

lemma last_of_in: "xs \<noteq> [] \<Longrightarrow> last_of d xs \<in> set xs"
  by (simp add: last_of_def)

lemma links_append [simp]:
  "links h p (xs @ ys) n \<longleftrightarrow> links h p xs (first_of ys n) \<and> links h (last_of p xs) ys n"
  by (induction xs arbitrary: p) auto

lemma links_frame:
  "(\<And>x. x \<in> set xs \<Longrightarrow> h' x = h x) \<Longrightarrow> links h' p xs n \<longleftrightarrow> links h p xs n"
  by (induction xs arbitrary: p) auto

lemma links_upd_other [simp]: "x \<notin> set xs \<Longrightarrow> links (h(x := v)) p xs n \<longleftrightarrow> links h p xs n"
  by (rule links_frame) auto

lemma chain_frame: "(\<And>x. x \<in> set ns \<Longrightarrow> h' x = h x) \<Longrightarrow> chain h' ns \<longleftrightarrow> chain h ns"
  using links_frame [of ns h' h NULL NULL] by (simp add: chain_def)

lemma is_list_frame:
  "(\<And>x. x \<in> list_nodes l xs \<Longrightarrow> h' x = h x) \<Longrightarrow> is_list h' l xs \<longleftrightarrow> is_list h l xs"
  unfolding is_list_def list_nodes_def by (rule chain_frame) auto

text \<open>A chain seen from two neighbours.\<close>

lemma chain_pair:
  "chain h (as @ a # b # bs) \<longleftrightarrow>
     distinct (as @ a # b # bs) \<and> NULL \<notin> set (as @ a # b # bs) \<and>
     links h NULL as a \<and> h a = \<lparr>le_prev = last_of NULL as, le_next = b\<rparr> \<and>
     h b = \<lparr>le_prev = a, le_next = first_of bs NULL\<rparr> \<and> links h b bs NULL"
  by (auto simp: chain_def)

lemmas elem_access = get_prev_def get_next_def set_prev_def set_next_def
lemmas elem_kind = is_head_def is_interior_def is_tail_def

lemma chain_next: "chain h (as @ a # b # bs) \<Longrightarrow> list_next a h = Some b"
  unfolding chain_pair by (simp add: list_next_def elem_access elem_kind)

lemma chain_prev: "chain h (as @ a # b # bs) \<Longrightarrow> list_prev b h = Some a"
  unfolding chain_pair by (simp add: list_prev_def elem_access elem_kind)

lemma chain_interior:
  assumes "chain h (as @ a # e # b # bs)"
  shows "is_interior e h"
  using assms [unfolded chain_pair] by (simp add: elem_kind)

lemma chain_before: "chain h (as @ a # b # bs) \<Longrightarrow> is_interior b h \<or> is_tail b h"
  unfolding chain_pair by (simp add: elem_kind)

lemma list_elem_upd [simp]:
  "r\<lparr>le_prev := a, le_next := b\<rparr> = \<lparr>le_prev = a, le_next = b\<rparr>"
  by (cases r) simp

lemma list_insert_eq:
  assumes "is_interior b h \<or> is_tail b h" and "e \<noteq> NULL" and "le_prev (h b) = a" and "a \<noteq> NULL"
    and ne: "a \<noteq> e" "a \<noteq> b" "e \<noteq> b"
  shows "list_insert b e h = Some (h(e := \<lparr>le_prev = a, le_next = b\<rparr>,
           a := (h a)\<lparr>le_next := e\<rparr>, b := (h b)\<lparr>le_prev := e\<rparr>))"
proof -
  have "b \<noteq> NULL" using assms(1) by (auto simp: elem_kind)
  then show ?thesis using assms ne [symmetric]
    by (simp add: list_insert_def elem_access)
qed

lemma list_remove_eq:
  assumes "is_interior e h" and "le_prev (h e) = a" and "le_next (h e) = b"
    and ne: "a \<noteq> e" "a \<noteq> b" "e \<noteq> b"
  shows "list_remove e h = Some (b, h(a := (h a)\<lparr>le_next := b\<rparr>, b := (h b)\<lparr>le_prev := a\<rparr>))"
  using assms ne [symmetric] by (simp add: list_remove_def elem_access elem_kind)

lemma chain_insert:
  assumes "chain h (as @ a # b # bs)" and "e \<noteq> NULL" and "e \<notin> set (as @ a # b # bs)"
  shows "\<exists>h'. list_insert b e h = Some h' \<and> chain h' (as @ a # e # b # bs)
              \<and> (\<forall>p. p \<notin> {a, e, b} \<longrightarrow> h' p = h p)"
proof -
  let ?h = "h(e := \<lparr>le_prev = a, le_next = b\<rparr>,
              a := (h a)\<lparr>le_next := e\<rparr>, b := (h b)\<lparr>le_prev := e\<rparr>)"
  note c = assms(1) [unfolded chain_pair]
  have ne: "a \<noteq> e" "e \<noteq> a" "a \<noteq> b" "b \<noteq> a" "e \<noteq> b" "b \<noteq> e" using c assms(3) by auto
  have "list_insert b e h = Some ?h"
    using assms(2) c chain_before [OF assms(1)] ne by (intro list_insert_eq) simp_all
  moreover have "chain ?h (as @ a # e # b # bs)"
    unfolding chain_def using c assms(2,3) ne by simp
  ultimately show ?thesis by simp
qed

lemma chain_remove:
  assumes "chain h (as @ a # e # b # bs)"
  shows "\<exists>h'. list_remove e h = Some (b, h') \<and> chain h' (as @ a # b # bs)
              \<and> (\<forall>p. p \<notin> {a, b} \<longrightarrow> h' p = h p)"
proof -
  let ?h = "h(a := (h a)\<lparr>le_next := b\<rparr>, b := (h b)\<lparr>le_prev := a\<rparr>)"
  note c = assms [unfolded chain_def, simplified]
  have ne: "a \<noteq> e" "e \<noteq> a" "a \<noteq> b" "b \<noteq> a" "e \<noteq> b" "b \<noteq> e" using c by auto
  have "list_remove e h = Some (b, ?h)"
    using c chain_interior [OF assms] ne by (intro list_remove_eq) simp_all
  moreover have "chain ?h (as @ a # b # bs)"
    unfolding chain_def using c ne by simp
  ultimately show ?thesis by simp
qed


subsection \<open>The operations on well formed lists\<close>

definition only_changes :: "ptr set \<Rightarrow> heap \<Rightarrow> heap \<Rightarrow> bool" where
  "only_changes A h h' \<longleftrightarrow> (\<forall>p. p \<notin> A \<longrightarrow> h' p = h p)"

lemma only_changes_refl [simp]: "only_changes A h h"
  by (simp add: only_changes_def)

lemma only_changes_trans:
  "only_changes A h h' \<Longrightarrow> only_changes B h' h'' \<Longrightarrow> only_changes (A \<union> B) h h''"
  by (simp add: only_changes_def)

lemma only_changes_mono: "only_changes A h h' \<Longrightarrow> A \<subseteq> B \<Longrightarrow> only_changes B h h'"
  by (auto simp: only_changes_def)

lemma is_list_only_changes:
  "is_list h l xs \<Longrightarrow> only_changes A h h' \<Longrightarrow> A \<inter> list_nodes l xs = {} \<Longrightarrow> is_list h' l xs"
  using is_list_frame [of l xs h' h] unfolding only_changes_def by blast

lemma is_list_not_null: "is_list h l xs \<Longrightarrow> l \<noteq> NULL \<and> tail_of l \<noteq> NULL \<and> NULL \<notin> set xs"
  by (auto simp: is_list_def chain_def)

lemma is_list_distinct:
  "is_list h l xs \<Longrightarrow> distinct xs \<and> head_of l \<notin> set xs \<and> tail_of l \<notin> set xs"
  by (auto simp: is_list_def chain_def)

lemma is_list_split:
  assumes "is_list h l (xs @ ys)"
  obtains as a b bs where "head_of l # xs = as @ [a]" and "ys @ [tail_of l] = b # bs"
    and "a = last_of (head_of l) xs" and "b = first_of ys (tail_of l)"
    and "chain h (as @ a # b # bs)"
proof -
  obtain as a where a: "head_of l # xs = as @ [a]" by (metis append_butlast_last_id list.distinct(1))
  obtain b bs where b: "ys @ [tail_of l] = b # bs" by (cases "ys @ [tail_of l]") auto
  have "head_of l # (xs @ ys) @ [tail_of l] = as @ a # b # bs" using a b by (metis append_Cons append_assoc append_Nil)
  moreover have "a = last_of (head_of l) xs" using arg_cong [OF a, of "last_of NULL"] by simp
  moreover have "b = first_of ys (tail_of l)" using arg_cong [OF b, of "\<lambda>zs. first_of zs NULL"] by simp
  ultimately show ?thesis using that a b assms unfolding is_list_def by metis
qed

lemma list_begin_list: "is_list h l xs \<Longrightarrow> list_begin l h = Some (first_of xs (tail_of l))"
  by (auto simp: is_list_def chain_def list_begin_def elem_access)

lemma list_end_list: "is_list h l xs \<Longrightarrow> list_end l = Some (tail_of l)"
  using is_list_not_null [of h l xs] by (simp add: list_end_def)

lemma first_of_tail: "is_list h l xs \<Longrightarrow> first_of xs (tail_of l) = tail_of l \<longleftrightarrow> xs = []"
  using is_list_distinct [of h l xs] by (cases xs) auto

lemma list_empty_list: "is_list h l xs \<Longrightarrow> list_empty l h = Some (xs = [])"
  by (simp add: list_empty_def list_begin_list list_end_list first_of_tail)

lemma list_next_list:
  assumes "is_list h l (xs @ y # ys)"
  shows "list_next y h = Some (first_of ys (tail_of l))"
proof -
  from assms have "is_list h l ((xs @ [y]) @ ys)" by simp
  then obtain as a b bs where "a = last_of (head_of l) (xs @ [y])" "b = first_of ys (tail_of l)"
      "chain h (as @ a # b # bs)"
    by (rule is_list_split)
  then show ?thesis using chain_next by simp
qed

lemma list_prev_list:
  assumes "is_list h l (xs @ ys)"
  shows "list_prev (first_of ys (tail_of l)) h = Some (last_of (head_of l) xs)"
  using is_list_split [OF assms] chain_prev by metis

lemma list_insert_list:
  assumes "is_list h l (xs @ ys)" and "e \<noteq> NULL" and "e \<notin> list_nodes l (xs @ ys)"
  shows "\<exists>h'. list_insert (first_of ys (tail_of l)) e h = Some h' \<and> is_list h' l (xs @ e # ys)
              \<and> only_changes (list_nodes l (xs @ e # ys)) h h'"
proof -
  obtain as a b bs where ab: "head_of l # xs = as @ [a]" "ys @ [tail_of l] = b # bs"
      "b = first_of ys (tail_of l)" and c: "chain h (as @ a # b # bs)"
    using is_list_split [OF assms(1)] by metis
  have nodes: "set (as @ a # b # bs) = list_nodes l (xs @ ys)"
    using arg_cong [OF ab(1), of set] arg_cong [OF ab(2), of set] by (auto simp: list_nodes_def)
  obtain h' where h': "list_insert b e h = Some h'" "chain h' (as @ a # e # b # bs)"
      "\<forall>p. p \<notin> {a, e, b} \<longrightarrow> h' p = h p"
    using chain_insert [OF c assms(2)] assms(3) nodes by auto
  have "as @ a # e # b # bs = head_of l # (xs @ e # ys) @ [tail_of l]"
    using ab by (metis append_Cons append_assoc append_Nil)
  moreover have "{a, e, b} \<subseteq> list_nodes l (xs @ e # ys)"
    using nodes by (auto simp: list_nodes_def)
  ultimately show ?thesis
    using h' ab(3) unfolding is_list_def only_changes_def by auto
qed

lemma list_remove_list:
  assumes "is_list h l (xs @ e # ys)"
  shows "\<exists>h'. list_remove e h = Some (first_of ys (tail_of l), h') \<and> is_list h' l (xs @ ys)
              \<and> only_changes (list_nodes l (xs @ ys)) h h'"
proof -
  obtain as a where a: "head_of l # xs = as @ [a]"
    by (metis append_butlast_last_id list.distinct(1))
  obtain b bs where b: "ys @ [tail_of l] = b # bs" by (cases "ys @ [tail_of l]") auto
  have c: "chain h (as @ a # e # b # bs)"
    using assms a b unfolding is_list_def by (metis append_Cons append_assoc append_Nil)
  have bf: "b = first_of ys (tail_of l)"
    using arg_cong [OF b, of "\<lambda>zs. first_of zs NULL"] by simp
  have nodes: "{a, b} \<subseteq> list_nodes l (xs @ ys)"
    using arg_cong [OF a, of set] arg_cong [OF b, of set] by (auto simp: list_nodes_def)
  have "as @ a # b # bs = head_of l # (xs @ ys) @ [tail_of l]"
    using a b by (metis append_Cons append_assoc append_Nil)
  with chain_remove [OF c] nodes bf show ?thesis
    unfolding is_list_def only_changes_def by auto
qed


lemma list_push_front_list:
  assumes "is_list h l xs" and "e \<noteq> NULL" and "e \<notin> list_nodes l xs"
  shows "\<exists>h'. list_push_front l e h = Some h' \<and> is_list h' l (e # xs)
              \<and> only_changes (list_nodes l (e # xs)) h h'"
  using list_insert_list [of h l "[]" xs e] assms
  by (simp add: list_push_front_def list_begin_list [OF assms(1)])

lemma list_push_back_list:
  assumes "is_list h l xs" and "e \<noteq> NULL" and "e \<notin> list_nodes l xs"
  shows "\<exists>h'. list_push_back l e h = Some h' \<and> is_list h' l (xs @ [e])
              \<and> only_changes (list_nodes l (xs @ [e])) h h'"
  using list_insert_list [of h l xs "[]" e] assms
  by (simp add: list_push_back_def list_end_list [OF assms(1)])

lemma list_front_list:
  assumes "is_list h l (x # xs)"
  shows "list_front l h = Some x"
proof -
  have "get_next (head_of l) h = Some x"
    using list_begin_list [OF assms] by (simp add: list_begin_def panic_simps)
  then show ?thesis using assms by (simp add: list_front_def list_empty_list)
qed

lemma list_back_list:
  assumes "is_list h l (xs @ [x])"
  shows "list_back l h = Some x"
proof -
  have "list_prev (tail_of l) h = Some x"
    using list_prev_list [of h l "xs @ [x]" "[]"] assms by simp
  then have "get_prev (tail_of l) h = Some x" by (simp add: list_prev_def panic_simps)
  then show ?thesis using assms by (simp add: list_back_def list_empty_list)
qed

lemma list_front_empty: "is_list h l [] \<Longrightarrow> list_front l h = None \<and> list_back l h = None"
  by (simp add: list_front_def list_back_def list_empty_list)

lemma list_pop_front_list:
  assumes "is_list h l (x # xs)"
  shows "\<exists>h'. list_pop_front l h = Some (x, h') \<and> is_list h' l xs
              \<and> only_changes (list_nodes l xs) h h'"
  using list_remove_list [of h l "[]" x xs] assms
  by (auto simp: list_pop_front_def list_front_list)

lemma list_pop_back_list:
  assumes "is_list h l (xs @ [x])"
  shows "\<exists>h'. list_pop_back l h = Some (x, h') \<and> is_list h' l xs
              \<and> only_changes (list_nodes l xs) h h'"
  using list_remove_list [of h l xs x "[]"] assms
  by (auto simp: list_pop_back_def list_back_list)

lemma list_size_loop_list:
  "is_list h l (xs @ ys) \<Longrightarrow>
   list_size_loop l (first_of ys (tail_of l)) cnt h = Some (cnt + of_nat (length ys))"
proof (induction ys arbitrary: xs cnt)
  case Nil
  then show ?case by (simp add: list_size_loop.simps list_end_list)
next
  case (Cons y ys)
  have "y \<noteq> tail_of l" using is_list_distinct [OF Cons.prems] by auto
  moreover have "list_size_loop l (first_of ys (tail_of l)) (cnt + 1) h
      = Some (cnt + 1 + of_nat (length ys))"
    using Cons.IH [of "xs @ [y]"] Cons.prems by simp
  ultimately show ?case
    using list_end_list [OF Cons.prems] list_next_list [OF Cons.prems]
    by (simp add: list_size_loop.simps [of l y])
qed

lemma list_size_list: "is_list h l xs \<Longrightarrow> list_size l h = Some (of_nat (length xs))"
  using list_size_loop_list [of h l "[]" xs 0] by (simp add: list_size_def list_begin_list)

text \<open>The position of an ordered insertion, on sequences.\<close>

fun insert_ordered :: "('a \<Rightarrow> 'a \<Rightarrow> bool) \<Rightarrow> 'a \<Rightarrow> 'a list \<Rightarrow> 'a list" where
  "insert_ordered lt e [] = [e]"
| "insert_ordered lt e (x # xs) = (if lt e x then e # x # xs else x # insert_ordered lt e xs)"

lemma insert_ordered_split:
  "insert_ordered lt e xs = takeWhile (\<lambda>x. \<not> lt e x) xs @ e # dropWhile (\<lambda>x. \<not> lt e x) xs"
  by (induction xs) auto

lemma list_insert_ordered_loop_list:
  "is_list h l (xs @ ys) \<Longrightarrow>
   list_insert_ordered_loop l e (first_of ys (tail_of l)) lt h
     = Some (first_of (dropWhile (\<lambda>x. \<not> lt e x) ys) (tail_of l))"
proof (induction ys arbitrary: xs)
  case Nil
  then show ?case by (simp add: list_insert_ordered_loop.simps list_end_list)
next
  case (Cons y ys)
  have "y \<noteq> tail_of l" using is_list_distinct [OF Cons.prems] by auto
  moreover have "list_insert_ordered_loop l e (first_of ys (tail_of l)) lt h
      = Some (first_of (dropWhile (\<lambda>x. \<not> lt e x) ys) (tail_of l))"
    using Cons.IH [of "xs @ [y]"] Cons.prems by simp
  ultimately show ?case
    using list_end_list [OF Cons.prems] list_next_list [OF Cons.prems]
    by (simp add: list_insert_ordered_loop.simps [of l e y])
qed

lemma list_insert_ordered_list:
  assumes "is_list h l xs" and "e \<noteq> NULL" and "e \<notin> list_nodes l xs"
  shows "\<exists>h'. list_insert_ordered l e lt h = Some h' \<and> is_list h' l (insert_ordered lt e xs)
              \<and> only_changes (list_nodes l (e # xs)) h h'"
proof -
  let ?P = "\<lambda>x. \<not> lt e x"
  have split: "is_list h l (takeWhile ?P xs @ dropWhile ?P xs)" using assms(1) by simp
  have nodes: "list_nodes l (takeWhile ?P xs @ e # dropWhile ?P xs) = list_nodes l (e # xs)"
    unfolding list_nodes_def by (metis set_append takeWhile_dropWhile_id Un_insert_right list.simps(15))
  have "list_insert_ordered l e lt h = list_insert (first_of (dropWhile ?P xs) (tail_of l)) e h"
    using list_insert_ordered_loop_list [of h l "[]" xs e lt] assms is_list_not_null [OF assms(1)]
    by (simp add: list_insert_ordered_def list_begin_list)
  then show ?thesis
    using list_insert_list [OF split assms(2)] assms(3)
    by (simp add: nodes insert_ordered_split)
qed

subsection \<open>Maximum and minimum\<close>

lemma list_max_loop_list:
  "is_list h l (xs @ ys) \<Longrightarrow>
   list_max_loop l m (first_of ys (tail_of l)) lt h
     = Some (foldl (\<lambda>m x. if lt m x then x else m) m ys)"
proof (induction ys arbitrary: xs m)
  case Nil
  then show ?case by (simp add: list_max_loop.simps list_end_list)
next
  case (Cons y ys)
  have "y \<noteq> tail_of l" using is_list_distinct [OF Cons.prems] by auto
  with Cons.IH [of "xs @ [y]"] Cons.prems list_end_list [OF Cons.prems] list_next_list [OF Cons.prems]
  show ?case by (simp add: list_max_loop.simps [of l m y])
qed

lemma list_min_loop_list:
  "is_list h l (xs @ ys) \<Longrightarrow>
   list_min_loop l m (first_of ys (tail_of l)) lt h
     = Some (foldl (\<lambda>m x. if lt x m then x else m) m ys)"
proof (induction ys arbitrary: xs m)
  case Nil
  then show ?case by (simp add: list_min_loop.simps list_end_list)
next
  case (Cons y ys)
  have "y \<noteq> tail_of l" using is_list_distinct [OF Cons.prems] by auto
  with Cons.IH [of "xs @ [y]"] Cons.prems list_end_list [OF Cons.prems] list_next_list [OF Cons.prems]
  show ?case by (simp add: list_min_loop.simps [of l m y])
qed

lemma list_max_list:
  assumes "is_list h l (x # xs)"
  shows "list_max l lt h = Some (foldl (\<lambda>m x. if lt m x then x else m) x xs)"
proof -
  have "x \<noteq> tail_of l" using is_list_distinct [OF assms] by auto
  then show ?thesis
    using list_max_loop_list [of h l "[x]" xs] list_next_list [of h l "[]" x xs] assms
    by (simp add: list_max_def list_begin_list list_end_list)
qed

lemma list_min_list:
  assumes "is_list h l (x # xs)"
  shows "list_min l lt h = Some (foldl (\<lambda>m x. if lt x m then x else m) x xs)"
proof -
  have "x \<noteq> tail_of l" using is_list_distinct [OF assms] by auto
  then show ?thesis
    using list_min_loop_list [of h l "[x]" xs] list_next_list [of h l "[]" x xs] assms
    by (simp add: list_min_def list_begin_list list_end_list)
qed

lemma list_max_min_empty:
  "is_list h l [] \<Longrightarrow> list_max l lt h = Some (tail_of l) \<and> list_min l lt h = Some (tail_of l)"
  by (simp add: list_max_def list_min_def list_begin_list list_end_list)


subsection \<open>Reversal\<close>

definition flip_links :: "ptr set \<Rightarrow> heap \<Rightarrow> heap" where
  "flip_links A h = (\<lambda>p. if p \<in> A then \<lparr>le_prev = le_next (h p), le_next = le_prev (h p)\<rparr> else h p)"

lemma links_flip:
  "links h p xs n \<Longrightarrow> distinct xs \<Longrightarrow> links (flip_links (set xs) h) n (rev xs) p"
proof (induction xs arbitrary: p)
  case Nil
  then show ?case by simp
next
  case (Cons x xs)
  have "links (flip_links (set (x # xs)) h) n (rev xs) x
      \<longleftrightarrow> links (flip_links (set xs) h) n (rev xs) x"
    using Cons.prems by (intro links_frame) (auto simp: flip_links_def)
  moreover have "last_of n (rev xs) = first_of xs n" by (cases xs) simp_all
  ultimately show ?case using Cons by (simp add: flip_links_def)
qed

lemma list_reverse_loop_links:
  "links h p xs (tail_of l) \<Longrightarrow> distinct xs \<Longrightarrow> NULL \<notin> set xs \<Longrightarrow> tail_of l \<notin> set xs \<Longrightarrow> l \<noteq> NULL \<Longrightarrow>
   list_reverse_loop l (first_of xs (tail_of l)) h = Some (flip_links (set xs) h)"
proof (induction xs arbitrary: p h)
  case Nil
  then show ?case by (simp add: list_reverse_loop.simps list_end_def flip_links_def)
next
  case (Cons x xs)
  let ?h = "h(x := \<lparr>le_prev = le_next (h x), le_next = le_prev (h x)\<rparr>)"
  have swap: "swap (Prev_of x) (Next_of x) h = Some ?h"
    using Cons.prems by (simp add: swap_def elem_access)
  have "links ?h x xs (tail_of l)" using Cons.prems by simp
  then have "list_reverse_loop l (first_of xs (tail_of l)) ?h = Some (flip_links (set xs) ?h)"
    by (rule Cons.IH) (use Cons.prems in simp_all)
  moreover have "flip_links (set xs) ?h = flip_links (set (x # xs)) h"
    using Cons.prems by (auto simp: flip_links_def)
  moreover have "get_prev x ?h = Some (first_of xs (tail_of l))"
    using Cons.prems by (simp add: elem_access)
  moreover have "x \<noteq> tail_of l" using Cons.prems by auto
  ultimately show ?case
    using Cons.prems swap by (simp add: list_reverse_loop.simps [of l x] list_end_def)
qed

lemma links_reattach:
  assumes "links h p zs n" and "zs \<noteq> []" and "distinct zs"
  shows "links (h(first_of zs d := (h (first_of zs d))\<lparr>le_prev := p'\<rparr>)) p' zs n"
    and "links (h(last_of d zs := (h (last_of d zs))\<lparr>le_next := n'\<rparr>)) p zs n'"
proof -
  show "links (h(first_of zs d := (h (first_of zs d))\<lparr>le_prev := p'\<rparr>)) p' zs n"
    using assms by (cases zs) simp_all
  obtain ys y where "zs = ys @ [y]" using assms(2) by (metis append_butlast_last_id)
  then show "links (h(last_of d zs := (h (last_of d zs))\<lparr>le_next := n'\<rparr>)) p zs n'"
    using assms by simp
qed

lemma links_ends:
  assumes "links h p zs n" and "zs \<noteq> []"
  shows "le_prev (h (first_of zs d)) = p" and "le_next (h (last_of d zs)) = n"
proof -
  show "le_prev (h (first_of zs d)) = p" using assms by (cases zs) simp_all
  obtain ys y where "zs = ys @ [y]" using assms(2) by (metis append_butlast_last_id)
  then show "le_next (h (last_of d zs)) = n" using assms by simp
qed

lemma list_reverse_list:
  assumes "is_list h l xs"
  shows "\<exists>h'. list_reverse l h = Some h' \<and> is_list h' l (rev xs)
              \<and> only_changes (list_nodes l xs) h h'"
proof (cases "xs = []")
  case True
  then show ?thesis using assms by (simp add: list_reverse_def list_empty_list)
next
  case False
  let ?t = "tail_of l" and ?zs = "rev xs"
  let ?f = "first_of ?zs ?t" and ?b = "last_of l ?zs"
  note c = assms [unfolded is_list_def chain_def, simplified]
  define h1 where "h1 = flip_links (set xs) h"
  define h2 where "h2 = h1(l := (h1 l)\<lparr>le_next := ?f\<rparr>, ?t := (h1 ?t)\<lparr>le_prev := ?b\<rparr>)"
  define h3 where "h3 = h2(?f := (h2 ?f)\<lparr>le_prev := l\<rparr>)"
  define h4 where "h4 = h3(?b := (h3 ?b)\<lparr>le_next := ?t\<rparr>)"
  have fb: "?f \<in> set xs" "?b \<in> set xs"
    using False first_of_in [of ?zs ?t] last_of_in [of ?zs l] by simp_all
  have ends: "first_of xs ?t = ?b" "last_of l xs = ?f"
    using False by (cases xs; simp add: last_of_def first_of_def split: list.split)
      (cases "rev xs"; simp add: last_of_def; metis last_rev list.sel(1) rev_rev_ident rev_is_Nil_conv False)
  have ne: "l \<noteq> ?t" "?t \<noteq> l" "?f \<noteq> l" "?f \<noteq> ?t" "?b \<noteq> l" "?b \<noteq> ?t" using c fb by auto
  have l1: "links h1 ?t ?zs l" unfolding h1_def using c by (intro links_flip) auto
  have head: "h1 l = \<lparr>le_prev = NULL, le_next = ?b\<rparr>" "h1 ?t = \<lparr>le_prev = ?f, le_next = NULL\<rparr>"
    using c ends by (auto simp: h1_def flip_links_def)
  have loop: "list_reverse_loop l (first_of xs ?t) h = Some h1"
    unfolding h1_def using c by (intro list_reverse_loop_links) auto
  have l2: "links h2 ?t ?zs l" unfolding h2_def using l1 c by simp
  then have l3: "links h3 l ?zs l" unfolding h3_def using False c links_reattach(1) by simp
  then have l4: "links h4 l ?zs ?t" unfolding h4_def using False c links_reattach(2) by simp
  have h4: "h4 l = \<lparr>le_prev = NULL, le_next = ?f\<rparr>" "h4 ?t = \<lparr>le_prev = ?b, le_next = NULL\<rparr>"
    using ne head by (simp_all add: h4_def h3_def h2_def)
  have "is_list h4 l ?zs"
    unfolding is_list_def chain_def using c l4 h4 by simp
  moreover have "list_reverse l h = Some h4"
  proof -
    have "swap (Next_of l) (Prev_of ?t) h1 = Some h2"
      using c ne head by (simp add: swap_def elem_access h2_def)
    moreover have "get_next l h2 = Some ?f" "get_prev ?t h2 = Some ?b"
      using c ne by (simp_all add: elem_access h2_def)
    moreover have "swap (Prev_of ?f) (Next_of ?b) h2 = Some h4"
      using c fb links_ends [OF l2] False by (auto simp: swap_def elem_access h3_def h4_def)
    ultimately show ?thesis
      using assms False loop by (simp add: list_reverse_def list_empty_list list_begin_list)
  qed
  moreover have "only_changes (list_nodes l xs) h h4"
    using fb by (auto simp: only_changes_def list_nodes_def h4_def h3_def h2_def h1_def flip_links_def)
  ultimately show ?thesis by blast
qed


subsection \<open>Removal of adjacent duplicates\<close>

text \<open>
  On sequences: the elements \<open>list_unique\<close> keeps of \<open>x # xs\<close>, and those it moves to
  \<open>duplicates\<close>.
\<close>

fun unique_keep :: "(ptr \<Rightarrow> ptr \<Rightarrow> bool) \<Rightarrow> ptr \<Rightarrow> ptr list \<Rightarrow> ptr list" where
  "unique_keep lt x [] = [x]"
| "unique_keep lt x (y # ys) =
     (if \<not> lt x y \<and> \<not> lt y x then unique_keep lt x ys else x # unique_keep lt y ys)"

fun unique_dups :: "(ptr \<Rightarrow> ptr \<Rightarrow> bool) \<Rightarrow> ptr \<Rightarrow> ptr list \<Rightarrow> ptr list" where
  "unique_dups lt x [] = []"
| "unique_dups lt x (y # ys) =
     (if \<not> lt x y \<and> \<not> lt y x then y # unique_dups lt x ys else unique_dups lt y ys)"

lemma mset_unique: "mset (unique_keep lt x xs) + mset (unique_dups lt x xs) = add_mset x (mset xs)"
  by (induction xs arbitrary: x) auto

lemma list_nodes_simps [simp]:
  "list_nodes l (x # xs) = insert x (list_nodes l xs)"
  "list_nodes l (xs @ ys) = list_nodes l xs \<union> list_nodes l ys"
  by (auto simp: list_nodes_def)

lemma list_unique_move:
  assumes "is_list h l (xs @ y # ys)" and "is_list h d ds"
    and "list_nodes l (xs @ y # ys) \<inter> list_nodes d ds = {}"
  shows "\<exists>n h1 h2. list_remove y h = Some (n, h1) \<and> list_push_back d y h1 = Some h2 \<and>
           is_list h2 l (xs @ ys) \<and> is_list h2 d (ds @ [y])"
proof -
  obtain n h1 where h1: "list_remove y h = Some (n, h1)" "is_list h1 l (xs @ ys)"
      "only_changes (list_nodes l (xs @ ys)) h h1"
    using list_remove_list [OF assms(1)] by blast
  have d1: "is_list h1 d ds" using is_list_only_changes [OF assms(2) h1(3)] assms(3) by auto
  have y: "y \<notin> list_nodes l (xs @ ys)"
    using assms(1) by (auto simp: is_list_def chain_def list_nodes_def)
  have "y \<noteq> NULL" using is_list_not_null [OF assms(1)] by auto
  moreover have "y \<notin> list_nodes d ds" using assms(3) by auto
  ultimately obtain h2 where h2: "list_push_back d y h1 = Some h2" "is_list h2 d (ds @ [y])"
      "only_changes (list_nodes d (ds @ [y])) h1 h2"
    using list_push_back_list [OF d1] by blast
  have "is_list h2 l (xs @ ys)"
    using is_list_only_changes [OF h1(2) h2(3)] assms(3) y by (auto simp: list_nodes_def)
  with h1 h2 show ?thesis by blast
qed

lemma list_unique_loop_list:
  assumes "is_list h l (xs @ x # ys)"
    and "d \<noteq> NULL \<longrightarrow> is_list h d ds \<and> list_nodes l (xs @ x # ys) \<inter> list_nodes d ds = {}"
  shows "\<exists>h'. list_unique_loop l d x lt h = Some h' \<and> is_list h' l (xs @ unique_keep lt x ys)
              \<and> (d \<noteq> NULL \<longrightarrow> is_list h' d (ds @ unique_dups lt x ys))"
  using assms
proof (induction ys arbitrary: xs x h ds)
  case Nil
  then show ?case
    using list_next_list [OF Nil.prems(1)] list_end_list [OF Nil.prems(1)]
    by (simp add: list_unique_loop.simps)
next
  case (Cons y ys)
  note l = Cons.prems(1)
  have step: "list_next x h = Some y" "list_end l = Some (tail_of l)" "y \<noteq> tail_of l"
    using list_next_list [OF l] list_end_list [OF l] is_list_distinct [OF l] by auto
  show ?case
  proof (cases "\<not> lt x y \<and> \<not> lt y x")
    case False
    with Cons.IH [of h "xs @ [x]" y ds] Cons.prems step show ?thesis
      by (simp add: list_unique_loop.simps [of l d x] del: de_Morgan_conj)
  next
    case True
    have l': "is_list h l ((xs @ [x]) @ y # ys)" using l by simp
    show ?thesis
    proof (cases "d = NULL")
      case dnull: True
      obtain n h1 where h1: "list_remove y h = Some (n, h1)" "is_list h1 l (xs @ x # ys)"
        using list_remove_list [OF l'] by auto
      with Cons.IH [of h1 xs x ds] dnull True step show ?thesis
        by (simp add: list_unique_loop.simps [of l NULL x lt h])
    next
      case dset: False
      then have "is_list h d ds" "list_nodes l ((xs @ [x]) @ y # ys) \<inter> list_nodes d ds = {}"
        using Cons.prems(2) by auto
      from list_unique_move [OF l' this]
      obtain n h1 h2 where h12: "list_remove y h = Some (n, h1)"
          "list_push_back d y h1 = Some h2" "is_list h2 l (xs @ x # ys)" "is_list h2 d (ds @ [y])"
        by auto
      have "list_nodes l (xs @ x # ys) \<inter> list_nodes d (ds @ [y]) = {}"
        using Cons.prems dset is_list_distinct [OF l] by (auto simp: list_nodes_def)
      with Cons.IH [of h2 xs x "ds @ [y]"] h12 dset True step show ?thesis
        by (simp add: list_unique_loop.simps [of l d x])
    qed
  qed
qed

lemma list_unique_list:
  assumes "is_list h l (x # xs)" and "is_list h d ds"
    and "list_nodes l (x # xs) \<inter> list_nodes d ds = {}"
  shows "\<exists>h'. list_unique l d lt h = Some h' \<and> is_list h' l (unique_keep lt x xs)
              \<and> is_list h' d (ds @ unique_dups lt x xs)"
  using list_unique_loop_list [of h l "[]" x xs d ds lt] assms is_list_not_null [OF assms(1)]
    is_list_not_null [OF assms(2)]
  by (simp add: list_unique_def list_empty_list list_begin_list)

end
