(* ===== verification/List_Sort.thy ===== *)
theory List_Sort
  imports Linked_List
begin

section \<open>Splicing and sorting of lists\<close>

text \<open>
  The lemmas on \<open>list_splice\<close> and on the natural merge sort \<open>list_sort\<close> of
  \<^verbatim>\<open>lib/kernel/list.c\<close>, whose definitions are in \<open>Linked_List\<close>. The sort is shown
  to return, to permute the list's elements, to sort them and to be stable, for every
  comparison that is a strict weak order.
\<close>

subsection \<open>Splicing\<close>

definition detach_links :: "ptr \<Rightarrow> ptr \<Rightarrow> heap \<Rightarrow> heap" where
  "detach_links a z h =
     (let h1 = h(a := (h a)\<lparr>le_next := z\<rparr>) in h1(z := (h1 z)\<lparr>le_prev := a\<rparr>))"

definition attach_links :: "ptr \<Rightarrow> ptr \<Rightarrow> ptr \<Rightarrow> ptr \<Rightarrow> heap \<Rightarrow> heap" where
  "attach_links p f s b h =
     (let h3 = h(f := (h f)\<lparr>le_prev := p\<rparr>);
          h4 = h3(s := (h3 s)\<lparr>le_next := b\<rparr>);
          h5 = h4(p := (h4 p)\<lparr>le_next := f\<rparr>)
      in h5(b := (h5 b)\<lparr>le_prev := s\<rparr>))"

lemma detach_chain:
  assumes "chain h (as @ a # S @ z # bs)" and "S \<noteq> []"
  shows "chain (detach_links a z h) (as @ a # z # bs)"
    and "links (detach_links a z h) a S z"
proof -
  note c = assms(1) [unfolded chain_def, simplified]
  have ne: "a \<noteq> z" "z \<noteq> a" using c by auto
  show "chain (detach_links a z h) (as @ a # z # bs)"
    using c ne by (simp add: chain_def detach_links_def Let_def Int_Un_distrib)
  show "links (detach_links a z h) a S z"
    using c ne by (simp add: detach_links_def Let_def)
qed

lemma attach_chain:
  assumes "chain h (cs @ p # b # ds)" and "links h q S r" and "S \<noteq> []" and "distinct S"
    and "NULL \<notin> set S" and "set S \<inter> set (cs @ p # b # ds) = {}"
  shows "chain (attach_links p (first_of S NULL) (last_of NULL S) b h) (cs @ p # S @ b # ds)"
proof -
  let ?f = "first_of S NULL" and ?s = "last_of NULL S"
  let ?h3 = "h(?f := (h ?f)\<lparr>le_prev := p\<rparr>)"
  let ?h4 = "?h3(?s := (?h3 ?s)\<lparr>le_next := b\<rparr>)"
  note c = assms(1) [unfolded chain_def, simplified]
  have "links ?h3 p S r" using links_reattach(1) [OF assms(2,3,4)] .
  then have l: "links ?h4 p S b" using links_reattach(2) [OF _ assms(3,4)] by blast
  have fs: "?f \<in> set S" "?s \<in> set S" using assms(3) first_of_in last_of_in by auto
  then have out: "?f \<notin> set (cs @ p # b # ds)" "?s \<notin> set (cs @ p # b # ds)" using assms(6) by auto
  have ne: "p \<noteq> b" "b \<noteq> p" "p \<notin> set S" "b \<notin> set S" using c assms(6) by auto
  have S: "first_of S b = ?f" "last_of p S = ?s"
    using assms(3) by (cases S; simp)+
  show ?thesis
    using c l assms(4,5,6) out ne S
    by (simp add: chain_def attach_links_def Let_def) blast
qed

lemma list_splice_eq:
  assumes "is_interior b h \<or> is_tail b h" and "f \<noteq> z" and "list_prev z h = Some s"
    and "is_interior f h" and "is_interior s h" and "le_prev (h f) = a" and "le_next (h s) = z"
    and "a \<notin> {f, s}" and "z \<notin> {f, s, a}" and "b \<notin> {f, s}" and "p = le_prev (detach_links a z h b)"
    and "p \<noteq> NULL" and "p \<notin> {f, s}"
  shows "list_splice b f z h = Some (attach_links p f s b (detach_links a z h))"
proof -
  have nn: "b \<noteq> NULL" "f \<noteq> NULL" "s \<noteq> NULL" "a \<noteq> NULL" "z \<noteq> NULL"
    using assms by (auto simp: elem_kind)
  have ne: "f \<noteq> a" "s \<noteq> a" "f \<noteq> z" "s \<noteq> z" "z \<noteq> a" "a \<noteq> f" "a \<noteq> s" "z \<noteq> f" "z \<noteq> s"
      "b \<noteq> f" "b \<noteq> s" "f \<noteq> b" "s \<noteq> b" "p \<noteq> f" "p \<noteq> s" using assms by auto
  let ?h2 = "detach_links a z h"
  have h2: "set_next a z h = Some (h(a := (h a)\<lparr>le_next := z\<rparr>))"
      "get_next s (h(a := (h a)\<lparr>le_next := z\<rparr>)) = Some z"
      "get_prev f (h(a := (h a)\<lparr>le_next := z\<rparr>)) = Some a"
      "set_prev z a (h(a := (h a)\<lparr>le_next := z\<rparr>)) = Some ?h2"
    using nn ne assms(6,7) by (simp_all add: elem_access detach_links_def Let_def)
  have rest: "do { bp \<leftarrow> get_prev b ?h2; h \<leftarrow> set_prev f bp ?h2; h \<leftarrow> set_next s b h;
                   bp \<leftarrow> get_prev b h; h \<leftarrow> set_next bp f h; set_prev b s h }
              = Some (attach_links p f s b ?h2)"
    using nn ne assms(11,12) by (simp add: elem_access attach_links_def Let_def)
  show ?thesis
    using assms(1-5) nn h2 rest assms(6,7)
    by (simp add: list_splice_def get_prev_def [of f h] get_next_def [of s h])
qed

lemma chain_splice_self:
  assumes "chain h (cs @ p # A @ S @ z # bs)" and "A \<noteq> []" and "S \<noteq> []"
  shows "\<exists>h'. list_splice (first_of A NULL) (first_of S NULL) z h = Some h'
              \<and> chain h' (cs @ p # S @ A @ z # bs)
              \<and> only_changes (set (p # A @ S @ [z])) h h'"
proof -
  obtain b A' where A: "A = b # A'" using assms(2) by (cases A) auto
  obtain as a where as: "cs @ p # A = as @ [a]" by (metis append_butlast_last_id append_is_Nil_conv list.distinct(1))
  obtain f S' where S: "S = f # S'" using assms(3) by (cases S) auto
  obtain S'' s where S2: "S = S'' @ [s]" using assms(3) by (metis append_butlast_last_id)
  have a: "a = last_of p A" using arg_cong [OF as, of "last_of NULL"] by simp
  have c: "chain h (as @ a # S @ z # bs)" using assms(1) as by (metis append_Cons append_assoc append_Nil)
  let ?h2 = "detach_links a z h" and ?f = "first_of S NULL" and ?s = "last_of NULL S"
  have "as @ a # z # bs = cs @ p # b # A' @ z # bs" using as A by (metis append_Cons append_assoc append_Nil)
  with detach_chain [OF c assms(3)] have c2: "chain ?h2 (cs @ p # b # A' @ z # bs)" and l2: "links ?h2 a S z"
    by simp_all
  have c6: "chain (attach_links p ?f ?s b ?h2) (cs @ p # S @ b # A' @ z # bs)"
    using assms(1) A by (intro attach_chain [OF c2 l2 assms(3)]) (auto simp: chain_def)
  have "list_splice b f z h = Some (attach_links p f s b ?h2)"
  proof (rule list_splice_eq)
    show "is_interior b h \<or> is_tail b h" using chain_before assms(1) A by simp
    show "list_prev z h = Some s" using chain_prev [of h "as @ a # S''" s z bs] c S2 by simp
    show "is_interior f h" using c S by (cases S') (auto intro: chain_interior)
    obtain R r where "as @ a # S'' = R @ [r]" by (metis append_butlast_last_id append_is_Nil_conv list.distinct(1))
    then have "as @ a # S @ z # bs = R @ r # s # z # bs" using S2 by simp
    then show "is_interior s h" using c chain_interior by metis
    show "le_prev (h f) = a" using c S by (simp add: chain_def)
    show "le_next (h s) = z" using c S2 by (simp add: chain_def)
    show "p = le_prev (?h2 b)" using c2 by (simp add: chain_def)
    have fs: "f \<in> set S" "s \<in> set S" using S by simp (use S2 in simp)
    then show "a \<notin> {f, s}" "z \<notin> {f, s, a}" "f \<noteq> z" using c by (auto simp: chain_def)
    show "b \<notin> {f, s}" "p \<noteq> NULL" "p \<notin> {f, s}" using assms(1) A fs by (auto simp: chain_def)
  qed
  moreover have "?f = f" "?s = s" using S S2 by (simp, metis last_of_simps(2))
  moreover have "only_changes (set (p # A @ S @ [z])) h (attach_links p f s b ?h2)"
  proof -
    have "a \<in> insert p (set A)" using a A last_of_in [of A p] by auto
    moreover have "f \<in> set S" "s \<in> set S" using S by simp (use S2 in simp)
    ultimately show ?thesis using A
      by (auto simp: only_changes_def attach_links_def detach_links_def Let_def)
  qed
  ultimately show ?thesis using c6 A by auto
qed

subsection \<open>Sequence-level counterparts of the sort's loops\<close>

fun run_split :: "(ptr \<Rightarrow> ptr \<Rightarrow> bool) \<Rightarrow> ptr \<Rightarrow> ptr list \<Rightarrow> ptr list \<times> ptr list" where
  "run_split lt a [] = ([a], [])"
| "run_split lt a (x # xs) =
     (if lt x a then ([a], x # xs) else let (r, s) = run_split lt x xs in (a # r, s))"

fun merge_runs :: "(ptr \<Rightarrow> ptr \<Rightarrow> bool) \<Rightarrow> ptr list \<Rightarrow> ptr list \<Rightarrow> ptr list" where
  "merge_runs lt [] B = B"
| "merge_runs lt (a # A) [] = a # A"
| "merge_runs lt (a # A) (b # B) =
     (if \<not> lt b a then a # merge_runs lt A (b # B) else b # merge_runs lt (a # A) B)"

lemma run_split_length: "run_split lt a xs = (r, s) \<Longrightarrow> length s \<le> length xs"
  by (induction lt a xs arbitrary: r s rule: run_split.induct) (fastforce split: if_splits prod.splits)+

function (sequential) sort_pass :: "(ptr \<Rightarrow> ptr \<Rightarrow> bool) \<Rightarrow> ptr list \<Rightarrow> nat \<times> ptr list" where
  "sort_pass lt [] = (0, [])"
| "sort_pass lt (x # xs) =
     (case run_split lt x xs of
        (r, []) \<Rightarrow> (1, r)
      | (r, b # t) \<Rightarrow>
          (case run_split lt b t of
             (r2, s2) \<Rightarrow>
               (case sort_pass lt s2 of (n, ys) \<Rightarrow> (Suc n, merge_runs lt r r2 @ ys))))"
  by pat_completeness auto
termination
  by (relation "measure (length \<circ> snd)") (auto dest!: run_split_length [OF sym])

fun descents :: "(ptr \<Rightarrow> ptr \<Rightarrow> bool) \<Rightarrow> ptr list \<Rightarrow> nat" where
  "descents lt (x # y # zs) = (if lt y x then 1 else 0) + descents lt (y # zs)"
| "descents lt _ = 0"

abbreviation ascending :: "(ptr \<Rightarrow> ptr \<Rightarrow> bool) \<Rightarrow> ptr list \<Rightarrow> bool" where
  "ascending lt \<equiv> successively (\<lambda>x y. \<not> lt y x)"

lemma descents_0: "descents lt xs = 0 \<longleftrightarrow> ascending lt xs"
  by (induction lt xs rule: descents.induct) auto

lemma descents_append_le: "descents lt (xs @ ys) \<le> descents lt xs + descents lt ys + 1"
proof (induction xs)
  case (Cons x xs)
  then show ?case by (cases xs; cases ys) auto
qed simp

lemma descents_append_break:
  assumes "xs \<noteq> []" and "lt y (last xs)"
  shows "descents lt (xs @ y # ys) = descents lt xs + descents lt (y # ys) + 1"
  using assms by (induction lt xs rule: descents.induct) auto

lemma run_split_run:
  assumes "run_split lt a xs = (r, s)"
  shows "a # xs = r @ s" and "r \<noteq> []" and "hd r = a" and "ascending lt r"
    and "s \<noteq> [] \<Longrightarrow> lt (hd s) (last r)"
  using assms
proof (induction lt a xs arbitrary: r s rule: run_split.induct)
  case (2 lt a x xs)
  {
    case 1
    then show ?case using 2(1-2) by (auto split: if_splits prod.splits)
  next
    case 2
    then show ?case by (auto split: if_splits prod.splits)
  next
    case 3
    then show ?case by (auto split: if_splits prod.splits)
  next
    case 4
    then show ?case using 2(2-4) 
      by (auto split: if_splits prod.splits simp: successively_Cons)
  next
    case 5
    then show ?case using 2(2-5) by (auto split: if_splits prod.splits)
  }
qed simp_all

lemma merge_runs_empty [simp]: "merge_runs lt A [] = A"
  by (cases A) simp_all

lemma mset_merge_runs: "mset (merge_runs lt A B) = mset A + mset B"
  by (induction lt A B rule: merge_runs.induct) auto

lemma set_merge_runs [simp]: "set (merge_runs lt A B) = set A \<union> set B"
  using mset_merge_runs [of lt A B] by (metis set_mset_mset set_mset_union)

lemma hd_merge_runs:
  "merge_runs lt A B \<noteq> [] \<Longrightarrow>
   (A \<noteq> [] \<and> hd (merge_runs lt A B) = hd A) \<or> (B \<noteq> [] \<and> hd (merge_runs lt A B) = hd B)"
  by (cases "(lt, A, B)" rule: merge_runs.cases) auto

lemma ascending_merge_runs:
  "asymp lt \<Longrightarrow> ascending lt A \<Longrightarrow> ascending lt B \<Longrightarrow> ascending lt (merge_runs lt A B)"
proof (induction lt A B rule: merge_runs.induct)
  case (3 lt a A b B)
  show ?case
  proof (cases "lt b a")
    case True
    then have "\<not> lt a b" using "3.prems"(1) by (rule asympD [rotated])
    then show ?thesis using True 3 hd_merge_runs [of lt "a # A" B]
      by (auto simp: successively_Cons [of _ b])
  next
    case False
    then show ?thesis using 3 hd_merge_runs [of lt A "b # B"]
      by (auto simp: successively_Cons [of _ a])
  qed
qed simp_all

text \<open>
  A pass seen as a sequence of runs: the induction rule that the facts on the pass share.
\<close>

lemma sort_pass_runs [consumes 1, case_names empty single pair]:
  assumes "sort_pass lt xs = (n, ys)"
    and "P [] 0 []"
    and "\<And>r. r \<noteq> [] \<Longrightarrow> ascending lt r \<Longrightarrow> P r 1 r"
    and "\<And>r r2 s2 m zs. r \<noteq> [] \<Longrightarrow> ascending lt r \<Longrightarrow> r2 \<noteq> [] \<Longrightarrow> ascending lt r2 \<Longrightarrow>
           lt (hd r2) (last r) \<Longrightarrow> (s2 \<noteq> [] \<Longrightarrow> lt (hd s2) (last r2)) \<Longrightarrow>
           sort_pass lt s2 = (m, zs) \<Longrightarrow> P s2 m zs \<Longrightarrow> P (r @ r2 @ s2) (Suc m) (merge_runs lt r r2 @ zs)"
  shows "P xs n ys"
  using assms(1)
proof (induction lt \<equiv> lt xs arbitrary: n ys rule: sort_pass.induct)
  case 1
  then show ?case using assms(2) by simp
next
  case (2 x xs)
  obtain r s where rs: "run_split lt x xs = (r, s)" by fastforce
  note R = run_split_run [OF rs]
  show ?case
  proof (cases s)
    case Nil
    then have "n = 1" "ys = r" using 2(2) rs by simp_all
    moreover have "x # xs = r" using R(1) Nil by simp
    ultimately show ?thesis using R assms(3) [of r] by simp
  next
    case (Cons b t)
    obtain r2 s2 where rs2: "run_split lt b t = (r2, s2)" by fastforce
    note R2 = run_split_run [OF rs2]
    obtain m zs where mz: "sort_pass lt s2 = (m, zs)" by fastforce
    have n: "n = Suc m" "ys = merge_runs lt r r2 @ zs" using 2(2) rs Cons rs2 mz by simp_all
    have "P (r @ r2 @ s2) (Suc m) (merge_runs lt r r2 @ zs)"
      using R R2 Cons mz 2(1) [OF rs [symmetric] Cons rs2 [symmetric] mz]
      by (intro assms(4)) simp_all
    then show ?thesis using R(1) R2(1) Cons n by simp
  qed
qed

lemma sort_pass_mset: "sort_pass lt xs = (n, ys) \<Longrightarrow> mset ys = mset xs"
  by (induction rule: sort_pass_runs) (simp_all add: mset_merge_runs)

lemma sort_pass_count: "sort_pass lt xs = (n, ys) \<Longrightarrow> n \<le> length xs"
proof (induction rule: sort_pass_runs)
  case (pair r r2 s2 m zs)
  then show ?case by (cases r) simp_all
qed (simp_all add: Suc_le_eq)

lemma sort_pass_descents_before:
  "sort_pass lt xs = (n, ys) \<Longrightarrow> xs \<noteq> [] \<Longrightarrow> 2 * n \<le> descents lt xs + 2"
proof (induction rule: sort_pass_runs)
  case (pair r r2 s2 m zs)
  have d: "descents lt (r @ r2 @ s2) = descents lt r + descents lt (r2 @ s2) + 1"
    using pair(1,3,5) descents_append_break [of r lt "hd r2" "tl r2 @ s2"]
    by (cases r2) simp_all
  show ?case
  proof (cases s2)
    case Nil
    then show ?thesis using pair d by simp
  next
    case (Cons c u)
    then have "descents lt (r2 @ s2) = descents lt r2 + descents lt s2 + 1"
      using pair descents_append_break [of r2 lt c u] by simp
    then show ?thesis using pair Cons d by simp
  qed
qed simp_all

lemma sort_pass_descents_after:
  assumes "asymp lt"
  shows "sort_pass lt xs = (n, ys) \<Longrightarrow> descents lt ys \<le> n - 1 \<and> (n = 0 \<longrightarrow> ys = [])"
proof (induction rule: sort_pass_runs)
  case (single r)
  then show ?case by (simp add: descents_0)
next
  case (pair r r2 s2 m zs)
  have "descents lt (merge_runs lt r r2) = 0"
    using ascending_merge_runs [OF assms pair(2,4)] by (simp add: descents_0)
  then show ?case
    using descents_append_le [of lt "merge_runs lt r r2" zs] pair by (cases m) auto
qed simp

text \<open>A pass that leaves more than one run has at least halved their number.\<close>

lemma sort_pass_progress:
  assumes "asymp lt" and "sort_pass lt xs = (n, ys)"
  shows "1 < n \<Longrightarrow> descents lt ys < descents lt xs" and "n \<le> 1 \<Longrightarrow> ascending lt ys"
proof -
  show "descents lt ys < descents lt xs" if n: "1 < n"
  proof -
    have "xs \<noteq> []" using assms(2) n by auto
    then show ?thesis
      using sort_pass_descents_before [OF assms(2)] sort_pass_descents_after [OF assms] n by linarith
  qed
  show "ascending lt ys" if "n \<le> 1"
    using sort_pass_descents_after [OF assms] that by (simp add: descents_0 [symmetric])
qed

subsection \<open>The loops of the sort\<close>

lemma is_sorted_loop_chain:
  "chain h (as @ a # xs @ b # bs) \<Longrightarrow> is_sorted_loop a b lt h = Some (ascending lt (a # xs))"
proof (induction xs arbitrary: as a)
  case Nil
  then show ?case
    by (subst is_sorted_loop.simps) (simp add: chain_next [of h as a b bs])
next
  case (Cons x xs)
  have n: "list_next a h = Some x" using chain_next [of h as a x "xs @ b # bs"] Cons.prems by simp
  have p: "list_prev x h = Some a" using chain_prev [of h as a x "xs @ b # bs"] Cons.prems by simp
  have xb: "x \<noteq> b" using Cons.prems by (simp add: chain_def)
  have IH: "is_sorted_loop x b lt h = Some (ascending lt (x # xs))"
    using Cons.IH [of "as @ [a]" x] Cons.prems by simp
  show ?case by (subst is_sorted_loop.simps) (simp add: n p xb IH)
qed

lemma is_sorted_chain:
  assumes "chain h (as @ xs @ b # bs)"
  shows "is_sorted (first_of xs b) b lt h = Some (ascending lt xs)"
proof (cases xs)
  case (Cons x ys)
  then have "x \<noteq> b" using assms by (auto simp: chain_def)
  then show ?thesis using Cons assms is_sorted_loop_chain [of h as x ys b bs lt]
    by (simp add: is_sorted_def)
qed (simp add: is_sorted_def)

lemma find_end_of_run_loop_chain:
  "chain h (as @ a # xs @ b # bs) \<Longrightarrow>
   find_end_of_run_loop a b lt h = Some (first_of (snd (run_split lt a xs)) b)"
proof (induction xs arbitrary: as a)
  case Nil
  then show ?case
    by (subst find_end_of_run_loop.simps) (simp add: chain_next [of h as a b bs])
next
  case (Cons x xs)
  have n: "list_next a h = Some x" using chain_next [of h as a x "xs @ b # bs"] Cons.prems by simp
  have p: "list_prev x h = Some a" using chain_prev [of h as a x "xs @ b # bs"] Cons.prems by simp
  have xb: "x \<noteq> b" using Cons.prems by (simp add: chain_def)
  have IH: "find_end_of_run_loop x b lt h = Some (first_of (snd (run_split lt x xs)) b)"
    using Cons.IH [of "as @ [a]" x] Cons.prems by simp
  show ?case by (subst find_end_of_run_loop.simps) (simp add: n p xb IH split: prod.split)
qed

lemma find_end_of_run_chain:
  assumes "chain h (as @ a # xs @ b # bs)"
  shows "find_end_of_run a b lt h = Some (first_of (snd (run_split lt a xs)) b)"
  using assms find_end_of_run_loop_chain [OF assms]
  by (auto simp: find_end_of_run_def chain_def)

lemma inplace_merge_loop_chain:
  "chain h (as @ p # A @ B @ e # bs) \<Longrightarrow>
   \<exists>h'. inplace_merge_loop (first_of A (first_of B e)) (first_of B e) e lt h = Some h'
        \<and> chain h' (as @ p # merge_runs lt A B @ e # bs)
        \<and> only_changes (set (p # A @ B @ [e])) h h'"
proof (induction lt A B arbitrary: as p h rule: merge_runs.induct)
  case (1 lt B)
  then show ?case by (subst inplace_merge_loop.simps) simp
next
  case (2 lt a A)
  then show ?case by (subst inplace_merge_loop.simps) simp
next
  case (3 lt a A b B)
  have ne: "a \<noteq> b" "b \<noteq> e" using "3.prems" by (auto simp: chain_def)
  show ?case
  proof (cases "lt b a")
    case False
    have n: "list_next a h = Some (first_of A b)"
      using "3.prems" by (cases A) (simp_all add: chain_next [of _ "as @ [p]", simplified])
    obtain h' where "inplace_merge_loop (first_of A b) b e lt h = Some h'"
        "chain h' ((as @ [p]) @ a # merge_runs lt A (b # B) @ e # bs)"
        "only_changes (set (a # A @ (b # B) @ [e])) h h'"
      using "3.IH"(1) [OF False, of h "as @ [p]" a] "3.prems" by auto
    then show ?thesis using False ne n
      by (subst inplace_merge_loop.simps) (auto intro: only_changes_mono)
  next
    case True
    let ?z = "first_of B e"
    obtain rest where z: "B @ e # bs = ?z # rest" by (cases B) auto
    have c: "chain h (as @ p # (a # A) @ [b] @ ?z # rest)" using "3.prems" z by simp
    have n: "list_next b h = Some ?z" "list_prev ?z h = Some b"
      using chain_next [of h "as @ p # a # A" b ?z rest] chain_prev [of h "as @ p # a # A" b ?z rest] c
      by simp_all
    obtain h1 where h1: "list_splice a b ?z h = Some h1"
        "chain h1 (as @ p # [b] @ (a # A) @ ?z # rest)"
        "only_changes (set (p # (a # A) @ [b] @ [?z])) h h1"
      using chain_splice_self [OF c] by auto
    obtain h' where h': "inplace_merge_loop a ?z e lt h1 = Some h'"
        "chain h' ((as @ [p]) @ b # merge_runs lt (a # A) B @ e # bs)"
        "only_changes (set (b # (a # A) @ B @ [e])) h1 h'"
      using "3.IH"(2) [of h1 "as @ [p]" b] True h1(2) z [symmetric] by auto
    have "only_changes (set (p # (a # A) @ (b # B) @ [e])) h h'"
      using h1(3) h'(3) by (cases B) (auto simp: only_changes_def)
    then show ?thesis using True ne n h1(1) h'
      by (subst inplace_merge_loop.simps) auto
  qed
qed

lemma inplace_merge_chain:
  assumes "chain h (as @ p # A @ B @ e # bs)" and "ascending lt A" and "ascending lt B"
  shows "\<exists>h'. inplace_merge (first_of A (first_of B e)) (first_of B e) e lt h = Some h'
              \<and> chain h' (as @ p # merge_runs lt A B @ e # bs)
              \<and> only_changes (set (p # A @ B @ [e])) h h'"
proof -
  obtain rest where z: "B @ e # bs = first_of B e # rest" by (cases B) auto
  have "is_sorted (first_of A (first_of B e)) (first_of B e) lt h = Some True"
    using is_sorted_chain [of h "as @ [p]" A "first_of B e" rest lt] assms z by simp
  moreover have "is_sorted (first_of B e) e lt h = Some True"
    using is_sorted_chain [of h "as @ p # A" B e bs lt] assms by simp
  moreover have "NULL \<notin> {first_of A (first_of B e), first_of B e, e}"
    using assms(1) by (cases A; cases B) (auto simp: chain_def)
  ultimately show ?thesis
    using inplace_merge_loop_chain [OF assms(1), of lt] by (simp add: inplace_merge_def)
qed

lemma list_sort_pass_chain:
  assumes asym: "asymp lt"
  shows "chain h (as @ p # xs @ [tail_of l]) \<Longrightarrow> list_end l = Some (tail_of l) \<Longrightarrow>
    \<exists>h'. list_sort_pass l (first_of xs (tail_of l)) lt k h
            = Some (k + of_nat (fst (sort_pass lt xs)), h')
         \<and> chain h' (as @ p # snd (sort_pass lt xs) @ [tail_of l])
         \<and> only_changes (set (p # xs @ [tail_of l])) h h'"
proof (induction lt \<equiv> lt xs arbitrary: as p k h rule: sort_pass.induct)
  case 1
  then show ?case by (subst list_sort_pass.simps) simp
next
  case (2 x xs)
  let ?e = "tail_of l"
  have xe: "x \<noteq> ?e" using 2(2) by (auto simp: chain_def)
  obtain r s where rs: "run_split lt x xs = (r, s)" by fastforce
  note R = run_split_run [OF rs]
  have f1: "find_end_of_run x ?e lt h = Some (first_of s ?e)"
    using find_end_of_run_chain [of h "as @ [p]" x xs ?e "[]" lt] 2(2) rs by simp
  show ?case
  proof (cases s)
    case Nil
    have "sort_pass lt (x # xs) = (1, r)" using rs Nil by simp
    moreover have "r = x # xs" using R(1) Nil by simp
    ultimately have "sort_pass lt (x # xs) = (1, x # xs)" by simp
    then show ?thesis using f1 xe Nil 2(2,3)
      by (subst list_sort_pass.simps) simp
  next
    case (Cons b t)
    obtain r2 s2 where rs2: "run_split lt b t = (r2, s2)" by fastforce
    note R2 = run_split_run [OF rs2]
    have xs: "x # xs = r @ r2 @ s2" using R(1) R2(1) Cons by simp
    obtain rest where z: "s2 @ [?e] = first_of s2 ?e # rest" by (cases s2) auto
    have c: "chain h (as @ p # r @ r2 @ first_of s2 ?e # rest)" using 2(2) xs z by simp
    have be: "b \<noteq> ?e" using 2(2) R(1) Cons by (auto simp: chain_def)
    have b: "first_of r2 (first_of s2 ?e) = b" "first_of r b = x"
      using R2(2,3) R(2,3) by (cases r2; cases r; simp)+
    have f2: "find_end_of_run b ?e lt h = Some (first_of s2 ?e)"
      using find_end_of_run_chain [of h "as @ p # r" b t ?e "[]" lt] 2(2) R(1) Cons rs2 by simp
    obtain h1 where h1: "inplace_merge x b (first_of s2 ?e) lt h = Some h1"
        "chain h1 (as @ p # merge_runs lt r r2 @ first_of s2 ?e # rest)"
        "only_changes (set (p # r @ r2 @ [first_of s2 ?e])) h h1"
      using inplace_merge_chain [OF c R(4) R2(4)] unfolding b by blast
    have mne: "merge_runs lt r r2 \<noteq> []" using R(2) by (cases r; cases r2) simp_all
    then obtain M q where M: "merge_runs lt r r2 = M @ [q]" by (metis append_butlast_last_id)
    have q: "q \<in> set r \<union> set r2" using M set_merge_runs [of lt r r2] by auto
    have c1: "chain h1 ((as @ p # M) @ q # s2 @ [?e])" using h1(2) M z by simp
    obtain h' where h': "list_sort_pass l (first_of s2 ?e) lt (k + 1) h1
            = Some (k + 1 + of_nat (fst (sort_pass lt s2)), h')"
        "chain h' ((as @ p # M) @ q # snd (sort_pass lt s2) @ [?e])"
        "only_changes (set (q # s2 @ [?e])) h1 h'"
      using 2(1) [OF rs [symmetric] Cons rs2 [symmetric] c1 2(3)] by blast
    have "set (p # r @ r2 @ [first_of s2 ?e]) \<union> set (q # s2 @ [?e]) \<subseteq> set (p # (x # xs) @ [?e])"
      using q by (simp only: xs) (cases s2, auto)
    then have "only_changes (set (p # (x # xs) @ [?e])) h h'"
      by (rule only_changes_mono [OF only_changes_trans [OF h1(3) h'(3)]])
    moreover have "sort_pass lt (x # xs)
        = (Suc (fst (sort_pass lt s2)), M @ q # snd (sort_pass lt s2))"
      using rs Cons rs2 M by (cases "sort_pass lt s2") simp
    moreover have "list_sort_pass l x lt k h = list_sort_pass l (first_of s2 ?e) lt (k + 1) h1"
      by (subst list_sort_pass.simps) (simp only: 2(3) f1 f2 Cons h1(1) xe be first_of_simps
          Option.bind_lunit not_False_eq_True if_True if_False)
    ultimately show ?thesis using h'(1,2) by (simp only: first_of_simps) (simp add: add.assoc)
  qed
qed

primrec sort_passes :: "nat \<Rightarrow> (ptr \<Rightarrow> ptr \<Rightarrow> bool) \<Rightarrow> ptr list \<Rightarrow> ptr list" where
  "sort_passes 0 lt xs = xs"
| "sort_passes (Suc k) lt xs = sort_passes k lt (snd (sort_pass lt xs))"

text \<open>A list's elements have distinct addresses, so \<open>output_run_cnt\<close> cannot wrap around.\<close>

lemma is_list_length:
  assumes "is_list h l xs"
  shows "length xs < 2 ^ 64"
proof -
  have "distinct (l # xs @ [tail_of l])" using assms by (simp only: is_list_def chain_def)
  then have "length (l # xs @ [tail_of l]) = card (set (l # xs @ [tail_of l]))"
    by (rule distinct_card [symmetric])
  also have "\<dots> \<le> card (UNIV :: 64 word set)" by (rule card_mono) simp_all
  finally have "length xs + 2 \<le> card (UNIV :: 64 word set)" by simp
  then show ?thesis by (simp add: card_word)
qed

lemma list_sort_loop_list:
  assumes asym: "asymp lt"
  shows "is_list h l xs \<Longrightarrow>
    \<exists>h' k. list_sort_loop l lt h = Some h' \<and> is_list h' l (sort_passes k lt xs)
           \<and> ascending lt (sort_passes k lt xs) \<and> only_changes (list_nodes l xs) h h'"
proof (induction "descents lt xs" arbitrary: xs h rule: less_induct)
  case less
  obtain n ys where ny: "sort_pass lt xs = (n, ys)" by fastforce
  have c: "chain h ([] @ l # xs @ [tail_of l])" using less(2) by (simp add: is_list_def)
  obtain h1 where h1: "list_sort_pass l (first_of xs (tail_of l)) lt 0 h = Some (of_nat n, h1)"
      "is_list h1 l ys" "only_changes (list_nodes l xs) h h1"
  proof -
    obtain h1 where "list_sort_pass l (first_of xs (tail_of l)) lt 0 h
          = Some (0 + of_nat (fst (sort_pass lt xs)), h1)"
        "chain h1 ([] @ l # snd (sort_pass lt xs) @ [tail_of l])"
        "only_changes (set (l # xs @ [tail_of l])) h h1"
      using list_sort_pass_chain [OF asym c list_end_list [OF less(2)], where k = 0] by blast
    moreover have "set (l # xs @ [tail_of l]) = list_nodes l xs" by (auto simp: list_nodes_def)
    ultimately show thesis using that [of h1] ny by (simp add: is_list_def)
  qed
  have "n < 2 ^ 64"
    using sort_pass_count [OF ny] is_list_length [OF less(2)] by (rule le_less_trans)
  then have cnt: "(of_nat n > (1 :: 64 word)) \<longleftrightarrow> n > 1"
    by (simp add: word_less_nat_alt unat_of_nat)
  have nodes: "list_nodes l ys = list_nodes l xs"
    using mset_eq_setD [OF sort_pass_mset [OF ny]] by (simp add: list_nodes_def)
  show ?case
  proof (cases "n > 1")
    case True
    obtain h' k where h': "list_sort_loop l lt h1 = Some h'" "is_list h' l (sort_passes k lt ys)"
        "ascending lt (sort_passes k lt ys)" "only_changes (list_nodes l ys) h1 h'"
      using less(1) [OF sort_pass_progress(1) [OF asym ny True] h1(2)] by blast
    have "only_changes (list_nodes l xs) h h'"
      using only_changes_trans [OF h1(3) h'(4)] nodes by simp
    moreover have "list_sort_loop l lt h = Some h'"
      by (subst list_sort_loop.simps)
         (simp only: list_begin_list [OF less(2)] h1(1) h'(1) cnt True Option.bind_lunit
            prod.case if_True)
    moreover have "sort_passes (Suc k) lt xs = sort_passes k lt ys" using ny by simp
    ultimately show ?thesis using h'(2,3) by (intro exI [of _ h'] exI [of _ "Suc k"]) simp
  next
    case False
    have "list_sort_loop l lt h = Some h1"
      by (subst list_sort_loop.simps)
         (simp only: list_begin_list [OF less(2)] h1(1) cnt False Option.bind_lunit
            prod.case if_False)
    moreover have "sort_passes (Suc 0) lt xs = ys" using ny by simp
    moreover have "ascending lt ys" using sort_pass_progress(2) [OF asym ny] False by simp
    ultimately show ?thesis using h1(2,3) by (intro exI [of _ h1] exI [of _ "Suc 0"]) simp
  qed
qed

lemma list_sort_list:
  assumes "asymp lt" and "is_list h l xs"
  shows "\<exists>h' k. list_sort l lt h = Some h' \<and> is_list h' l (sort_passes k lt xs)
           \<and> ascending lt (sort_passes k lt xs) \<and> only_changes (list_nodes l xs) h h'"
proof -
  obtain h' k where h': "list_sort_loop l lt h = Some h'" "is_list h' l (sort_passes k lt xs)"
      "ascending lt (sort_passes k lt xs)" "only_changes (list_nodes l xs) h h'"
    using list_sort_loop_list [OF assms] by blast
  have "is_sorted (first_of (sort_passes k lt xs) (tail_of l)) (tail_of l) lt h' = Some True"
    using is_sorted_chain [of h' "[l]" "sort_passes k lt xs" "tail_of l" "[]" lt] h'(2,3)
    by (simp add: is_list_def)
  then have "list_sort l lt h = Some h'"
    using h'(1) list_begin_list [OF h'(2)] list_end_list [OF h'(2)] is_list_not_null [OF assms(2)]
    by (simp add: list_sort_def)
  with h' show ?thesis by blast
qed

subsection \<open>Order and stability\<close>

definition strict_weak_order :: "('a \<Rightarrow> 'a \<Rightarrow> bool) \<Rightarrow> bool" where
  "strict_weak_order lt \<longleftrightarrow>
     asymp lt \<and> (\<forall>x y z. \<not> lt x y \<longrightarrow> \<not> lt y z \<longrightarrow> \<not> lt x z)"

definition ties :: "('a \<Rightarrow> 'a \<Rightarrow> bool) \<Rightarrow> 'a \<Rightarrow> 'a list \<Rightarrow> 'a list" where
  "ties lt x = filter (\<lambda>y. \<not> lt x y \<and> \<not> lt y x)"

lemma mset_sort_passes: "mset (sort_passes k lt xs) = mset xs"
proof (induction k arbitrary: xs)
  case (Suc k)
  then show ?case
    using sort_pass_mset [of lt xs "fst (sort_pass lt xs)" "snd (sort_pass lt xs)"] by simp
qed simp

lemma ascending_sorted_wrt:
  "strict_weak_order lt \<Longrightarrow> ascending lt xs \<longleftrightarrow> sorted_wrt (\<lambda>x y. \<not> lt y x) xs"
  by (rule successively_conv_sorted_wrt) (auto simp: strict_weak_order_def transp_def)

lemma ties_merge_runs:
  assumes "strict_weak_order lt"
  shows "sorted_wrt (\<lambda>x y. \<not> lt y x) A \<Longrightarrow> sorted_wrt (\<lambda>x y. \<not> lt y x) B \<Longrightarrow>
    ties lt x (merge_runs lt A B) = ties lt x A @ ties lt x B"
proof (induction lt \<equiv> lt A B rule: merge_runs.induct)
  case (3 a A b B)
  show ?case
  proof (cases "lt b a")
    case True
    have "ties lt x (a # A) = []" if "\<not> lt x b \<and> \<not> lt b x"
    proof -
      have "lt x y" if "y \<in> set (a # A)" for y
      proof -
        have "\<not> lt y a" using that "3.prems"(1) assms by (auto simp: strict_weak_order_def dest: asympD)
        then show ?thesis
          using \<open>\<not> lt x b \<and> \<not> lt b x\<close> True assms unfolding strict_weak_order_def by blast
      qed
      then show ?thesis by (auto simp: ties_def filter_empty_conv)
    qed
    then show ?thesis using True 3 by (auto simp: ties_def)
  next
    case False
    then show ?thesis using 3 by (auto simp: ties_def)
  qed
qed (simp_all add: ties_def)

lemma ties_sort_pass:
  assumes "strict_weak_order lt"
  shows "sort_pass lt xs = (n, ys) \<Longrightarrow> ties lt x ys = ties lt x xs"
proof (induction rule: sort_pass_runs)
  case (pair r r2 s2 m zs)
  then show ?case
    using ties_merge_runs [OF assms, of r r2 x] ascending_sorted_wrt [OF assms]
    by (simp add: ties_def)
qed simp_all

lemma ties_sort_passes:
  "strict_weak_order lt \<Longrightarrow> ties lt x (sort_passes k lt xs) = ties lt x xs"
proof (induction k arbitrary: xs)
  case (Suc k)
  then show ?case
    using ties_sort_pass [of lt xs "fst (sort_pass lt xs)" "snd (sort_pass lt xs)" x] by simp
qed simp

end
