(* ===== verification/List_Interface.thy ===== *)
theory List_Interface
  imports List_Sort "HOL-Library.Sublist"
begin

section \<open>The list interface and its clients\<close>

text \<open>
  The contract of \<^verbatim>\<open>list.h\<close> that the kernel's queues rely on, as the locales \<open>deque\<close> and
  \<open>ordered_deque\<close>: what the pushes, the pops and the ordered insertion do to the sequence a
  list represents. The contract is proved for the pointer program of \<open>Linked_List\<close> by the
  interpretation \<open>klist\<close>. The laws that the clients use (a queue is first-in first-out, a
  list filled by ordered insertion is drained in order) are proved once in the locales.
  The theory also states the correctness properties of the list operations.
\<close>

subsection \<open>Client loops\<close>

primrec push_all :: "('l \<Rightarrow> 'e \<Rightarrow> 'h \<Rightarrow> 'h option) \<Rightarrow> 'l \<Rightarrow> 'e list \<Rightarrow> 'h \<Rightarrow> 'h option" where
  "push_all push l [] h = Some h"
| "push_all push l (e # es) h = do { h \<leftarrow> push l e h; push_all push l es h }"

text \<open>The loop \<^verbatim>\<open>while (!list_empty (l)) list_pop_front (l);\<close> with the popped elements collected.\<close>

partial_function (option) drain ::
    "('l \<Rightarrow> 'h \<Rightarrow> bool option) \<Rightarrow> ('l \<Rightarrow> 'h \<Rightarrow> ('e \<times> 'h) option) \<Rightarrow> 'l \<Rightarrow> 'h \<Rightarrow> ('e list \<times> 'h) option" where
  "drain is_empty pop l h = do {
     b \<leftarrow> is_empty l h;
     if b then Some ([], h)
     else do {
       (e, h) \<leftarrow> pop l h;
       (es, h) \<leftarrow> drain is_empty pop l h;
       Some (e # es, h)
     }
   }"

subsection \<open>The contract\<close>

locale deque =
  fixes rep :: "'h \<Rightarrow> 'l \<Rightarrow> 'e list \<Rightarrow> bool"
    and node :: "'l \<Rightarrow> 'e \<Rightarrow> bool"
    and is_empty :: "'l \<Rightarrow> 'h \<Rightarrow> bool option"
    and push_front push_back :: "'l \<Rightarrow> 'e \<Rightarrow> 'h \<Rightarrow> 'h option"
    and pop_front pop_back :: "'l \<Rightarrow> 'h \<Rightarrow> ('e \<times> 'h) option"
  assumes empty_law: "rep h l xs \<Longrightarrow> is_empty l h = Some (xs = [])"
    and push_front_law: "rep h l xs \<Longrightarrow> node l e \<Longrightarrow> e \<notin> set xs \<Longrightarrow>
          \<exists>h'. push_front l e h = Some h' \<and> rep h' l (e # xs)"
    and push_back_law: "rep h l xs \<Longrightarrow> node l e \<Longrightarrow> e \<notin> set xs \<Longrightarrow>
          \<exists>h'. push_back l e h = Some h' \<and> rep h' l (xs @ [e])"
    and pop_front_law: "rep h l (x # xs) \<Longrightarrow> \<exists>h'. pop_front l h = Some (x, h') \<and> rep h' l xs"
    and pop_back_law: "rep h l (xs @ [x]) \<Longrightarrow> \<exists>h'. pop_back l h = Some (x, h') \<and> rep h' l xs"
begin

lemma drain_front: "rep h l xs \<Longrightarrow> \<exists>h'. drain is_empty pop_front l h = Some (xs, h') \<and> rep h' l []"
proof (induction xs arbitrary: h)
  case Nil
  then show ?case by (subst drain.simps) (simp add: empty_law)
next
  case (Cons x xs)
  obtain h1 where h1: "pop_front l h = Some (x, h1)" "rep h1 l xs"
    using pop_front_law [OF Cons.prems] by blast
  obtain h' where "drain is_empty pop_front l h1 = Some (xs, h')" "rep h' l []"
    using Cons.IH [OF h1(2)] by blast
  then show ?case using h1(1) empty_law [OF Cons.prems] by (subst drain.simps) simp
qed

lemma push_all_back:
  "rep h l xs \<Longrightarrow> distinct (xs @ es) \<Longrightarrow> list_all (node l) es \<Longrightarrow>
   \<exists>h'. push_all push_back l es h = Some h' \<and> rep h' l (xs @ es)"
proof (induction es arbitrary: h xs)
  case (Cons e es)
  obtain h1 where h1: "push_back l e h = Some h1" "rep h1 l (xs @ [e])"
    using push_back_law [OF Cons.prems(1), of e] Cons.prems(2,3) by auto
  then show ?case using Cons.IH [OF h1(2)] Cons.prems(2,3) by simp
qed simp

lemma push_all_front:
  "rep h l xs \<Longrightarrow> distinct (xs @ es) \<Longrightarrow> list_all (node l) es \<Longrightarrow>
   \<exists>h'. push_all push_front l es h = Some h' \<and> rep h' l (rev es @ xs)"
proof (induction es arbitrary: h xs)
  case (Cons e es)
  obtain h1 where h1: "push_front l e h = Some h1" "rep h1 l (e # xs)"
    using push_front_law [OF Cons.prems(1), of e] Cons.prems(2,3) by auto
  then show ?case using Cons.IH [OF h1(2)] Cons.prems(2,3) by simp
qed simp

text \<open>Pushed at the back and popped at the front, the elements come out in their order.\<close>

lemma fifo:
  assumes "rep h l xs" and "distinct (xs @ es)" and "list_all (node l) es"
  shows "\<exists>h1 h2. push_all push_back l es h = Some h1
                 \<and> drain is_empty pop_front l h1 = Some (xs @ es, h2) \<and> rep h2 l []"
  using push_all_back [OF assms] drain_front by blast

lemma lifo:
  assumes "rep h l xs" and "distinct (xs @ es)" and "list_all (node l) es"
  shows "\<exists>h1 h2. push_all push_front l es h = Some h1
                 \<and> drain is_empty pop_front l h1 = Some (rev es @ xs, h2) \<and> rep h2 l []"
  using push_all_front [OF assms] drain_front by blast

end

lemma set_insert_ordered [simp]: "set (insert_ordered lt e xs) = insert e (set xs)"
  by (induction lt e xs rule: insert_ordered.induct) auto

lemma mset_insert_ordered [simp]: "mset (insert_ordered lt e xs) = add_mset e (mset xs)"
  by (induction lt e xs rule: insert_ordered.induct) auto

lemma distinct_insert_ordered [simp]: "distinct (insert_ordered lt e xs) \<longleftrightarrow> distinct (e # xs)"
  by (induction lt e xs rule: insert_ordered.induct) auto

lemma sorted_insert_ordered:
  assumes "strict_weak_order lt"
  shows "sorted_wrt (\<lambda>x y. \<not> lt y x) xs \<Longrightarrow> sorted_wrt (\<lambda>x y. \<not> lt y x) (insert_ordered lt e xs)"
proof (induction xs)
  case (Cons x xs)
  have "\<not> lt y e" if "lt e x" and "\<not> lt y x" for y
    using assms that by (auto simp: strict_weak_order_def dest: asympD)
  then show ?case using Cons assms by (auto simp: strict_weak_order_def dest: asympD)
qed simp

text \<open>A sequence of ordered insertions: an insertion sort that keeps the order of ties.\<close>

lemma sorted_insertions:
  "strict_weak_order lt \<Longrightarrow> sorted_wrt (\<lambda>x y. \<not> lt y x) xs \<Longrightarrow>
   sorted_wrt (\<lambda>x y. \<not> lt y x) (foldl (\<lambda>ys e. insert_ordered lt e ys) xs es)"
  by (induction es arbitrary: xs) (simp_all add: sorted_insert_ordered)

lemma mset_insertions: "mset (foldl (\<lambda>ys e. insert_ordered lt e ys) xs es) = mset xs + mset es"
  by (induction es arbitrary: xs) simp_all

lemma ties_insert_ordered:
  assumes "strict_weak_order lt"
  shows "sorted_wrt (\<lambda>x y. \<not> lt y x) xs \<Longrightarrow> ties lt x (insert_ordered lt e xs) = ties lt x (xs @ [e])"
proof (induction xs)
  case (Cons y ys)
  have "ties lt x (y # ys) = []" if "lt e y" and "\<not> lt x e" and "\<not> lt e x"
  proof -
    have "lt x z" if "z \<in> set (y # ys)" for z
    proof -
      have "\<not> lt z y" using that Cons.prems assms by (auto simp: strict_weak_order_def dest: asympD)
      then show ?thesis
        using \<open>lt e y\<close> \<open>\<not> lt x e\<close> \<open>\<not> lt e x\<close> assms unfolding strict_weak_order_def by blast
    qed
    then show ?thesis by (auto simp: ties_def filter_empty_conv)
  qed
  then show ?case using Cons by (auto simp: ties_def)
qed (simp add: ties_def)

lemma ties_insertions:
  assumes "strict_weak_order lt"
  shows "sorted_wrt (\<lambda>x y. \<not> lt y x) xs \<Longrightarrow>
    ties lt x (foldl (\<lambda>ys e. insert_ordered lt e ys) xs es) = ties lt x (xs @ es)"
proof (induction es arbitrary: xs)
  case (Cons e es)
  have "ties lt x (insert_ordered lt e xs @ es) = ties lt x (xs @ e # es)"
    using ties_insert_ordered [OF assms Cons.prems] by (simp add: ties_def)
  then show ?case using Cons sorted_insert_ordered [OF assms] by simp
qed simp

locale ordered_deque = deque +
  fixes insert_ord :: "'b \<Rightarrow> 'c \<Rightarrow> ('c \<Rightarrow> 'c \<Rightarrow> bool) \<Rightarrow> 'a \<Rightarrow> 'a option"
  assumes insert_ord_law: "rep h l xs \<Longrightarrow> node l e \<Longrightarrow> e \<notin> set xs \<Longrightarrow>
          \<exists>h'. insert_ord l e lt h = Some h' \<and> rep h' l (insert_ordered lt e xs)"
begin

lemma insert_all:
  "rep h l xs \<Longrightarrow> distinct (xs @ es) \<Longrightarrow> list_all (node l) es \<Longrightarrow>
   \<exists>h'. push_all (\<lambda>l e. insert_ord l e lt) l es h = Some h'
        \<and> rep h' l (foldl (\<lambda>ys e. insert_ordered lt e ys) xs es)"
proof (induction es arbitrary: h xs)
  case (Cons e es)
  obtain h1 where h1: "insert_ord l e lt h = Some h1" "rep h1 l (insert_ordered lt e xs)"
    using insert_ord_law [OF Cons.prems(1), of e] Cons.prems(2,3) by auto
  have "\<exists>h'. push_all (\<lambda>l e. insert_ord l e lt) l es h1 = Some h'
        \<and> rep h' l (foldl (\<lambda>ys e. insert_ordered lt e ys) (insert_ordered lt e xs) es)"
    by (rule Cons.IH [OF h1(2)]) (use Cons.prems(2,3) in auto)
  then show ?case using h1(1) by simp
qed simp

lemma ordered_drain:
  assumes "rep h l []" and "distinct es" and "list_all (node l) es"
  shows "\<exists>h1 h2. push_all (\<lambda>l e. insert_ord l e lt) l es h = Some h1
           \<and> drain is_empty pop_front l h1 = Some (foldl (\<lambda>ys e. insert_ordered lt e ys) [] es, h2)
           \<and> rep h2 l []"
proof -
  have "\<exists>h'. push_all (\<lambda>l e. insert_ord l e lt) l es h = Some h'
        \<and> rep h' l (foldl (\<lambda>ys e. insert_ordered lt e ys) [] es)"
    by (rule insert_all) (use assms in simp_all)
  then show ?thesis using drain_front by blast
qed

end

subsection \<open>The pointer program meets the contract\<close>

definition list_node :: "ptr \<Rightarrow> ptr \<Rightarrow> bool" where
  "list_node l e \<longleftrightarrow> e \<noteq> NULL \<and> e \<noteq> l \<and> e \<noteq> tail_of l"

lemma list_node_fresh: "list_node l e \<Longrightarrow> e \<notin> set xs \<Longrightarrow> e \<noteq> NULL \<and> e \<notin> list_nodes l xs"
  by (auto simp: list_node_def list_nodes_def)

interpretation klist: ordered_deque is_list list_node list_empty list_push_front list_push_back
    list_pop_front list_pop_back list_insert_ordered
proof unfold_locales
  fix h l xs e lt
  assume "is_list h l xs" and "list_node l e" and "e \<notin> set xs"
  then show "\<exists>h'. list_insert_ordered l e lt h = Some h' \<and> is_list h' l (insert_ordered lt e xs)"
    using list_insert_ordered_list [of h l xs e lt] list_node_fresh by blast
next
  fix h l xs e
  assume "is_list h l xs" and "list_node l e" and "e \<notin> set xs"
  then show "\<exists>h'. list_push_front l e h = Some h' \<and> is_list h' l (e # xs)"
      and "\<exists>h'. list_push_back l e h = Some h' \<and> is_list h' l (xs @ [e])"
    using list_push_front_list [of h l xs e] list_push_back_list [of h l xs e] list_node_fresh
    by blast+
next
  fix h l xs x
  show "is_list h l (x # xs) \<Longrightarrow> \<exists>h'. list_pop_front l h = Some (x, h') \<and> is_list h' l xs"
      and "is_list h l (xs @ [x]) \<Longrightarrow> \<exists>h'. list_pop_back l h = Some (x, h') \<and> is_list h' l xs"
    using list_pop_front_list [of h l x xs] list_pop_back_list [of h l xs x] by blast+
qed (rule list_empty_list)

lemma unique_keep_hd: "hd (unique_keep lt x xs) = x" "unique_keep lt x xs \<noteq> []"
  by (induction xs arbitrary: x) auto

lemma subseq_unique_keep: "subseq (tl (unique_keep lt x xs)) xs"
proof (induction xs arbitrary: x)
  case (Cons y ys)
  have "unique_keep lt y ys = y # tl (unique_keep lt y ys)"
    using unique_keep_hd [of lt y ys] by (metis list.collapse)
  then have "subseq (unique_keep lt y ys) (y # ys)" using Cons [of y] by (metis subseq_Cons2)
  then show ?case using Cons [of x] by (auto intro: list_emb_Cons)
qed simp

lemma subseq_unique_dups: "subseq (unique_dups lt x xs) xs"
  by (induction xs arbitrary: x) (auto intro: list_emb_Cons)

lemma unique_keep_distinct: "successively (\<lambda>a b. lt a b \<or> lt b a) (unique_keep lt x xs)"
  by (induction xs arbitrary: x) (auto simp: successively_Cons unique_keep_hd)

lemma subseq_unique:
  "subseq (unique_keep lt x xs) (x # xs)" "subseq (unique_dups lt x xs) (x # xs)"
proof -
  have "unique_keep lt x xs = x # tl (unique_keep lt x xs)"
    using unique_keep_hd [of lt x xs] by (metis list.collapse)
  then show "subseq (unique_keep lt x xs) (x # xs)"
    using subseq_unique_keep [of lt x xs] by (metis subseq_Cons2)
  show "subseq (unique_dups lt x xs) (x # xs)"
    using subseq_unique_dups by (rule list_emb_Cons)
qed

subsection \<open>Properties\<close>

text \<open>A heap with a three-element list at address 4096 (its elements at 3000, 1000 and 2000)
  and an empty one at 8192, on which the properties are evaluated.\<close>

definition demo_heap :: heap where
  "demo_heap = (\<lambda>_. \<lparr>le_prev = 0, le_next = 0\<rparr>)
     (4096 := \<lparr>le_prev = 0, le_next = 3000\<rparr>,
      3000 := \<lparr>le_prev = 4096, le_next = 1000\<rparr>,
      1000 := \<lparr>le_prev = 3000, le_next = 2000\<rparr>,
      2000 := \<lparr>le_prev = 1000, le_next = 4112\<rparr>,
      4112 := \<lparr>le_prev = 2000, le_next = 0\<rparr>,
      8192 := \<lparr>le_prev = 0, le_next = 8208\<rparr>,
      8208 := \<lparr>le_prev = 8192, le_next = 0\<rparr>)"

lemma demo_lists: "is_list demo_heap 4096 [3000, 1000, 2000]" "is_list demo_heap 8192 []"
  by (simp_all add: demo_heap_def is_list_def chain_def)

lemma strict_weak_order_less: "strict_weak_order (\<lambda>x y. key x < (key y :: 'a :: linorder))"
  by (auto simp: strict_weak_order_def)

text \<open>C4: \<open>list_sort\<close> returns without a failed assertion on every list and every strict weak order,
  and leaves a permutation of the elements that is in order and keeps the order of elements
  that compare equal (a stable sort). It changes no memory but the nodes of the list.\<close>

theorem list_sort_correct:
  assumes "strict_weak_order lt" and "is_list h l xs"
  shows "\<exists>h' ys. list_sort l lt h = Some h' \<and> is_list h' l ys \<and> mset ys = mset xs
           \<and> sorted_wrt (\<lambda>x y. \<not> lt y x) ys \<and> (\<forall>x. ties lt x ys = ties lt x xs)
           \<and> only_changes (list_nodes l xs) h h'"
proof -
  have "asymp lt" using assms(1) by (simp add: strict_weak_order_def)
  then obtain h' k where "list_sort l lt h = Some h'" "is_list h' l (sort_passes k lt xs)"
      "ascending lt (sort_passes k lt xs)" "only_changes (list_nodes l xs) h h'"
    using list_sort_list assms(2) by blast
  then show ?thesis
    using mset_sort_passes ascending_sorted_wrt [OF assms(1)] ties_sort_passes [OF assms(1)] by blast
qed

theorem list_sort_correct_witness:
  "\<exists>h' ys. list_sort 4096 (\<lambda>x y. x < y) demo_heap = Some h' \<and> is_list h' 4096 ys
     \<and> mset ys = mset [3000, 1000, 2000] \<and> sorted_wrt (\<lambda>x y. \<not> y < x) ys"
  using list_sort_correct [OF strict_weak_order_less [of "\<lambda>x. x"] demo_lists(1)] by blast

text \<open>C5: Elements pushed on a list by \<open>list_push_back\<close> and popped by \<open>list_pop_front\<close> until
  \<open>list_empty\<close> holds come out in the order in which they were pushed, behind what the list held,
  and the list ends up empty. No assertion fails on the way.\<close>

theorem list_fifo:
  assumes "is_list h l xs" and "distinct (xs @ es)" and "list_all (list_node l) es"
  shows "\<exists>h1 h2. push_all list_push_back l es h = Some h1
           \<and> drain list_empty list_pop_front l h1 = Some (xs @ es, h2) \<and> is_list h2 l []"
  using assms by (rule klist.fifo)

theorem list_fifo_witness:
  "\<exists>h1 h2. push_all list_push_back 4096 [7000, 6000] demo_heap = Some h1
     \<and> drain list_empty list_pop_front 4096 h1 = Some ([3000, 1000, 2000, 7000, 6000], h2)
     \<and> is_list h2 4096 []"
  using list_fifo [OF demo_lists(1), of "[7000, 6000]"] by (simp add: list_node_def)

text \<open>C6: Elements put on an empty list by \<open>list_insert_ordered\<close> under a strict weak order and then
  popped from the front come out in order, ties in the order of their insertion.\<close>

theorem list_insert_ordered_drain:
  assumes "strict_weak_order lt" and "is_list h l []" and "distinct es" and "list_all (list_node l) es"
  shows "\<exists>h1 h2 ys. push_all (\<lambda>l e. list_insert_ordered l e lt) l es h = Some h1
           \<and> drain list_empty list_pop_front l h1 = Some (ys, h2) \<and> is_list h2 l []
           \<and> mset ys = mset es \<and> sorted_wrt (\<lambda>x y. \<not> lt y x) ys \<and> (\<forall>x. ties lt x ys = ties lt x es)"
  using klist.ordered_drain [OF assms(2-4), of lt] mset_insertions [of lt "[]" es]
    sorted_insertions [OF assms(1), of "[]" es] ties_insertions [OF assms(1), of "[]" _ es]
  by fastforce

theorem list_insert_ordered_drain_witness:
  "\<exists>h1 h2 ys. push_all (\<lambda>l e. list_insert_ordered l e (\<lambda>x y. x < y)) 8192 [7000, 6000] demo_heap
        = Some h1
     \<and> drain list_empty list_pop_front 8192 h1 = Some (ys, h2) \<and> is_list h2 8192 []
     \<and> mset ys = mset [7000, 6000] \<and> sorted_wrt (\<lambda>x y. \<not> y < x) ys"
  using list_insert_ordered_drain [OF strict_weak_order_less [of "\<lambda>x. x"] demo_lists(2), of "[7000, 6000]"]
  by (simp add: list_node_def) blast



text \<open>C8: \<open>list_reverse\<close>, which swaps the two links of every node and then the links at the ends,
  returns and turns the list into its reverse; \<open>list_size\<close> then still counts its elements.\<close>

theorem list_reverse_correct:
  assumes "is_list h l xs"
  shows "\<exists>h'. list_reverse l h = Some h' \<and> is_list h' l (rev xs)
           \<and> list_size l h' = Some (of_nat (length xs)) \<and> only_changes (list_nodes l xs) h h'"
  using list_reverse_list [OF assms] list_size_list by fastforce

theorem list_reverse_correct_witness:
  "\<exists>h'. list_reverse 4096 demo_heap = Some h' \<and> is_list h' 4096 [2000, 1000, 3000]
     \<and> list_size 4096 h' = Some 3"
  using list_reverse_correct [OF demo_lists(1)] by auto

end
