(* ===== verification/Bitmaps.thy ===== *)
theory Bitmaps
  imports Prelude
begin

section \<open>Bitmaps (\<^verbatim>\<open>lib/kernel/bitmap.c\<close>)\<close>

text \<open>
  The kernel's bitmaps: an array of 64-bit elements that simulates an array of bits. The
  theory translates the operations, maps a bitmap to the sequence of its bits
  (\<open>bits_of\<close>) and shows that every operation implements its counterpart on
  bit sequences. The contract that the allocators rely on is the locale
  \<open>bit_array\<close>, interpreted on these definitions as \<open>kbitmap\<close>.

  A write to an element behind the end of the array is the value \<^term>\<open>None\<close>.
\<close>

subsection \<open>Operations\<close>

definition ELEM_BITS :: nat where
  "ELEM_BITS = 64"

definition BITMAP_ERROR :: nat where
  "BITMAP_ERROR = SIZE_MAX"

record bitmap =
  bit_cnt :: nat
  bits :: "64 word list"

definition elem_idx :: "nat \<Rightarrow> nat" where
  "elem_idx bit_idx = bit_idx div ELEM_BITS"

definition bit_mask :: "nat \<Rightarrow> 64 word" where
  "bit_mask bit_idx = push_bit (bit_idx mod ELEM_BITS) 1"

definition elem_cnt :: "nat \<Rightarrow> nat" where
  "elem_cnt cnt = size_wrap (cnt + ELEM_BITS - 1) div ELEM_BITS"

definition byte_cnt :: "nat \<Rightarrow> nat" where
  "byte_cnt cnt = size_wrap (8 * elem_cnt cnt)"

definition last_mask :: "bitmap \<Rightarrow> 64 word" where
  "last_mask b =
     (let last_bits = bit_cnt b mod ELEM_BITS
      in if last_bits \<noteq> 0 then push_bit last_bits 1 - 1 else - 1)"

definition bitmap_size :: "bitmap \<Rightarrow> nat" where
  "bitmap_size b = bit_cnt b"

definition get_elem :: "bitmap \<Rightarrow> nat \<Rightarrow> 64 word option" where
  "get_elem b idx = (if idx < length (bits b) then Some (bits b ! idx) else None)"

definition put_elem :: "bitmap \<Rightarrow> nat \<Rightarrow> 64 word \<Rightarrow> bitmap option" where
  "put_elem b idx w = (if idx < length (bits b) then Some (b\<lparr>bits := (bits b)[idx := w]\<rparr>) else None)"

definition bitmap_mark :: "bitmap \<Rightarrow> nat \<Rightarrow> bitmap option" where
  "bitmap_mark b bit_idx = do {
     w \<leftarrow> get_elem b (elem_idx bit_idx);
     put_elem b (elem_idx bit_idx) (w OR bit_mask bit_idx)
   }"

definition bitmap_reset :: "bitmap \<Rightarrow> nat \<Rightarrow> bitmap option" where
  "bitmap_reset b bit_idx = do {
     w \<leftarrow> get_elem b (elem_idx bit_idx);
     put_elem b (elem_idx bit_idx) (w AND NOT (bit_mask bit_idx))
   }"

definition bitmap_flip :: "bitmap \<Rightarrow> nat \<Rightarrow> bitmap option" where
  "bitmap_flip b bit_idx = do {
     w \<leftarrow> get_elem b (elem_idx bit_idx);
     put_elem b (elem_idx bit_idx) (w XOR bit_mask bit_idx)
   }"

definition bitmap_set :: "bitmap \<Rightarrow> nat \<Rightarrow> bool \<Rightarrow> bitmap option" where
  "bitmap_set b idx v = do {
     ASSERT (idx < bit_cnt b);
     if v then bitmap_mark b idx else bitmap_reset b idx
   }"

definition bitmap_test :: "bitmap \<Rightarrow> nat \<Rightarrow> bool option" where
  "bitmap_test b idx = do {
     ASSERT (idx < bit_cnt b);
     w \<leftarrow> get_elem b (elem_idx idx);
     Some (w AND bit_mask idx \<noteq> 0)
   }"

function bitmap_set_loop :: "bitmap \<Rightarrow> nat \<Rightarrow> nat \<Rightarrow> bool \<Rightarrow> nat \<Rightarrow> bitmap option" where
  "bitmap_set_loop b start cnt v i =
     (if i < cnt then do { b \<leftarrow> bitmap_set b (start + i) v; bitmap_set_loop b start cnt v (i + 1) }
      else Some b)"
  by pat_completeness auto
termination by (relation "measure (\<lambda>(b, start, cnt, v, i). cnt - i)") auto

definition bitmap_set_multiple :: "bitmap \<Rightarrow> nat \<Rightarrow> nat \<Rightarrow> bool \<Rightarrow> bitmap option" where
  "bitmap_set_multiple b start cnt v = do {
     ASSERT (start \<le> bit_cnt b);
     ASSERT (size_wrap (start + cnt) \<le> bit_cnt b);
     bitmap_set_loop b start cnt v 0
   }"

definition bitmap_set_all :: "bitmap \<Rightarrow> bool \<Rightarrow> bitmap option" where
  "bitmap_set_all b v = bitmap_set_multiple b 0 (bitmap_size b) v"

function bitmap_count_loop :: "bitmap \<Rightarrow> nat \<Rightarrow> nat \<Rightarrow> bool \<Rightarrow> nat \<Rightarrow> nat \<Rightarrow> nat option" where
  "bitmap_count_loop b start cnt v i value_cnt =
     (if i < cnt then do {
        t \<leftarrow> bitmap_test b (start + i);
        bitmap_count_loop b start cnt v (i + 1) (if t = v then value_cnt + 1 else value_cnt)
      } else Some value_cnt)"
  by pat_completeness auto
termination by (relation "measure (\<lambda>(b, start, cnt, v, i, n). cnt - i)") auto

definition bitmap_count :: "bitmap \<Rightarrow> nat \<Rightarrow> nat \<Rightarrow> bool \<Rightarrow> nat option" where
  "bitmap_count b start cnt v = do {
     ASSERT (start \<le> bit_cnt b);
     ASSERT (size_wrap (start + cnt) \<le> bit_cnt b);
     bitmap_count_loop b start cnt v 0 0
   }"

function bitmap_contains_loop :: "bitmap \<Rightarrow> nat \<Rightarrow> nat \<Rightarrow> bool \<Rightarrow> nat \<Rightarrow> bool option" where
  "bitmap_contains_loop b start cnt v i =
     (if i < cnt then do {
        t \<leftarrow> bitmap_test b (start + i);
        if t = v then Some True else bitmap_contains_loop b start cnt v (i + 1)
      } else Some False)"
  by pat_completeness auto
termination by (relation "measure (\<lambda>(b, start, cnt, v, i). cnt - i)") auto

definition bitmap_contains :: "bitmap \<Rightarrow> nat \<Rightarrow> nat \<Rightarrow> bool \<Rightarrow> bool option" where
  "bitmap_contains b start cnt v = do {
     ASSERT (start \<le> bit_cnt b);
     ASSERT (size_wrap (start + cnt) \<le> bit_cnt b);
     bitmap_contains_loop b start cnt v 0
   }"

definition bitmap_any :: "bitmap \<Rightarrow> nat \<Rightarrow> nat \<Rightarrow> bool option" where
  "bitmap_any b start cnt = bitmap_contains b start cnt True"

definition bitmap_none :: "bitmap \<Rightarrow> nat \<Rightarrow> nat \<Rightarrow> bool option" where
  "bitmap_none b start cnt = do { c \<leftarrow> bitmap_contains b start cnt True; Some (\<not> c) }"

definition bitmap_all :: "bitmap \<Rightarrow> nat \<Rightarrow> nat \<Rightarrow> bool option" where
  "bitmap_all b start cnt = do { c \<leftarrow> bitmap_contains b start cnt False; Some (\<not> c) }"

function bitmap_scan_loop :: "bitmap \<Rightarrow> nat \<Rightarrow> nat \<Rightarrow> bool \<Rightarrow> nat \<Rightarrow> nat option" where
  "bitmap_scan_loop b last_idx cnt v i =
     (if i \<le> last_idx then do {
        c \<leftarrow> bitmap_contains b i cnt (\<not> v);
        if \<not> c then Some i else bitmap_scan_loop b last_idx cnt v (i + 1)
      } else Some BITMAP_ERROR)"
  by pat_completeness auto
termination by (relation "measure (\<lambda>(b, last_idx, cnt, v, i). Suc last_idx - i)") auto

definition bitmap_scan :: "bitmap \<Rightarrow> nat \<Rightarrow> nat \<Rightarrow> bool \<Rightarrow> nat option" where
  "bitmap_scan b start cnt v = do {
     ASSERT (start \<le> bit_cnt b);
     if cnt \<le> bit_cnt b then bitmap_scan_loop b (bit_cnt b - cnt) cnt v start
     else Some BITMAP_ERROR
   }"

definition bitmap_scan_and_flip :: "bitmap \<Rightarrow> nat \<Rightarrow> nat \<Rightarrow> bool \<Rightarrow> (nat \<times> bitmap) option" where
  "bitmap_scan_and_flip b start cnt v = do {
     idx \<leftarrow> bitmap_scan b start cnt v;
     if idx \<noteq> BITMAP_ERROR then do {
       b \<leftarrow> bitmap_set_multiple b idx cnt (\<not> v);
       Some (idx, b)
     } else Some (idx, b)
   }"

text \<open>
  Creation. Whether the two calls of \<^verbatim>\<open>malloc\<close> succeed, and what the new block of
  elements holds, are arguments; the null result is \<^term>\<open>Inl ()\<close>.
\<close>

definition bitmap_create :: "bool \<Rightarrow> 64 word list option \<Rightarrow> nat \<Rightarrow> (unit + bitmap) option" where
  "bitmap_create got_struct block cnt =
     (if got_struct then
        case block of
          Some ws \<Rightarrow> do { b \<leftarrow> bitmap_set_all \<lparr>bit_cnt = cnt, bits = ws\<rparr> False; Some (Inr b) }
        | None \<Rightarrow>
            if cnt = 0 then do { b \<leftarrow> bitmap_set_all \<lparr>bit_cnt = cnt, bits = []\<rparr> False; Some (Inr b) }
            else Some (Inl ())
      else Some (Inl ()))"

definition bitmap_buf_size :: "nat \<Rightarrow> nat" where
  "bitmap_buf_size cnt = size_wrap (16 + byte_cnt cnt)"

text \<open>The elements of the preallocated block behind the header are \<open>ws\<close>.\<close>

definition bitmap_create_in_buf :: "nat \<Rightarrow> 64 word list \<Rightarrow> nat \<Rightarrow> bitmap option" where
  "bitmap_create_in_buf cnt ws block_size = do {
     ASSERT (block_size \<ge> bitmap_buf_size cnt);
     bitmap_set_all \<lparr>bit_cnt = cnt, bits = ws\<rparr> False
   }"

definition bitmap_file_size :: "bitmap \<Rightarrow> nat" where
  "bitmap_file_size b = byte_cnt (bit_cnt b)"

lemmas bitmap_ops = bitmap_mark_def bitmap_reset_def bitmap_flip_def bitmap_set_def bitmap_test_def
  get_elem_def put_elem_def elem_idx_def bit_mask_def ELEM_BITS_def

declare bitmap_set_loop.simps [simp del] bitmap_count_loop.simps [simp del]
  bitmap_contains_loop.simps [simp del] bitmap_scan_loop.simps [simp del]

subsection \<open>Bit sequences\<close>

definition bits_of :: "bitmap \<Rightarrow> bool list" where
  "bits_of b = map (\<lambda>i. bit (bits b ! (i div 64)) (i mod 64)) [0..<bit_cnt b]"

text \<open>
  A well-formed bitmap has an element for each of its bits, and its bits have indexes below the error value
  of a scan.
\<close>

definition wf_bitmap :: "bitmap \<Rightarrow> bool" where
  "wf_bitmap b \<longleftrightarrow> bit_cnt b \<le> 64 * length (bits b) \<and> bit_cnt b < BITMAP_ERROR"

definition set_range :: "'a list \<Rightarrow> nat \<Rightarrow> nat \<Rightarrow> 'a \<Rightarrow> 'a list" where
  "set_range xs start cnt v = take start xs @ replicate cnt v @ drop (start + cnt) xs"

definition group_at :: "'a list \<Rightarrow> nat \<Rightarrow> nat \<Rightarrow> 'a \<Rightarrow> bool" where
  "group_at xs cnt i v \<longleftrightarrow> i + cnt \<le> length xs \<and> (\<forall>j < cnt. xs ! (i + j) = v)"

definition scan_from :: "'a list \<Rightarrow> nat \<Rightarrow> nat \<Rightarrow> 'a \<Rightarrow> nat option" where
  "scan_from xs start cnt v = find (\<lambda>i. group_at xs cnt i v) [start..<Suc (length xs) - cnt]"

lemma length_bits_of [simp]: "length (bits_of b) = bit_cnt b"
  by (simp add: bits_of_def)

lemma bits_of_nth: "i < bit_cnt b \<Longrightarrow> bits_of b ! i = bit (bits b ! (i div 64)) (i mod 64)"
  by (simp add: bits_of_def)

lemma wf_bitmap_elem: "wf_bitmap b \<Longrightarrow> i < bit_cnt b \<Longrightarrow> i div 64 < length (bits b)"
  by (simp add: wf_bitmap_def less_mult_imp_div_less mult.commute)

lemma bits_of_update:
  assumes "wf_bitmap b" and "idx < bit_cnt b"
    and "\<And>k. k < 64 \<Longrightarrow> bit w k = (if k = idx mod 64 then v else bit (bits b ! (idx div 64)) k)"
  shows "bits_of (b\<lparr>bits := (bits b)[idx div 64 := w]\<rparr>) = (bits_of b)[idx := v]"
proof (rule nth_equalityI)
  fix i assume "i < length (bits_of (b\<lparr>bits := (bits b)[idx div 64 := w]\<rparr>))"
  then have i: "i < bit_cnt b" by simp
  have "i = idx \<longleftrightarrow> i div 64 = idx div 64 \<and> i mod 64 = idx mod 64"
    by (metis div_mult_mod_eq)
  then show "bits_of (b\<lparr>bits := (bits b)[idx div 64 := w]\<rparr>) ! i = (bits_of b)[idx := v] ! i"
    using i assms(3) [of "i mod 64"] wf_bitmap_elem [OF assms(1) i]
    by (cases "i div 64 = idx div 64") (auto simp: bits_of_nth nth_list_update)
qed simp

lemma bitmap_test_bits: "wf_bitmap b \<Longrightarrow> i < bit_cnt b \<Longrightarrow> bitmap_test b i = Some (bits_of b ! i)"
  using wf_bitmap_elem [of b i]
  by (simp add: bitmap_ops bits_of_nth bit_iff_and_push_bit_not_eq_0)

lemma bitmap_set_bits:
  assumes "wf_bitmap b" and "i < bit_cnt b"
  shows "\<exists>b'. bitmap_set b i v = Some b' \<and> wf_bitmap b' \<and> bit_cnt b' = bit_cnt b
              \<and> bits_of b' = (bits_of b)[i := v]"
  using assms wf_bitmap_elem [OF assms] bits_of_update [OF assms, of _ v]
  by (cases v) (auto simp: bitmap_ops wf_bitmap_def bit_simps)

lemma bitmap_flip_bits:
  assumes "wf_bitmap b" and "i < bit_cnt b"
  shows "\<exists>b'. bitmap_flip b i = Some b' \<and> wf_bitmap b' \<and> bit_cnt b' = bit_cnt b
              \<and> bits_of b' = (bits_of b)[i := \<not> bits_of b ! i]"
  using assms wf_bitmap_elem [OF assms] bits_of_update [OF assms, of _ "\<not> bits_of b ! i"]
  by (auto simp: bitmap_ops wf_bitmap_def bit_simps bits_of_nth)

lemma length_set_range [simp]: "start + cnt \<le> length xs \<Longrightarrow> length (set_range xs start cnt v) = length xs"
  by (simp add: set_range_def)

lemma nth_set_range:
  "start + cnt \<le> length xs \<Longrightarrow> i < length xs \<Longrightarrow>
   set_range xs start cnt v ! i = (if start \<le> i \<and> i < start + cnt then v else xs ! i)"
  by (auto simp: set_range_def nth_append)

lemma set_range_0 [simp]: "start \<le> length xs \<Longrightarrow> set_range xs start 0 v = xs"
  by (simp add: set_range_def)

lemma set_range_Suc:
  "start + Suc cnt \<le> length xs \<Longrightarrow>
   set_range xs start (Suc cnt) v = set_range (xs[start := v]) (Suc start) cnt v"
  by (rule nth_equalityI) (auto simp: nth_set_range nth_list_update)

lemma scan_from_Some:
  assumes "scan_from xs start cnt v = Some i"
  shows "start \<le> i" and "group_at xs cnt i v" and "\<And>j. start \<le> j \<Longrightarrow> j < i \<Longrightarrow> \<not> group_at xs cnt j v"
proof -
  obtain k where k: "k < length [start..<Suc (length xs) - cnt]" "i = [start..<Suc (length xs) - cnt] ! k"
      "group_at xs cnt i v" "\<forall>j < k. \<not> group_at xs cnt ([start..<Suc (length xs) - cnt] ! j) v"
    using assms by (auto simp: scan_from_def find_Some_iff)
  then have i: "i = start + k" by (simp del: upt_Suc)
  then show "start \<le> i" "group_at xs cnt i v" using k(3) by simp_all
  fix j assume "start \<le> j" "j < i"
  then show "\<not> group_at xs cnt j v"
    using k(1) i k(4) [rule_format, of "j - start"] by (simp del: upt_Suc)
qed

lemma scan_from_None:
  "scan_from xs start cnt v = None \<longleftrightarrow> (\<forall>i \<ge> start. \<not> group_at xs cnt i v)"
  by (auto simp: scan_from_def find_None_iff group_at_def)

lemma scan_from_error: "scan_from (bits_of b) start cnt v = Some i \<Longrightarrow> wf_bitmap b \<Longrightarrow> i \<noteq> BITMAP_ERROR"
  using scan_from_Some(2) [of "bits_of b" start cnt v i]
  by (auto simp: group_at_def wf_bitmap_def BITMAP_ERROR_def)

subsection \<open>The loops implement the sequence operations\<close>

lemma bitmap_set_loop_bits:
  "wf_bitmap b \<Longrightarrow> start + cnt \<le> bit_cnt b \<Longrightarrow> i \<le> cnt \<Longrightarrow>
   \<exists>b'. bitmap_set_loop b start cnt v i = Some b' \<and> wf_bitmap b' \<and> bit_cnt b' = bit_cnt b
        \<and> bits_of b' = set_range (bits_of b) (start + i) (cnt - i) v"
proof (induction b start cnt v i rule: bitmap_set_loop.induct)
  case (1 b start cnt v i)
  show ?case
  proof (cases "i < cnt")
    case True
    obtain b1 where b1: "bitmap_set b (start + i) v = Some b1" "wf_bitmap b1" "bit_cnt b1 = bit_cnt b"
        "bits_of b1 = (bits_of b)[start + i := v]"
      using bitmap_set_bits [of b "start + i" v] "1.prems" True by auto
    obtain b' where b': "bitmap_set_loop b1 start cnt v (i + 1) = Some b'" "wf_bitmap b'"
        "bit_cnt b' = bit_cnt b1" "bits_of b' = set_range (bits_of b1) (start + (i + 1)) (cnt - (i + 1)) v"
      using "1.IH" [OF True, of b1] b1 "1.prems" True by auto
    have "cnt - i = Suc (cnt - (i + 1))" using True by simp
    then have "bits_of b' = set_range (bits_of b) (start + i) (cnt - i) v"
      using b'(4) b1(4) set_range_Suc [of "start + i" "cnt - (i + 1)" "bits_of b" v] "1.prems" True by simp
    then show ?thesis using b1 b' True by (subst bitmap_set_loop.simps) simp
  next
    case False
    then show ?thesis using "1.prems" by (subst bitmap_set_loop.simps) simp
  qed
qed

lemma wf_bitmap_no_wrap: "wf_bitmap b \<Longrightarrow> n \<le> bit_cnt b \<Longrightarrow> size_wrap n = n"
  by (simp add: wf_bitmap_def BITMAP_ERROR_def SIZE_MAX_def SIZE_T_MAX_def)

lemma bitmap_set_multiple_bits:
  assumes "wf_bitmap b" and "start + cnt \<le> bit_cnt b"
  shows "\<exists>b'. bitmap_set_multiple b start cnt v = Some b' \<and> wf_bitmap b' \<and> bit_cnt b' = bit_cnt b
              \<and> bits_of b' = set_range (bits_of b) start cnt v"
  using bitmap_set_loop_bits [OF assms, of 0 v] assms
  by (auto simp: bitmap_set_multiple_def wf_bitmap_no_wrap)

lemma bitmap_set_all_bits:
  assumes "wf_bitmap b"
  shows "\<exists>b'. bitmap_set_all b v = Some b' \<and> wf_bitmap b' \<and> bit_cnt b' = bit_cnt b
              \<and> bits_of b' = replicate (bit_cnt b) v"
  using bitmap_set_multiple_bits [OF assms, of 0 "bit_cnt b" v]
  by (auto simp: bitmap_set_all_def bitmap_size_def set_range_def)

lemma ex_from: "i < cnt \<Longrightarrow> (\<exists>j \<ge> i. j < cnt \<and> Q j) \<longleftrightarrow> Q i \<or> (\<exists>j \<ge> i + 1. j < (cnt::nat) \<and> Q j)"
proof
  assume "i < cnt" and "\<exists>j \<ge> i. j < cnt \<and> Q j"
  then obtain j where "i \<le> j" "j < cnt" "Q j" by blast
  then show "Q i \<or> (\<exists>j \<ge> i + 1. j < cnt \<and> Q j)" by (cases "i = j") auto
qed (auto intro: Suc_leD)

lemma bitmap_contains_loop_bits:
  "wf_bitmap b \<Longrightarrow> start + cnt \<le> bit_cnt b \<Longrightarrow>
   bitmap_contains_loop b start cnt v i = Some (\<exists>j \<ge> i. j < cnt \<and> bits_of b ! (start + j) = v)"
proof (induction b start cnt v i rule: bitmap_contains_loop.induct)
  case (1 b start cnt v i)
  show ?case
  proof (cases "i < cnt")
    case True
    note P = ex_from [OF True, of "\<lambda>j. bits_of b ! (start + j) = v"]
    have t: "bitmap_test b (start + i) = Some (bits_of b ! (start + i))"
      using "1.prems" True by (simp add: bitmap_test_bits)
    show ?thesis
    proof (cases "bits_of b ! (start + i) = v")
      case eq: True
      show ?thesis by (subst bitmap_contains_loop.simps) (simp only: P t True eq if_True Option.bind_lunit simp_thms)
    next
      case ne: False
      show ?thesis
        by (subst bitmap_contains_loop.simps)
           (simp only: P t True ne if_True if_False Option.bind_lunit simp_thms "1.IH" [OF True t ne "1.prems"])
    qed
  next
    case False
    then show ?thesis by (subst bitmap_contains_loop.simps) auto
  qed
qed

lemma bitmap_contains_bits:
  "wf_bitmap b \<Longrightarrow> start + cnt \<le> bit_cnt b \<Longrightarrow>
   bitmap_contains b start cnt v = Some (\<exists>j < cnt. bits_of b ! (start + j) = v)"
  by (simp add: bitmap_contains_def bitmap_contains_loop_bits wf_bitmap_no_wrap)

lemma bitmap_all_bits:
  "wf_bitmap b \<Longrightarrow> start + cnt \<le> bit_cnt b \<Longrightarrow>
   bitmap_all b start cnt = Some (group_at (bits_of b) cnt start True)"
  by (simp add: bitmap_all_def bitmap_contains_bits group_at_def)

lemma bitmap_none_bits:
  "wf_bitmap b \<Longrightarrow> start + cnt \<le> bit_cnt b \<Longrightarrow>
   bitmap_none b start cnt = Some (group_at (bits_of b) cnt start False)"
  by (simp add: bitmap_none_def bitmap_contains_bits group_at_def)

lemma bitmap_count_loop_bits:
  "wf_bitmap b \<Longrightarrow> start + cnt \<le> bit_cnt b \<Longrightarrow> i \<le> cnt \<Longrightarrow>
   bitmap_count_loop b start cnt v i n
     = Some (n + length (filter (\<lambda>j. bits_of b ! (start + j) = v) [i..<cnt]))"
proof (induction b start cnt v i n rule: bitmap_count_loop.induct)
  case (1 b start cnt v i n)
  show ?case
  proof (cases "i < cnt")
    case True
    then have "[i..<cnt] = i # [i + 1..<cnt]" by (simp add: upt_conv_Cons)
    then show ?thesis using 1 True
      by (subst bitmap_count_loop.simps) (simp add: bitmap_test_bits)
  next
    case False
    then show ?thesis using 1 by (subst bitmap_count_loop.simps) simp
  qed
qed

lemma bitmap_count_bits:
  "wf_bitmap b \<Longrightarrow> start + cnt \<le> bit_cnt b \<Longrightarrow>
   bitmap_count b start cnt v
     = Some (length (filter (\<lambda>j. bits_of b ! (start + j) = v) [0..<cnt]))"
  by (simp add: bitmap_count_def bitmap_count_loop_bits wf_bitmap_no_wrap)

lemma bitmap_scan_loop_bits:
  "wf_bitmap b \<Longrightarrow> cnt \<le> bit_cnt b \<Longrightarrow> last_idx = bit_cnt b - cnt \<Longrightarrow>
   bitmap_scan_loop b last_idx cnt v i
     = Some (case find (\<lambda>i. group_at (bits_of b) cnt i v) [i..<Suc last_idx] of
               None \<Rightarrow> BITMAP_ERROR | Some k \<Rightarrow> k)"
proof (induction b last_idx cnt v i rule: bitmap_scan_loop.induct)
  case (1 b last_idx cnt v i)
  show ?case
  proof (cases "i \<le> last_idx")
    case True
    have u: "[i..<Suc last_idx] = i # [Suc i..<Suc last_idx]" using True by (simp add: upt_conv_Cons)
    have c: "bitmap_contains b i cnt (\<not> v) = Some (\<not> group_at (bits_of b) cnt i v)"
      using "1.prems" True by (auto simp: bitmap_contains_bits group_at_def)
    show ?thesis
    proof (cases "group_at (bits_of b) cnt i v")
      case g: True
      then show ?thesis using True c u by (subst bitmap_scan_loop.simps) (simp del: upt_Suc)
    next
      case g: False
      then have "bitmap_scan_loop b last_idx cnt v i = bitmap_scan_loop b last_idx cnt v (i + 1)"
        using True c by (subst bitmap_scan_loop.simps) simp
      also have "\<dots> = Some (case find (\<lambda>i. group_at (bits_of b) cnt i v) [i + 1..<Suc last_idx] of
               None \<Rightarrow> BITMAP_ERROR | Some k \<Rightarrow> k)"
        by (rule "1.IH" [OF True c]) (use g "1.prems" in simp_all)
      finally show ?thesis using g u by (simp del: upt_Suc)
    qed
  next
    case False
    then show ?thesis using 1 by (subst bitmap_scan_loop.simps) simp
  qed
qed

lemma bitmap_scan_bits:
  "wf_bitmap b \<Longrightarrow> start \<le> bit_cnt b \<Longrightarrow>
   bitmap_scan b start cnt v
     = Some (case scan_from (bits_of b) start cnt v of None \<Rightarrow> BITMAP_ERROR | Some k \<Rightarrow> k)"
  by (auto simp: bitmap_scan_def bitmap_scan_loop_bits scan_from_def Suc_diff_le simp del: upt_Suc)

lemma bitmap_scan_and_flip_bits:
  assumes "wf_bitmap b" and "start \<le> bit_cnt b"
  shows "case scan_from (bits_of b) start cnt v of
           None \<Rightarrow> bitmap_scan_and_flip b start cnt v = Some (BITMAP_ERROR, b)
         | Some k \<Rightarrow> \<exists>b'. bitmap_scan_and_flip b start cnt v = Some (k, b') \<and> wf_bitmap b'
             \<and> bit_cnt b' = bit_cnt b \<and> bits_of b' = set_range (bits_of b) k cnt (\<not> v)"
proof (cases "scan_from (bits_of b) start cnt v")
  case None
  then show ?thesis by (simp add: bitmap_scan_and_flip_def bitmap_scan_bits [OF assms])
next
  case (Some k)
  have "k + cnt \<le> bit_cnt b" using scan_from_Some(2) [OF Some] by (simp add: group_at_def)
  from bitmap_set_multiple_bits [OF assms(1) this, of "\<not> v"] show ?thesis
    using Some scan_from_error [OF Some assms(1)]
    by (auto simp: bitmap_scan_and_flip_def bitmap_scan_bits [OF assms])
qed

subsection \<open>The contract for the allocators\<close>

definition used_cnt :: "bool list \<Rightarrow> nat" where
  "used_cnt xs = length (filter id xs)"

lemma used_cnt_set_range:
  assumes "group_at xs cnt k False"
  shows "used_cnt (set_range xs k cnt True) = used_cnt xs + cnt"
proof -
  have "xs = take k xs @ take cnt (drop k xs) @ drop (k + cnt) xs"
    by (metis add.commute append_take_drop_id drop_drop)
  moreover have "take cnt (drop k xs) = replicate cnt False"
    using assms by (auto simp: group_at_def intro!: nth_equalityI)
  ultimately have "xs = take k xs @ replicate cnt False @ drop (k + cnt) xs" by simp
  then have "used_cnt xs = used_cnt (take k xs @ replicate cnt False @ drop (k + cnt) xs)" by simp
  then show ?thesis by (simp add: used_cnt_def set_range_def)
qed

lemma set_range_undo:
  "group_at xs cnt k v \<Longrightarrow> set_range (set_range xs k cnt w) k cnt v = xs"
  by (rule nth_equalityI)
     (auto simp: nth_set_range group_at_def, metis add_diff_inverse_nat nat_add_left_cancel_less not_le)

locale bit_array =
  fixes wf :: "'b \<Rightarrow> bool"
    and abs :: "'b \<Rightarrow> bool list"
    and alloc :: "'b \<Rightarrow> nat \<Rightarrow> nat \<Rightarrow> bool \<Rightarrow> (nat \<times> 'b) option"
    and put :: "'b \<Rightarrow> nat \<Rightarrow> nat \<Rightarrow> bool \<Rightarrow> 'b option"
    and error :: nat
  assumes alloc_none: "wf b \<Longrightarrow> start \<le> length (abs b) \<Longrightarrow> scan_from (abs b) start cnt v = None \<Longrightarrow>
            alloc b start cnt v = Some (error, b)"
    and alloc_some: "wf b \<Longrightarrow> start \<le> length (abs b) \<Longrightarrow> scan_from (abs b) start cnt v = Some k \<Longrightarrow>
            \<exists>b'. alloc b start cnt v = Some (k, b') \<and> wf b' \<and> abs b' = set_range (abs b) k cnt (\<not> v)"
    and error_law: "wf b \<Longrightarrow> length (abs b) < error"
    and put_law: "wf b \<Longrightarrow> start + cnt \<le> length (abs b) \<Longrightarrow>
            \<exists>b'. put b start cnt v = Some b' \<and> wf b' \<and> abs b' = set_range (abs b) start cnt v"
begin

lemma alloc_total:
  assumes "wf b" and "start \<le> length (abs b)"
  shows "\<exists>k b'. alloc b start cnt v = Some (k, b') \<and> wf b' \<and> length (abs b') = length (abs b)"
proof (cases "scan_from (abs b) start cnt v")
  case None
  then show ?thesis using alloc_none [OF assms] assms(1) by auto
next
  case (Some k)
  then have "k + cnt \<le> length (abs b)" using scan_from_Some(2) [OF Some] by (simp add: group_at_def)
  then show ?thesis using alloc_some [OF assms Some] by auto
qed

lemma alloc_result:
  assumes "wf b" and "start \<le> length (abs b)" and "alloc b start cnt v = Some (k, b')"
  shows "k \<noteq> error \<Longrightarrow> start \<le> k \<and> group_at (abs b) cnt k v \<and> wf b'
           \<and> abs b' = set_range (abs b) k cnt (\<not> v) \<and> (\<forall>j. start \<le> j \<and> j < k \<longrightarrow> \<not> group_at (abs b) cnt j v)"
    and "k = error \<Longrightarrow> b' = b \<and> (\<forall>i \<ge> start. \<not> group_at (abs b) cnt i v)"
proof -
  consider (none) "scan_from (abs b) start cnt v = None" "k = error" "b' = b"
    | (some) "scan_from (abs b) start cnt v = Some k" "wf b'" "abs b' = set_range (abs b) k cnt (\<not> v)"
    using alloc_none [OF assms(1,2), of cnt v] alloc_some [OF assms(1,2), of cnt v] assms(3)
    by (cases "scan_from (abs b) start cnt v") auto
  note split = this
  show "start \<le> k \<and> group_at (abs b) cnt k v \<and> wf b'
           \<and> abs b' = set_range (abs b) k cnt (\<not> v) \<and> (\<forall>j. start \<le> j \<and> j < k \<longrightarrow> \<not> group_at (abs b) cnt j v)"
    if "k \<noteq> error"
    using split that by cases (auto simp: scan_from_Some)
  show "b' = b \<and> (\<forall>i \<ge> start. \<not> group_at (abs b) cnt i v)" if k: "k = error"
    using split
  proof cases
    case none
    then show ?thesis by (simp add: scan_from_None)
  next
    case some
    then have "k \<le> length (abs b)" using scan_from_Some(2) [OF some(1)] by (simp add: group_at_def)
    then show ?thesis using error_law [OF assms(1)] k by simp
  qed
qed

text \<open>Giving a group back undoes its allocation.\<close>

lemma alloc_put:
  assumes "wf b" and "start \<le> length (abs b)" and "alloc b start cnt v = Some (k, b')" and "k \<noteq> error"
  shows "\<exists>b''. put b' k cnt v = Some b'' \<and> wf b'' \<and> abs b'' = abs b"
proof -
  have r: "group_at (abs b) cnt k v" "wf b'" "abs b' = set_range (abs b) k cnt (\<not> v)"
    using alloc_result(1) [OF assms] by auto
  then have "k + cnt \<le> length (abs b')" by (simp add: group_at_def)
  from put_law [OF r(2) this, of v] show ?thesis using r set_range_undo by force
qed

text \<open>Two allocations in a row never share a bit.\<close>

lemma alloc_disjoint:
  assumes "wf b" and "start \<le> length (abs b)" and "alloc b start cnt v = Some (k, b')" and "k \<noteq> error"
    and "start' \<le> length (abs b)" and "alloc b' start' cnt' v = Some (k', b'')" and "k' \<noteq> error"
  shows "{k..<k + cnt} \<inter> {k'..<k' + cnt'} = {}"
proof -
  have r: "group_at (abs b) cnt k v" "wf b'" "abs b' = set_range (abs b) k cnt (\<not> v)"
    using alloc_result(1) [OF assms(1-4)] by auto
  have len: "k + cnt \<le> length (abs b)" using r(1) by (simp add: group_at_def)
  have g: "group_at (abs b') cnt' k' v"
    using alloc_result(1) [OF r(2) _ assms(6,7)] assms(5) r(3) len by simp
  have False if "i \<in> {k..<k + cnt}" "i \<in> {k'..<k' + cnt'}" for i
  proof -
    have "abs b' ! i = v"
      using g that(2) unfolding group_at_def by (metis add_diff_inverse_nat atLeastLessThan_iff
          nat_add_left_cancel_less not_le)
    moreover have "abs b' ! i = (\<not> v)" using r(3) len that(1) by (simp add: nth_set_range)
    ultimately show False by simp
  qed
  then show ?thesis by blast
qed

lemma alloc_used:
  assumes "wf b" and "start \<le> length (abs b)" and "alloc b start cnt False = Some (k, b')" and "k \<noteq> error"
  shows "used_cnt (abs b') = used_cnt (abs b) + cnt"
  using alloc_result(1) [OF assms] used_cnt_set_range by auto

end

interpretation kbitmap: bit_array wf_bitmap bits_of bitmap_scan_and_flip bitmap_set_multiple BITMAP_ERROR
proof unfold_locales
  fix b :: bitmap and start cnt v
  assume b: "wf_bitmap b"
  then show "length (bits_of b) < BITMAP_ERROR" by (simp add: wf_bitmap_def BITMAP_ERROR_def)
  show "bitmap_scan_and_flip b start cnt v = Some (BITMAP_ERROR, b)"
    if "start \<le> length (bits_of b)" "scan_from (bits_of b) start cnt v = None"
    using bitmap_scan_and_flip_bits [OF b, of start cnt v] that by simp
  show "\<exists>b'. bitmap_scan_and_flip b start cnt v = Some (k, b') \<and> wf_bitmap b'
          \<and> bits_of b' = set_range (bits_of b) k cnt (\<not> v)"
    if "start \<le> length (bits_of b)" "scan_from (bits_of b) start cnt v = Some k" for k
    using bitmap_scan_and_flip_bits [OF b, of start cnt v] that by auto
  show "\<exists>b'. bitmap_set_multiple b start cnt v = Some b' \<and> wf_bitmap b'
          \<and> bits_of b' = set_range (bits_of b) start cnt v" if "start + cnt \<le> length (bits_of b)"
    using bitmap_set_multiple_bits [OF b, of start cnt v] that by auto
qed

subsection \<open>Creation\<close>

lemma elem_cnt_enough: "cnt < BITMAP_ERROR \<Longrightarrow> cnt \<le> 64 * elem_cnt cnt"
  using DIV_ROUND_UP_covers [of 64 cnt]
  by (simp add: elem_cnt_def DIV_ROUND_UP_def ELEM_BITS_def mult.commute BITMAP_ERROR_def SIZE_MAX_def SIZE_T_MAX_def)

lemma wf_bitmap_new: "cnt < BITMAP_ERROR \<Longrightarrow> elem_cnt cnt \<le> length ws \<Longrightarrow> wf_bitmap \<lparr>bit_cnt = cnt, bits = ws\<rparr>"
  using elem_cnt_enough [of cnt] by (simp add: wf_bitmap_def)

lemma bitmap_create_bits:
  assumes "cnt < BITMAP_ERROR" and "elem_cnt cnt \<le> length ws"
  shows "\<exists>b. bitmap_create True (Some ws) cnt = Some (Inr b) \<and> wf_bitmap b \<and> bit_cnt b = cnt
             \<and> bits_of b = replicate cnt False"
  using bitmap_set_all_bits [OF wf_bitmap_new [OF assms], of False] by (auto simp: bitmap_create_def)

lemma bitmap_create_in_buf_bits:
  assumes "cnt < BITMAP_ERROR" and "elem_cnt cnt \<le> length ws" and "bitmap_buf_size cnt \<le> block_size"
  shows "\<exists>b. bitmap_create_in_buf cnt ws block_size = Some b \<and> wf_bitmap b \<and> bit_cnt b = cnt
             \<and> bits_of b = replicate cnt False"
  using bitmap_set_all_bits [OF wf_bitmap_new [OF assms(1,2)], of False] assms(3)
  by (auto simp: bitmap_create_in_buf_def)

subsection \<open>Properties\<close>

lemma wf_demo: "wf_bitmap \<lparr>bit_cnt = 70, bits = [5, 0]\<rparr>"
  by (simp add: wf_bitmap_def BITMAP_ERROR_def SIZE_MAX_def)

lemma demo_bits: "bits_of \<lparr>bit_cnt = 6, bits = [5]\<rparr> = [True, False, True, False, False, False]"
  by (simp add: bits_of_def upt_rec bit_simps)



text \<open>C10: Setting and testing single bits through the masks of the 64-bit elements is exact:
  after \<open>bitmap_set\<close> or \<open>bitmap_flip\<close> of bit \<open>i\<close>, \<open>bitmap_test\<close> sees the new value at \<open>i\<close> and the old one
  at every other index, also in the same element.\<close>

theorem bitmap_single_bits:
  assumes "wf_bitmap b" and "i < bitmap_size b" and "j < bitmap_size b"
  shows "(do { b' \<leftarrow> bitmap_set b i v; bitmap_test b' j })
           = (if j = i then Some v else bitmap_test b j)
       \<and> (do { b' \<leftarrow> bitmap_flip b i; bitmap_test b' j })
           = (do { t \<leftarrow> bitmap_test b j; Some (if j = i then \<not> t else t) })"
proof -
  have ij: "i < bit_cnt b" "j < bit_cnt b" using assms(2,3) by (simp_all add: bitmap_size_def)
  show ?thesis
    using bitmap_set_bits [OF assms(1) ij(1), of v] bitmap_flip_bits [OF assms(1) ij(1)] assms(1) ij
    by (auto simp: bitmap_test_bits)
qed

theorem bitmap_single_bits_witness:
  "(do { b' \<leftarrow> bitmap_set \<lparr>bit_cnt = 70, bits = [5, 0]\<rparr> 66 True; bitmap_test b' 2 })
     = bitmap_test \<lparr>bit_cnt = 70, bits = [5, 0]\<rparr> 2"
  using bitmap_single_bits [OF wf_demo, of 66 2 True] by (simp add: bitmap_size_def)

end
