(* ===== verification/Interrupts.thy ===== *)
theory Interrupts
  imports Prelude
begin

section \<open>Interrupt level and interrupt tables (\<^verbatim>\<open>threads/interrupt.c\<close>)\<close>

text \<open>
  The processor state that the kernel's atomicity rests on (the interrupt flag, and the two
  flags of external-interrupt processing), the descriptor table and the table of handlers,
  and the programming of the interrupt controllers. The dispatcher
  \<^verbatim>\<open>intr_handler\<close> is in theory \<open>Threads\<close>, because it yields to the scheduler.
\<close>

subsection \<open>The interrupt level\<close>

datatype intr_level = INTR_OFF | INTR_ON

record cpu =
  if_flag :: bool
  in_external_intr :: bool
  yield_on_return :: bool
  port_log :: "(nat \<times> nat) list"

definition intr_get_level :: "'a cpu_scheme \<Rightarrow> intr_level" where
  "intr_get_level k = (if if_flag k then INTR_ON else INTR_OFF)"

definition intr_context :: "'a cpu_scheme \<Rightarrow> bool" where
  "intr_context k = in_external_intr k"

definition intr_enable :: "'a cpu_scheme \<Rightarrow> (intr_level \<times> 'a cpu_scheme) option" where
  "intr_enable k = do {
     let old_level = intr_get_level k;
     ASSERT (\<not> intr_context k);
     Some (old_level, k\<lparr>if_flag := True\<rparr>)
   }"

definition intr_disable :: "'a cpu_scheme \<Rightarrow> intr_level \<times> 'a cpu_scheme" where
  "intr_disable k = (intr_get_level k, k\<lparr>if_flag := False\<rparr>)"

definition intr_set_level :: "intr_level \<Rightarrow> 'a cpu_scheme \<Rightarrow> (intr_level \<times> 'a cpu_scheme) option" where
  "intr_set_level level k = (if level = INTR_ON then intr_enable k else Some (intr_disable k))"

definition intr_yield_on_return :: "'a cpu_scheme \<Rightarrow> 'a cpu_scheme option" where
  "intr_yield_on_return k = do {
     ASSERT (intr_context k);
     Some (k\<lparr>yield_on_return := True\<rparr>)
   }"

definition outb :: "nat \<Rightarrow> nat \<Rightarrow> 'a cpu_scheme \<Rightarrow> 'a cpu_scheme" where
  "outb port v k = k\<lparr>port_log := port_log k @ [(port, v)]\<rparr>"

definition pic_init :: "'a cpu_scheme \<Rightarrow> 'a cpu_scheme" where
  "pic_init k =
     (let k = outb 0x21 0xff k; k = outb 0xa1 0xff k;
          k = outb 0x20 0x11 k; k = outb 0x21 0x20 k; k = outb 0x21 0x04 k; k = outb 0x21 0x01 k;
          k = outb 0xa0 0x11 k; k = outb 0xa1 0x28 k; k = outb 0xa1 0x02 k; k = outb 0xa1 0x01 k;
          k = outb 0x21 0x00 k
      in outb 0xa1 0x00 k)"

definition pic_end_of_interrupt :: "nat \<Rightarrow> 'a cpu_scheme \<Rightarrow> 'a cpu_scheme option" where
  "pic_end_of_interrupt irq k = do {
     ASSERT (0x20 \<le> irq \<and> irq < 0x30);
     let k = outb 0x20 0x20 k;
     Some (if irq \<ge> 0x28 then outb 0xa0 0x20 k else k)
   }"

subsection \<open>Gates and handlers\<close>

record gate =
  off_15_0 :: "16 word"
  gate_ss :: "16 word"
  ist :: "3 word"
  rsv1 :: "5 word"
  gate_type :: "4 word"
  gate_s :: "1 word"
  gate_dpl :: "2 word"
  gate_p :: "1 word"
  off_31_16 :: "16 word"
  off_32_63 :: "32 word"
  rsv2 :: "32 word"

definition SEL_KCSEG :: nat where
  "SEL_KCSEG = 0x08"

definition INTR_CNT :: nat where
  "INTR_CNT = 256"

definition make_gate :: "ptr \<Rightarrow> int \<Rightarrow> int \<Rightarrow> gate option" where
  "make_gate function d t = do {
     ASSERT (function \<noteq> NULL);
     ASSERT (d \<ge> 0 \<and> d \<le> 3);
     ASSERT (t \<ge> 0 \<and> t \<le> 15);
     Some \<lparr>off_15_0 = ucast (function AND 0xffff), gate_ss = of_nat SEL_KCSEG, ist = 0, rsv1 = 0,
           gate_type = word_of_int t, gate_s = 0, gate_dpl = word_of_int d, gate_p = 1,
           off_31_16 = ucast (drop_bit 16 function AND 0xffff),
           off_32_63 = ucast (drop_bit 32 function AND 0xffffffff), rsv2 = 0\<rparr>
   }"

definition make_intr_gate :: "ptr \<Rightarrow> int \<Rightarrow> gate option" where
  "make_intr_gate function dpl = make_gate function dpl 14"

definition make_trap_gate :: "ptr \<Rightarrow> int \<Rightarrow> gate option" where
  "make_trap_gate function dpl = make_gate function dpl 15"

record intr_tables =
  idt :: "8 word \<Rightarrow> gate option"
  intr_handlers :: "8 word \<Rightarrow> ptr"
  intr_names :: "8 word \<Rightarrow> string"

text \<open>
  The initial names of \<^verbatim>\<open>intr_init\<close>. The stubs of \<^verbatim>\<open>intr-stubs.S\<close> are assembly; their
  addresses are the argument \<open>intr_stubs\<close>.
\<close>

definition exception_names :: "(8 word \<times> string) list" where
  "exception_names =
     [(0, ''#DE Divide Error''), (1, ''#DB Debug Exception''), (2, ''NMI Interrupt''),
      (3, ''#BP Breakpoint Exception''), (4, ''#OF Overflow Exception''),
      (5, ''#BR BOUND Range Exceeded Exception''), (6, ''#UD Invalid Opcode Exception''),
      (7, ''#NM Device Not Available Exception''), (8, ''#DF Double Fault Exception''),
      (9, ''Coprocessor Segment Overrun''), (10, ''#TS Invalid TSS Exception''),
      (11, ''#NP Segment Not Present''), (12, ''#SS Stack Fault Exception''),
      (13, ''#GP General Protection Exception''), (14, ''#PF Page-Fault Exception''),
      (16, ''#MF x87 FPU Floating-Point Error''), (17, ''#AC Alignment Check Exception''),
      (18, ''#MC Machine-Check Exception''), (19, ''#XF SIMD Floating-Point Exception'')]"

definition intr_init_idt :: "(8 word \<Rightarrow> ptr) \<Rightarrow> intr_tables \<Rightarrow> intr_tables option" where
  "intr_init_idt intr_stubs tb =
     (if \<forall>v. make_intr_gate (intr_stubs v) 0 \<noteq> None
      then Some (tb\<lparr>idt := (\<lambda>v. make_intr_gate (intr_stubs v) 0),
                    intr_names := (\<lambda>v. case map_of exception_names v of None \<Rightarrow> ''unknown'' | Some n \<Rightarrow> n)\<rparr>)
      else None)"

definition intr_init :: "(8 word \<Rightarrow> ptr) \<Rightarrow> intr_tables \<Rightarrow> 'a cpu_scheme \<Rightarrow> (intr_tables \<times> 'a cpu_scheme) option" where
  "intr_init intr_stubs tb k = do {
     let k = pic_init k;
     tb \<leftarrow> intr_init_idt intr_stubs tb;
     Some (tb, k)
   }"

definition register_handler ::
    "(8 word \<Rightarrow> ptr) \<Rightarrow> 8 word \<Rightarrow> int \<Rightarrow> intr_level \<Rightarrow> ptr \<Rightarrow> string \<Rightarrow> intr_tables \<Rightarrow> intr_tables option" where
  "register_handler intr_stubs vec_no dpl level handler name tb = do {
     ASSERT (intr_handlers tb vec_no = NULL);
     g \<leftarrow> (if level = INTR_ON then make_trap_gate (intr_stubs vec_no) dpl
           else make_intr_gate (intr_stubs vec_no) dpl);
     Some (tb\<lparr>idt := (idt tb)(vec_no \<mapsto> g), intr_handlers := (intr_handlers tb)(vec_no := handler),
              intr_names := (intr_names tb)(vec_no := name)\<rparr>)
   }"

definition intr_register_ext ::
    "(8 word \<Rightarrow> ptr) \<Rightarrow> 8 word \<Rightarrow> ptr \<Rightarrow> string \<Rightarrow> intr_tables \<Rightarrow> intr_tables option" where
  "intr_register_ext intr_stubs vec_no handler name tb = do {
     ASSERT (vec_no \<ge> 0x20 \<and> vec_no \<le> 0x2f);
     register_handler intr_stubs vec_no 0 INTR_OFF handler name tb
   }"

definition intr_register_int ::
    "(8 word \<Rightarrow> ptr) \<Rightarrow> 8 word \<Rightarrow> int \<Rightarrow> intr_level \<Rightarrow> ptr \<Rightarrow> string \<Rightarrow> intr_tables \<Rightarrow> intr_tables option" where
  "intr_register_int intr_stubs vec_no dpl level handler name tb = do {
     ASSERT (vec_no < 0x20 \<or> vec_no > 0x2f);
     register_handler intr_stubs vec_no dpl level handler name tb
   }"

definition intr_name :: "intr_tables \<Rightarrow> 8 word \<Rightarrow> string" where
  "intr_name tb vec = intr_names tb vec"

subsection \<open>Lemmas\<close>

lemmas intr_defs = intr_get_level_def intr_context_def intr_enable_def intr_disable_def intr_set_level_def

lemma intr_level_restored:
  "\<not> intr_context k \<Longrightarrow> (do { let (old, k1) = intr_disable k; (_, k2) \<leftarrow> intr_set_level old k1; Some k2 }) = Some k"
  by (auto simp: intr_defs)

lemma intr_level_kept_off:
  "\<not> if_flag k \<Longrightarrow> (do { let (old, k1) = intr_disable k; (_, k2) \<leftarrow> intr_set_level old k1; Some k2 }) = Some k"
  by (auto simp: intr_defs)

text \<open>The address a gate describes, as the processor assembles it.\<close>

definition gate_offset :: "gate \<Rightarrow> ptr" where
  "gate_offset g = ucast (off_15_0 g) OR push_bit 16 (ucast (off_31_16 g)) OR push_bit 32 (ucast (off_32_63 g))"

lemma bit_ffff: "bit (0xffff :: 64 word) n \<longleftrightarrow> n < 16"
proof -
  have "(0xffff :: 64 word) = mask 16" by (simp add: mask_eq_exp_minus_1)
  then show ?thesis by (simp only: bit_mask_iff) auto
qed

lemma bit_ffffffff: "bit (0xffffffff :: 64 word) n \<longleftrightarrow> n < 32"
proof -
  have "(0xffffffff :: 64 word) = mask 32" by (simp add: mask_eq_exp_minus_1)
  then show ?thesis by (simp only: bit_mask_iff) auto
qed

lemma word_parts:
  "(ucast (ucast (x AND 0xffff) :: 16 word) OR push_bit 16 (ucast (ucast (drop_bit 16 x AND 0xffff) :: 16 word))
     OR push_bit 32 (ucast (ucast (drop_bit 32 x AND 0xffffffff) :: 32 word))) = (x :: 64 word)"
  (is "?l = x")
proof (rule bit_word_eqI)
  fix n assume "n < LENGTH(64)"
  then have n: "n < 64" by simp
  consider "n < 16" | "16 \<le> n" "n < 32" | "32 \<le> n" by linarith
  then show "bit ?l n = bit x n"
    unfolding bit_or_iff bit_push_bit_iff bit_ucast_iff bit_and_iff bit_drop_bit_eq o_def bit_ffff bit_ffffffff
    by cases (use n in auto)
qed

lemma make_gate_Some:
  "make_gate f d t = Some g \<Longrightarrow>
   f \<noteq> NULL \<and> 0 \<le> d \<and> d \<le> 3 \<and> gate_offset g = f \<and> gate_p g = 1 \<and> gate_type g = word_of_int t \<and> gate_dpl g = word_of_int d"
  by (auto simp: make_gate_def gate_offset_def word_parts panic_simps)

lemma make_gate_None: "0 \<le> t \<Longrightarrow> t \<le> 15 \<Longrightarrow> make_gate f d t = None \<longleftrightarrow> f = NULL \<or> d < 0 \<or> 3 < d"
  by (auto simp: make_gate_def panic_simps)

subsection \<open>Properties\<close>



end
