(* ===== verification/Virtual_Addresses.thy ===== *)
theory Virtual_Addresses
  imports Prelude
begin

section \<open>Virtual addresses (\<^verbatim>\<open>include/threads/vaddr.h\<close>)\<close>

text \<open>
  Pages, page offsets and the mapping of physical memory at the start of the kernel's virtual
  memory. Addresses are \<^typ>\<open>64 word\<close>, so the sums wrap around as in C.
\<close>

definition BITMASK :: "nat \<Rightarrow> nat \<Rightarrow> 64 word" where
  "BITMASK SHIFT CNT = push_bit SHIFT (push_bit CNT 1 - 1)"

definition PGSHIFT :: nat where "PGSHIFT = 0"

definition PGBITS :: nat where "PGBITS = 12"

definition PGSIZE :: nat where "PGSIZE = 2 ^ PGBITS"

definition PGMASK :: "64 word" where "PGMASK = BITMASK PGSHIFT PGBITS"

definition pg_ofs :: "ptr \<Rightarrow> ptr" where
  "pg_ofs va = va AND PGMASK"

definition pg_no :: "ptr \<Rightarrow> ptr" where
  "pg_no va = drop_bit PGBITS va"

definition pg_round_up :: "ptr \<Rightarrow> ptr" where
  "pg_round_up va = (va + of_nat PGSIZE - 1) AND NOT PGMASK"

definition pg_round_down :: "ptr \<Rightarrow> ptr" where
  "pg_round_down va = va AND NOT PGMASK"

definition KERN_BASE :: ptr where "KERN_BASE = 0x8004000000"

definition is_kernel_vaddr :: "ptr \<Rightarrow> bool" where
  "is_kernel_vaddr vaddr \<longleftrightarrow> vaddr \<ge> KERN_BASE"

definition is_user_vaddr :: "ptr \<Rightarrow> bool" where
  "is_user_vaddr vaddr \<longleftrightarrow> \<not> is_kernel_vaddr vaddr"

definition ptov :: "ptr \<Rightarrow> ptr" where
  "ptov paddr = paddr + KERN_BASE"

definition vtop :: "ptr \<Rightarrow> ptr option" where
  "vtop vaddr = do { ASSERT (is_kernel_vaddr vaddr); Some (vaddr - KERN_BASE) }"

subsection \<open>Pages as numbers\<close>

lemma PGSIZE_eq: "PGSIZE = 4096"
  by (simp add: PGSIZE_def PGBITS_def)

lemma PGMASK_eq: "PGMASK = mask 12"
  by (simp add: PGMASK_def BITMASK_def PGSHIFT_def PGBITS_def mask_eq_decr_exp)

lemma unat_less64: "unat (p :: ptr) < 2 ^ 64"
  by (rule order_less_le_trans [OF unsigned_less]) simp

lemma unat_add64: "unat p + unat q < 2 ^ 64 \<Longrightarrow> unat (p + q :: ptr) = unat p + unat q"
  by (simp add: unat_word_ariths(1))

lemma unat_of_nat64: "n < 2 ^ 64 \<Longrightarrow> unat (of_nat n :: ptr) = n"
  by (simp add: unat_of_nat)

lemma unat_add_nat: "unat p + n < 2 ^ 64 \<Longrightarrow> unat (p + of_nat n :: ptr) = unat p + n"
  by (subst unat_add64) (simp_all add: unat_of_nat64)

lemma pg_ofs_eq: "pg_ofs p = take_bit 12 p"
  by (simp add: pg_ofs_def PGMASK_eq take_bit_eq_mask)

lemma unat_pg_ofs: "unat (pg_ofs p) = unat p mod PGSIZE"
  by (simp add: pg_ofs_eq PGSIZE_def PGBITS_def unsigned_take_bit_eq take_bit_eq_mod [where ?'a = nat])

lemma unat_pg_no: "unat (pg_no p) = unat p div PGSIZE"
  by (simp add: pg_no_def PGSIZE_def PGBITS_def unat_drop_bit_eq drop_bit_eq_div [where ?'a = nat])

lemma pg_round_down_eq: "pg_round_down p = p - pg_ofs p"
proof -
  have "p = (p AND NOT PGMASK) + (p AND PGMASK)"
    by (subst disjunctive_add) (auto simp: bit_simps intro: bit_eqI)
  then show ?thesis
    by (simp add: pg_round_down_def pg_ofs_def algebra_simps)
qed

lemma unat_pg_round_down: "unat (pg_round_down p) = unat p div PGSIZE * PGSIZE"
proof -
  have "pg_ofs p \<le> p"
    by (simp add: word_le_nat_alt unat_pg_ofs)
  then have "unat (pg_round_down p) = unat p - unat p mod PGSIZE"
    by (simp add: pg_round_down_eq unat_sub unat_pg_ofs)
  then show ?thesis
    by (simp add: minus_mod_eq_div_mult)
qed

lemma unat_pg_round_up:
  assumes "unat p + 4095 < 2 ^ 64"
  shows "unat (pg_round_up p) = DIV_ROUND_UP (unat p) PGSIZE * PGSIZE"
proof -
  have "pg_round_up p = pg_round_down (p + of_nat 4095)"
    by (simp add: pg_round_up_def pg_round_down_def PGSIZE_eq add.commute)
  then show ?thesis
    using unat_add_nat [OF assms] by (simp only: unat_pg_round_down DIV_ROUND_UP_def) (simp add: PGSIZE_eq)
qed

lemma vtop_ptov: "unat p + unat KERN_BASE < 2 ^ 64 \<Longrightarrow> vtop (ptov p) = Some p"
  by (simp add: vtop_def ptov_def is_kernel_vaddr_def word_le_nat_alt unat_add64)

end
