(* ===== verification/Threads.thy ===== *)
theory Threads
  imports Interrupts List_Interface Virtual_Addresses
begin

section \<open>Threads and the scheduler (\<^verbatim>\<open>threads/thread.c\<close>)\<close>

text \<open>
  The thread table, the run queue, the sleep queue and the scheduler. A thread is named by the
  address of its page. The queues are the sequences that the kernel lists represent
  (\<open>List_Interface\<close> proves the list operations on them); an element is on at most one of them,
  which is part of the invariant \<open>threads_ok\<close> shown below.

  A context switch changes \<open>running\<close>. What the thread that was switched away from does when it runs
  again is the rest of its code, which theory \<open>Kernel\<close> keeps for every thread; the operations
  here end at the switch.

  The build modelled is the kernel without user programs (\<^verbatim>\<open>USERPROG\<close> is not defined).
\<close>

subsection \<open>State\<close>

datatype thread_status = THREAD_RUNNING | THREAD_READY | THREAD_BLOCKED | THREAD_DYING

record intr_frame =
  f_rip :: ptr
  f_rdi :: ptr
  f_rsi :: ptr
  f_rsp :: ptr
  f_ds :: nat
  f_es :: nat
  f_ss :: nat
  f_cs :: nat
  f_eflags :: "64 word"

record thread =
  tid :: int
  status :: thread_status
  name :: string
  priority :: int
  alarm :: int
  tf :: intr_frame
  magic :: "32 word"

text \<open>
  \<open>running\<close> is the page the stack pointer is in, \<open>freed_pages\<close> the pages given back to the page
  allocator, \<open>sleep_tail\<close> the address of the tail node of \<^verbatim>\<open>sleep_list\<close> read as an
  \<^verbatim>\<open>int64_t\<close>, and \<open>ticks\<close> the counter of \<^verbatim>\<open>devices/timer.c\<close>.
\<close>

record kernel = cpu +
  running :: ptr
  threads :: "ptr \<Rightarrow> thread"
  ready_list :: "ptr list"
  sleep_list :: "ptr list"
  destruction_req :: "ptr list"
  earliest_wake_up_tick :: int
  idle_thread :: ptr
  initial_thread :: ptr
  idle_ticks :: int
  kernel_ticks :: int
  thread_ticks :: nat
  next_tid :: int
  freed_pages :: "ptr list"
  sleep_tail :: int
  ticks :: int

definition THREAD_MAGIC :: "32 word" where
  "THREAD_MAGIC = 0xcd6abf4b"

definition TIME_SLICE :: nat where
  "TIME_SLICE = 4"

definition PRI_MIN :: int where "PRI_MIN = 0"
definition PRI_DEFAULT :: int where "PRI_DEFAULT = 31"
definition PRI_MAX :: int where "PRI_MAX = 63"
definition TID_ERROR :: int where "TID_ERROR = - 1"
definition SEL_KDSEG :: nat where "SEL_KDSEG = 0x10"
definition FLAG_IF :: "64 word" where "FLAG_IF = 0x200"

definition is_thread :: "'a kernel_scheme \<Rightarrow> ptr \<Rightarrow> bool" where
  "is_thread k t \<longleftrightarrow> t \<noteq> NULL \<and> magic (threads k t) = THREAD_MAGIC"

definition running_thread :: "'a kernel_scheme \<Rightarrow> ptr" where
  "running_thread k = running k"

definition upd_thread :: "ptr \<Rightarrow> (thread \<Rightarrow> thread) \<Rightarrow> 'a kernel_scheme \<Rightarrow> 'a kernel_scheme" where
  "upd_thread t f k = k\<lparr>threads := (threads k)(t := f (threads k t))\<rparr>"

definition set_status :: "ptr \<Rightarrow> thread_status \<Rightarrow> 'a kernel_scheme \<Rightarrow> 'a kernel_scheme" where
  "set_status t s = upd_thread t (\<lambda>th. th\<lparr>status := s\<rparr>)"

definition thread_current :: "'a kernel_scheme \<Rightarrow> ptr option" where
  "thread_current k = do {
     let t = running_thread k;
     ASSERT (is_thread k t);
     ASSERT (status (threads k t) = THREAD_RUNNING);
     Some t
   }"

definition thread_tid :: "'a kernel_scheme \<Rightarrow> int option" where
  "thread_tid k = do { t \<leftarrow> thread_current k; Some (tid (threads k t)) }"

definition thread_name :: "'a kernel_scheme \<Rightarrow> string option" where
  "thread_name k = do { t \<leftarrow> thread_current k; Some (name (threads k t)) }"

definition thread_set_priority :: "int \<Rightarrow> 'a kernel_scheme \<Rightarrow> 'a kernel_scheme option" where
  "thread_set_priority new_priority k = do {
     t \<leftarrow> thread_current k;
     Some (upd_thread t (\<lambda>th. th\<lparr>priority := new_priority\<rparr>) k)
   }"

definition thread_get_priority :: "'a kernel_scheme \<Rightarrow> int option" where
  "thread_get_priority k = do { t \<leftarrow> thread_current k; Some (priority (threads k t)) }"

subsection \<open>Creation\<close>

definition zero_frame :: intr_frame where
  "zero_frame = \<lparr>f_rip = 0, f_rdi = 0, f_rsi = 0, f_rsp = 0, f_ds = 0, f_es = 0, f_ss = 0, f_cs = 0,
                 f_eflags = 0\<rparr>"

text \<open>\<^verbatim>\<open>strlcpy\<close> into the 16 bytes of the field keeps at most 15 characters.\<close>

definition init_thread :: "ptr \<Rightarrow> string \<Rightarrow> int \<Rightarrow> 'a kernel_scheme \<Rightarrow> 'a kernel_scheme option" where
  "init_thread t nm prio k = do {
     ASSERT (t \<noteq> NULL);
     ASSERT (PRI_MIN \<le> prio \<and> prio \<le> PRI_MAX);
     Some (upd_thread t (\<lambda>_. \<lparr>tid = 0, status = THREAD_BLOCKED, name = take 15 nm, priority = prio, alarm = 0,
             tf = zero_frame\<lparr>f_rsp := t + of_nat PGSIZE - 8\<rparr>, magic = THREAD_MAGIC\<rparr>) k)
   }"

definition set_tid :: "ptr \<Rightarrow> int \<Rightarrow> 'a kernel_scheme \<Rightarrow> 'a kernel_scheme" where
  "set_tid t n = upd_thread t (\<lambda>th. th\<lparr>tid := n\<rparr>)"

text \<open>The critical section of \<^verbatim>\<open>allocate_tid\<close>, between the acquisition and the release of its lock.\<close>

definition take_tid :: "'a kernel_scheme \<Rightarrow> int \<times> 'a kernel_scheme" where
  "take_tid k = (next_tid k, k\<lparr>next_tid := s32 (next_tid k + 1)\<rparr>)"

definition init_frame :: "ptr \<Rightarrow> ptr \<Rightarrow> ptr \<Rightarrow> ptr \<Rightarrow> 'a kernel_scheme \<Rightarrow> 'a kernel_scheme" where
  "init_frame t kernel_thread function aux =
     upd_thread t (\<lambda>th. th\<lparr>tf := (tf th)\<lparr>f_rip := kernel_thread, f_rdi := function, f_rsi := aux,
       f_ds := SEL_KDSEG, f_es := SEL_KDSEG, f_ss := SEL_KDSEG, f_cs := SEL_KCSEG, f_eflags := FLAG_IF\<rparr>\<rparr>)"

definition thread_unblock :: "ptr \<Rightarrow> 'a kernel_scheme \<Rightarrow> 'a kernel_scheme option" where
  "thread_unblock t k = do {
     ASSERT (is_thread k t);
     let (old_level, k) = intr_disable k;
     ASSERT (status (threads k t) = THREAD_BLOCKED);
     let k = k\<lparr>ready_list := ready_list k @ [t]\<rparr>;
     let k = set_status t THREAD_READY k;
     (_, k) \<leftarrow> intr_set_level old_level k;
     Some k
   }"

subsection \<open>Alarms\<close>

definition timer_comparator :: "'a kernel_scheme \<Rightarrow> ptr \<Rightarrow> ptr \<Rightarrow> bool" where
  "timer_comparator k x y \<longleftrightarrow> alarm (threads k x) \<le> alarm (threads k y)"

definition earliest_time :: "int \<Rightarrow> 'a kernel_scheme \<Rightarrow> 'a kernel_scheme" where
  "earliest_time n k = (if earliest_wake_up_tick k > n then k\<lparr>earliest_wake_up_tick := n\<rparr> else k)"

text \<open>
  The alarm of the first sleeper. On an empty list \<^verbatim>\<open>list_begin\<close> is the tail node, and the eight
  bytes in front of it, where the alarm of a thread would be, hold the head's next pointer: the
  address of the tail.
\<close>

definition front_alarm :: "'a kernel_scheme \<Rightarrow> int" where
  "front_alarm k = (case sleep_list k of [] \<Rightarrow> sleep_tail k | t # _ \<Rightarrow> alarm (threads k t))"

partial_function (option) thread_wakeup_loop :: "int \<Rightarrow> 'a kernel_scheme \<Rightarrow> 'a kernel_scheme option" where
  "thread_wakeup_loop n k =
     (if n \<ge> earliest_wake_up_tick k then
        case sleep_list k of
          [] \<Rightarrow> None
        | t # rest \<Rightarrow> do {
            k \<leftarrow> thread_unblock t (k\<lparr>sleep_list := rest\<rparr>);
            thread_wakeup_loop n (k\<lparr>earliest_wake_up_tick := front_alarm k\<rparr>)
          }
      else Some k)"

definition thread_wakeup :: "int \<Rightarrow> 'a kernel_scheme \<Rightarrow> 'a kernel_scheme option" where
  "thread_wakeup n k =
     (if sleep_list k = [] then Some (k\<lparr>earliest_wake_up_tick := INT64_MAX\<rparr>)
      else thread_wakeup_loop n k)"

subsection \<open>Scheduling\<close>

definition next_thread_to_run :: "'a kernel_scheme \<Rightarrow> ptr \<times> 'a kernel_scheme" where
  "next_thread_to_run k =
     (case ready_list k of [] \<Rightarrow> (idle_thread k, k) | t # rest \<Rightarrow> (t, k\<lparr>ready_list := rest\<rparr>))"

text \<open>Of the registers that \<^verbatim>\<open>thread_launch\<close> saves and \<^verbatim>\<open>do_iret\<close> loads, the interrupt flag matters here.\<close>

definition thread_launch :: "ptr \<Rightarrow> 'a kernel_scheme \<Rightarrow> 'a kernel_scheme option" where
  "thread_launch th k = do {
     ASSERT (intr_get_level k = INTR_OFF);
     let k = upd_thread (running_thread k)
               (\<lambda>t. t\<lparr>tf := (tf t)\<lparr>f_eflags := (if if_flag k then FLAG_IF else 0)\<rparr>\<rparr>) k;
     Some (k\<lparr>running := th, if_flag := (f_eflags (tf (threads k th)) AND FLAG_IF \<noteq> 0)\<rparr>)
   }"

definition schedule :: "'a kernel_scheme \<Rightarrow> 'a kernel_scheme option" where
  "schedule k = do {
     let curr = running_thread k;
     let (nxt, k) = next_thread_to_run k;
     ASSERT (intr_get_level k = INTR_OFF);
     ASSERT (status (threads k curr) \<noteq> THREAD_RUNNING);
     ASSERT (is_thread k nxt);
     let k = set_status nxt THREAD_RUNNING k;
     let k = k\<lparr>thread_ticks := 0\<rparr>;
     if curr \<noteq> nxt then do {
       let k = (if curr \<noteq> NULL \<and> status (threads k curr) = THREAD_DYING \<and> curr \<noteq> initial_thread k
                then k\<lparr>destruction_req := destruction_req k @ [curr]\<rparr> else k);
       thread_launch nxt k
     } else Some k
   }"

text \<open>\<^verbatim>\<open>palloc_free_page\<close> fills the page with the byte 0xcc.\<close>

definition free_thread_page :: "ptr \<Rightarrow> 'a kernel_scheme \<Rightarrow> 'a kernel_scheme" where
  "free_thread_page victim k =
     (upd_thread victim (\<lambda>th. th\<lparr>magic := 0xcccccccc\<rparr>) k)\<lparr>freed_pages := freed_pages k @ [victim]\<rparr>"

definition free_victims :: "'a kernel_scheme \<Rightarrow> 'a kernel_scheme" where
  "free_victims k = fold free_thread_page (destruction_req k) (k\<lparr>destruction_req := []\<rparr>)"

definition do_schedule :: "thread_status \<Rightarrow> 'a kernel_scheme \<Rightarrow> 'a kernel_scheme option" where
  "do_schedule s k = do {
     ASSERT (intr_get_level k = INTR_OFF);
     t \<leftarrow> thread_current k;
     ASSERT (status (threads k t) = THREAD_RUNNING);
     let k = free_victims k;
     t \<leftarrow> thread_current k;
     schedule (set_status t s k)
   }"

definition thread_block :: "'a kernel_scheme \<Rightarrow> 'a kernel_scheme option" where
  "thread_block k = do {
     ASSERT (\<not> intr_context k);
     ASSERT (intr_get_level k = INTR_OFF);
     t \<leftarrow> thread_current k;
     schedule (set_status t THREAD_BLOCKED k)
   }"

text \<open>
  The two operations that switch away in the middle return the interrupt level that the thread
  restores when it runs again.
\<close>

definition thread_yield :: "'a kernel_scheme \<Rightarrow> (intr_level \<times> 'a kernel_scheme) option" where
  "thread_yield k = do {
     curr \<leftarrow> thread_current k;
     ASSERT (\<not> intr_context k);
     let (old_level, k) = intr_disable k;
     let k = (if curr \<noteq> idle_thread k then k\<lparr>ready_list := ready_list k @ [curr]\<rparr> else k);
     k \<leftarrow> do_schedule THREAD_READY k;
     Some (old_level, k)
   }"

definition thread_sleep :: "int \<Rightarrow> 'a kernel_scheme \<Rightarrow> (intr_level \<times> 'a kernel_scheme) option" where
  "thread_sleep n k = do {
     sleeper \<leftarrow> thread_current k;
     let (old_level, k) = intr_disable k;
     let k = upd_thread sleeper (\<lambda>th. th\<lparr>alarm := n\<rparr>) k;
     let k = earliest_time (alarm (threads k sleeper)) k;
     let k = k\<lparr>sleep_list := insert_ordered (timer_comparator k) sleeper (sleep_list k)\<rparr>;
     k \<leftarrow> thread_block k;
     Some (old_level, k)
   }"

definition thread_exit :: "'a kernel_scheme \<Rightarrow> 'a kernel_scheme option" where
  "thread_exit k = do {
     ASSERT (\<not> intr_context k);
     let (_, k) = intr_disable k;
     do_schedule THREAD_DYING k
   }"

subsection \<open>The timer interrupt and the dispatcher\<close>

definition thread_tick :: "'a kernel_scheme \<Rightarrow> 'a kernel_scheme option" where
  "thread_tick k = do {
     t \<leftarrow> thread_current k;
     let k = (if t = idle_thread k then k\<lparr>idle_ticks := s64 (idle_ticks k + 1)\<rparr>
              else k\<lparr>kernel_ticks := s64 (kernel_ticks k + 1)\<rparr>);
     let k = k\<lparr>thread_ticks := Suc (thread_ticks k) mod 2 ^ 32\<rparr>;
     if thread_ticks k \<ge> TIME_SLICE then intr_yield_on_return k else Some k
   }"

definition timer_interrupt :: "'a kernel_scheme \<Rightarrow> 'a kernel_scheme option" where
  "timer_interrupt k = do {
     let k = k\<lparr>ticks := s64 (ticks k + 1)\<rparr>;
     k \<leftarrow> thread_tick k;
     thread_wakeup (ticks k) k
   }"

text \<open>
  The dispatcher for vector \<open>vec_no\<close>, whose handler (if any) is \<open>handler\<close>. The result carries the level
  to restore when the interrupted thread was made to yield.
\<close>

definition intr_handler ::
    "nat \<Rightarrow> ('a kernel_scheme \<Rightarrow> 'a kernel_scheme option) option \<Rightarrow> 'a kernel_scheme
       \<Rightarrow> (intr_level option \<times> 'a kernel_scheme) option" where
  "intr_handler vec_no handler k = do {
     let external = (vec_no \<ge> 0x20 \<and> vec_no < 0x30);
     k \<leftarrow> (if external then do {
             ASSERT (intr_get_level k = INTR_OFF);
             ASSERT (\<not> intr_context k);
             Some (k\<lparr>in_external_intr := True, yield_on_return := False\<rparr>)
           } else Some k);
     k \<leftarrow> (case handler of
             Some h \<Rightarrow> h k
           | None \<Rightarrow> if vec_no = 0x27 \<or> vec_no = 0x2f then Some k else None);
     if external then do {
       ASSERT (intr_get_level k = INTR_OFF);
       ASSERT (intr_context k);
       let k = k\<lparr>in_external_intr := False\<rparr>;
       k \<leftarrow> pic_end_of_interrupt vec_no k;
       if yield_on_return k then do { (old, k) \<leftarrow> thread_yield k; Some (Some old, k) }
       else Some (None, k)
     } else Some (None, k)
   }"

subsection \<open>The operations in closed form\<close>

text \<open>
  Under the conditions the assertions check, every operation is a record update. The closed forms
  are what the invariant proofs compute with.
\<close>

named_theorems thread_simps \<open>field-wise effect of the thread operations\<close>

definition unblocked :: "ptr \<Rightarrow> 'a kernel_scheme \<Rightarrow> 'a kernel_scheme" where
  "unblocked t k = k\<lparr>ready_list := ready_list k @ [t],
                     threads := (threads k)(t := (threads k t)\<lparr>status := THREAD_READY\<rparr>)\<rparr>"

definition woken :: "ptr list \<Rightarrow> 'a kernel_scheme \<Rightarrow> 'a kernel_scheme" where
  "woken ws k = k\<lparr>ready_list := ready_list k @ ws,
                  threads := (\<lambda>t. if t \<in> set ws then (threads k t)\<lparr>status := THREAD_READY\<rparr> else threads k t)\<rparr>"

definition switch_target :: "'a kernel_scheme \<Rightarrow> ptr" where
  "switch_target k = (case ready_list k of [] \<Rightarrow> idle_thread k | t # _ \<Rightarrow> t)"

definition switched :: "'a kernel_scheme \<Rightarrow> 'a kernel_scheme" where
  "switched k =
     (let curr = running k; nxt = switch_target k;
          k1 = k\<lparr>ready_list := tl (ready_list k), thread_ticks := 0,
                 threads := (threads k)(nxt := (threads k nxt)\<lparr>status := THREAD_RUNNING\<rparr>)\<rparr>
      in if curr = nxt then k1
         else k1\<lparr>destruction_req := destruction_req k
                     @ (if status (threads k curr) = THREAD_DYING \<and> curr \<noteq> initial_thread k then [curr] else []),
                 threads := (threads k1)(curr := (threads k curr)\<lparr>tf := (tf (threads k curr))\<lparr>f_eflags := 0\<rparr>\<rparr>),
                 running := nxt,
                 if_flag := (f_eflags (tf (threads k nxt)) AND FLAG_IF \<noteq> 0)\<rparr>)"

lemma intr_roundtrip:
  "\<not> in_external_intr k \<or> \<not> if_flag k \<Longrightarrow>
   intr_set_level (intr_get_level k) (k\<lparr>if_flag := False, ready_list := r, threads := th\<rparr>)
     = Some (INTR_OFF, k\<lparr>ready_list := r, threads := th\<rparr>)"
  by (auto simp: intr_defs)

lemma thread_unblock_eq:
  assumes "is_thread k t" and "status (threads k t) = THREAD_BLOCKED" and "\<not> in_external_intr k \<or> \<not> if_flag k"
  shows "thread_unblock t k = Some (unblocked t k)"
  using assms intr_roundtrip [OF assms(3)]
  by (simp add: thread_unblock_def unblocked_def set_status_def upd_thread_def intr_disable_def)

lemma schedule_eq:
  assumes "\<not> if_flag k" and "running k \<noteq> NULL" and "status (threads k (running k)) \<noteq> THREAD_RUNNING"
    and "is_thread k (switch_target k)"
  shows "schedule k = Some (switched k)"
proof (cases "running k = switch_target k")
  case True
  then show ?thesis using assms
    by (auto simp: schedule_def switched_def switch_target_def next_thread_to_run_def intr_get_level_def
        running_thread_def is_thread_def set_status_def upd_thread_def Let_def split: list.splits)
next
  case False
  then show ?thesis using assms
    by (auto simp: schedule_def switched_def switch_target_def next_thread_to_run_def intr_get_level_def
        running_thread_def is_thread_def set_status_def upd_thread_def thread_launch_def Let_def
        fun_upd_twist split: list.splits)
qed

lemma switched_fields [thread_simps]:
  "running (switched k) = switch_target k"
  "status (threads (switched k) t) = (if t = switch_target k then THREAD_RUNNING else status (threads k t))"
  "magic (threads (switched k) t) = magic (threads k t)"
  "alarm (threads (switched k) t) = alarm (threads k t)"
  "tid (threads (switched k) t) = tid (threads k t)"
  "ready_list (switched k) = tl (ready_list k)"
  "sleep_list (switched k) = sleep_list k"
  "earliest_wake_up_tick (switched k) = earliest_wake_up_tick k"
  "idle_thread (switched k) = idle_thread k"
  "initial_thread (switched k) = initial_thread k"
  "sleep_tail (switched k) = sleep_tail k"
  "ticks (switched k) = ticks k"
  "next_tid (switched k) = next_tid k"
  "thread_ticks (switched k) = 0"
  "in_external_intr (switched k) = in_external_intr k"
  "freed_pages (switched k) = freed_pages k"
  by (auto simp: switched_def Let_def)

lemma switched_destruction_req [thread_simps]:
  "destruction_req (switched k) = destruction_req k
     @ (if running k \<noteq> switch_target k \<and> status (threads k (running k)) = THREAD_DYING
           \<and> running k \<noteq> initial_thread k then [running k] else [])"
  by (auto simp: switched_def Let_def)

lemma unblocked_fields [thread_simps]:
  "running (unblocked t k) = running k"
  "status (threads (unblocked t k) u) = (if u = t then THREAD_READY else status (threads k u))"
  "magic (threads (unblocked t k) u) = magic (threads k u)"
  "alarm (threads (unblocked t k) u) = alarm (threads k u)"
  "tf (threads (unblocked t k) u) = tf (threads k u)"
  "ready_list (unblocked t k) = ready_list k @ [t]"
  "sleep_list (unblocked t k) = sleep_list k"
  "destruction_req (unblocked t k) = destruction_req k"
  "earliest_wake_up_tick (unblocked t k) = earliest_wake_up_tick k"
  "idle_thread (unblocked t k) = idle_thread k"
  "initial_thread (unblocked t k) = initial_thread k"
  "sleep_tail (unblocked t k) = sleep_tail k"
  "ticks (unblocked t k) = ticks k"
  "if_flag (unblocked t k) = if_flag k"
  "in_external_intr (unblocked t k) = in_external_intr k"
  by (auto simp: unblocked_def)

lemma woken_fields [thread_simps]:
  "running (woken ws k) = running k"
  "status (threads (woken ws k) u) = (if u \<in> set ws then THREAD_READY else status (threads k u))"
  "magic (threads (woken ws k) u) = magic (threads k u)"
  "alarm (threads (woken ws k) u) = alarm (threads k u)"
  "tf (threads (woken ws k) u) = tf (threads k u)"
  "ready_list (woken ws k) = ready_list k @ ws"
  "sleep_list (woken ws k) = sleep_list k"
  "destruction_req (woken ws k) = destruction_req k"
  "earliest_wake_up_tick (woken ws k) = earliest_wake_up_tick k"
  "idle_thread (woken ws k) = idle_thread k"
  "initial_thread (woken ws k) = initial_thread k"
  "sleep_tail (woken ws k) = sleep_tail k"
  "ticks (woken ws k) = ticks k"
  "if_flag (woken ws k) = if_flag k"
  "in_external_intr (woken ws k) = in_external_intr k"
  by (auto simp: woken_def)

lemma free_thread_pages_eq:
  "fold free_thread_page ds k =
     k\<lparr>freed_pages := freed_pages k @ ds,
       threads := (\<lambda>t. if t \<in> set ds then (threads k t)\<lparr>magic := 0xcccccccc\<rparr> else threads k t)\<rparr>"
proof (induction ds arbitrary: k)
  case (Cons d ds)
  show ?case unfolding fold_Cons o_apply Cons
    by (rule kernel.equality) (auto simp: free_thread_page_def upd_thread_def)
qed simp

lemma free_victims_eq:
  "free_victims k =
     k\<lparr>destruction_req := [], freed_pages := freed_pages k @ destruction_req k,
       threads := (\<lambda>t. if t \<in> set (destruction_req k) then (threads k t)\<lparr>magic := 0xcccccccc\<rparr> else threads k t)\<rparr>"
  by (simp add: free_victims_def free_thread_pages_eq cong: if_cong)

lemma free_victims_fields [thread_simps]:
  "running (free_victims k) = running k"
  "status (threads (free_victims k) u) = status (threads k u)"
  "magic (threads (free_victims k) u) = (if u \<in> set (destruction_req k) then 0xcccccccc else magic (threads k u))"
  "alarm (threads (free_victims k) u) = alarm (threads k u)"
  "tf (threads (free_victims k) u) = tf (threads k u)"
  "ready_list (free_victims k) = ready_list k"
  "sleep_list (free_victims k) = sleep_list k"
  "destruction_req (free_victims k) = []"
  "earliest_wake_up_tick (free_victims k) = earliest_wake_up_tick k"
  "idle_thread (free_victims k) = idle_thread k"
  "initial_thread (free_victims k) = initial_thread k"
  "sleep_tail (free_victims k) = sleep_tail k"
  "ticks (free_victims k) = ticks k"
  "next_tid (free_victims k) = next_tid k"
  "if_flag (free_victims k) = if_flag k"
  "in_external_intr (free_victims k) = in_external_intr k"
  "freed_pages (free_victims k) = freed_pages k @ destruction_req k"
  by (auto simp: free_victims_eq)

lemma set_status_fields [thread_simps]:
  "running (set_status t s k) = running k"
  "status (threads (set_status t s k) u) = (if u = t then s else status (threads k u))"
  "magic (threads (set_status t s k) u) = magic (threads k u)"
  "alarm (threads (set_status t s k) u) = alarm (threads k u)"
  "tf (threads (set_status t s k) u) = tf (threads k u)"
  "ready_list (set_status t s k) = ready_list k"
  "sleep_list (set_status t s k) = sleep_list k"
  "destruction_req (set_status t s k) = destruction_req k"
  "earliest_wake_up_tick (set_status t s k) = earliest_wake_up_tick k"
  "idle_thread (set_status t s k) = idle_thread k"
  "initial_thread (set_status t s k) = initial_thread k"
  "sleep_tail (set_status t s k) = sleep_tail k"
  "ticks (set_status t s k) = ticks k"
  "next_tid (set_status t s k) = next_tid k"
  "if_flag (set_status t s k) = if_flag k"
  "in_external_intr (set_status t s k) = in_external_intr k"
  "switch_target (set_status t s k) = switch_target k"
  by (auto simp: set_status_def upd_thread_def switch_target_def split: list.splits)

subsection \<open>The invariant of the thread table and the queues\<close>

text \<open>
  \<open>W t\<close> says that thread \<open>t\<close> is on the wait list of some semaphore; the wait lists are part of the
  state of theory \<open>Synch\<close>. The invariant says that the list element of a thread is on at most one
  list and which list that is by its status, that exactly the current thread is running,
  that the threads queued are live, and that the sleepers are in the order of their alarms with
  the earliest alarm recorded.
\<close>

definition queues_distinct :: "'a kernel_scheme \<Rightarrow> bool" where
  "queues_distinct k \<longleftrightarrow> distinct (ready_list k) \<and> distinct (sleep_list k) \<and> distinct (destruction_req k)"

definition ready_ok :: "'a kernel_scheme \<Rightarrow> bool" where
  "ready_ok k \<longleftrightarrow> (\<forall>t \<in> set (ready_list k). is_thread k t \<and> status (threads k t) = THREAD_READY)"

definition ready_complete :: "'a kernel_scheme \<Rightarrow> bool" where
  "ready_complete k \<longleftrightarrow>
     (\<forall>t. is_thread k t \<and> status (threads k t) = THREAD_READY \<and> t \<noteq> idle_thread k \<longrightarrow> t \<in> set (ready_list k))"

definition sleep_ok :: "(ptr \<Rightarrow> bool) \<Rightarrow> 'a kernel_scheme \<Rightarrow> bool" where
  "sleep_ok W k \<longleftrightarrow>
     (\<forall>t \<in> set (sleep_list k). is_thread k t \<and> status (threads k t) = THREAD_BLOCKED \<and> \<not> W t)"

definition wait_ok :: "(ptr \<Rightarrow> bool) \<Rightarrow> 'a kernel_scheme \<Rightarrow> bool" where
  "wait_ok W k \<longleftrightarrow> (\<forall>t. W t \<longrightarrow> is_thread k t \<and> status (threads k t) = THREAD_BLOCKED)"

definition dying_ok :: "'a kernel_scheme \<Rightarrow> bool" where
  "dying_ok k \<longleftrightarrow> (\<forall>t \<in> set (destruction_req k). is_thread k t \<and> status (threads k t) = THREAD_DYING)"

definition running_ok :: "'a kernel_scheme \<Rightarrow> bool" where
  "running_ok k \<longleftrightarrow> is_thread k (running k) \<and> status (threads k (running k)) = THREAD_RUNNING
     \<and> (\<forall>t. is_thread k t \<and> t \<noteq> running k \<longrightarrow> status (threads k t) \<noteq> THREAD_RUNNING)"

definition idle_ok :: "(ptr \<Rightarrow> bool) \<Rightarrow> 'a kernel_scheme \<Rightarrow> bool" where
  "idle_ok W k \<longleftrightarrow> is_thread k (idle_thread k) \<and> idle_thread k \<notin> set (ready_list k)
     \<and> idle_thread k \<notin> set (sleep_list k) \<and> \<not> W (idle_thread k)
     \<and> status (threads k (idle_thread k)) \<noteq> THREAD_DYING"

definition alarms_ok :: "'a kernel_scheme \<Rightarrow> bool" where
  "alarms_ok k \<longleftrightarrow> sorted_wrt (\<lambda>x y. alarm (threads k x) \<le> alarm (threads k y)) (sleep_list k)
     \<and> sleep_tail k \<le> INT64_MAX
     \<and> (sleep_list k = [] \<longrightarrow> sleep_tail k \<le> earliest_wake_up_tick k)
     \<and> (sleep_list k \<noteq> [] \<longrightarrow> earliest_wake_up_tick k \<le> alarm (threads k (hd (sleep_list k)))
          \<and> (earliest_wake_up_tick k = alarm (threads k (hd (sleep_list k))) \<or> sleep_tail k \<le> earliest_wake_up_tick k))"

definition threads_ok :: "(ptr \<Rightarrow> bool) \<Rightarrow> 'a kernel_scheme \<Rightarrow> bool" where
  "threads_ok W k \<longleftrightarrow> queues_distinct k \<and> ready_ok k \<and> ready_complete k \<and> sleep_ok W k \<and> wait_ok W k
     \<and> dying_ok k \<and> running_ok k \<and> idle_ok W k \<and> alarms_ok k"

lemma threads_okI:
  "queues_distinct k \<Longrightarrow> ready_ok k \<Longrightarrow> ready_complete k \<Longrightarrow> sleep_ok W k \<Longrightarrow> wait_ok W k \<Longrightarrow>
   dying_ok k \<Longrightarrow> running_ok k \<Longrightarrow> idle_ok W k \<Longrightarrow> alarms_ok k \<Longrightarrow> threads_ok W k"
  by (simp add: threads_ok_def)

lemma threads_ok_current: "threads_ok W k \<Longrightarrow> thread_current k = Some (running k)"
  by (simp add: threads_ok_def running_ok_def thread_current_def running_thread_def)

lemma threads_ok_running: "threads_ok W k \<Longrightarrow> is_thread k (running k) \<and> running k \<noteq> NULL
    \<and> status (threads k (running k)) = THREAD_RUNNING"
  by (simp add: threads_ok_def running_ok_def is_thread_def)

lemma threads_ok_target: "threads_ok W k \<Longrightarrow> is_thread k (switch_target k)"
  by (simp add: threads_ok_def ready_ok_def idle_ok_def switch_target_def split: list.splits)

lemma switch_target_cases:
  obtains (idle) "ready_list k = []" "switch_target k = idle_thread k"
  | (ready) t r where "ready_list k = t # r" "switch_target k = t"
  by (cases "ready_list k") (auto simp: switch_target_def)

lemma is_thread_simps [thread_simps]:
  "is_thread (switched k) t = is_thread k t"
  "is_thread (unblocked u k) t = is_thread k t"
  "is_thread (woken ws k) t = is_thread k t"
  "is_thread (set_status u s k) t = is_thread k t"
  "is_thread (free_victims k) t \<longleftrightarrow> is_thread k t \<and> t \<notin> set (destruction_req k)"
  by (auto simp: is_thread_def thread_simps THREAD_MAGIC_def)

text \<open>The assertions on the way to a switch hold when the current thread and the next one are live.\<close>

lemma thread_block_eq:
  assumes "\<not> in_external_intr k" and "\<not> if_flag k" and "is_thread k (running k)"
    and "status (threads k (running k)) = THREAD_RUNNING" and "is_thread k (switch_target k)"
  shows "thread_block k = Some (switched (set_status (running k) THREAD_BLOCKED k))"
proof -
  have "schedule (set_status (running k) THREAD_BLOCKED k) = Some (switched (set_status (running k) THREAD_BLOCKED k))"
    using assms by (intro schedule_eq) (auto simp: thread_simps is_thread_def)
  then show ?thesis using assms
    by (simp add: thread_block_def thread_current_def running_thread_def intr_defs)
qed

lemma do_schedule_eq:
  assumes "\<not> if_flag k" and "is_thread k (running k)" and "running k \<notin> set (destruction_req k)"
    and "status (threads k (running k)) = THREAD_RUNNING" and "s \<noteq> THREAD_RUNNING"
    and "is_thread k (switch_target k)" and "switch_target k \<notin> set (destruction_req k)"
  shows "do_schedule s k = Some (switched (set_status (running k) s (free_victims k)))"
proof -
  have t: "switch_target (free_victims k) = switch_target k"
    by (simp add: switch_target_def thread_simps split: list.splits)
  have "schedule (set_status (running k) s (free_victims k))
      = Some (switched (set_status (running k) s (free_victims k)))"
    using assms t by (intro schedule_eq) (auto simp: thread_simps is_thread_def THREAD_MAGIC_def)
  then show ?thesis using assms
    by (simp add: do_schedule_def thread_current_def running_thread_def intr_defs thread_simps)
qed

text \<open>
  Switching away from the current thread, whose status becomes \<open>s\<close>. It must be on the run queue exactly
  when it stays ready; the set \<open>W'\<close> of waiting threads may now include it.
\<close>

lemma threads_ok_switch:
  assumes ok: "threads_ok W k" and "\<not> in_external_intr k"
    and s: "s = THREAD_BLOCKED \<or> s = THREAD_DYING \<and> running k \<noteq> idle_thread k"
    and W': "\<And>t. W' t \<longleftrightarrow> W t \<or> t = running k \<and> w"
    and w: "w \<Longrightarrow> s = THREAD_BLOCKED \<and> running k \<noteq> idle_thread k"
  shows "threads_ok W' (switched (set_status (running k) s k))"
proof -
  note c = ok [unfolded threads_ok_def]
  let ?k = "switched (set_status (running k) s k)"
  have t: "switch_target k = running k \<Longrightarrow> running k = idle_thread k"
    using c by (cases k rule: switch_target_cases) (auto simp: running_ok_def ready_ok_def)
  have run: "running k \<notin> set (ready_list k)" "running k \<notin> set (sleep_list k)" "\<not> W (running k)"
      "running k \<notin> set (destruction_req k)"
    using c by (auto simp: ready_ok_def running_ok_def sleep_ok_def wait_ok_def dying_ok_def)
  have tgt: "switch_target k \<notin> set (sleep_list k)" "\<not> W (switch_target k)"
      "switch_target k \<notin> set (destruction_req k)"
    using c by (cases k rule: switch_target_cases; auto simp: ready_ok_def idle_ok_def sleep_ok_def wait_ok_def dying_ok_def)+
  show ?thesis
  proof (rule threads_okI)
    show "queues_distinct ?k" using c run by (auto simp: queues_distinct_def thread_simps distinct_tl)
    show "ready_ok ?k" using c run
      by (cases k rule: switch_target_cases)
         (auto simp: ready_ok_def queues_distinct_def thread_simps)
    show "ready_complete ?k" using c s
      by (cases k rule: switch_target_cases) (auto simp: ready_complete_def thread_simps)
    show "sleep_ok W' ?k" using c run tgt W' by (auto simp: sleep_ok_def thread_simps)
    show "wait_ok W' ?k" using c run tgt W' w t threads_ok_running [OF ok] by (auto simp: wait_ok_def thread_simps)
    show "dying_ok ?k" using c tgt run by (auto simp: dying_ok_def running_ok_def thread_simps)
    show "running_ok ?k" using c s threads_ok_target [OF ok] by (auto simp: running_ok_def thread_simps)
    show "idle_ok W' ?k" using c s W' w
      by (cases k rule: switch_target_cases) (auto simp: idle_ok_def thread_simps)
    show "alarms_ok ?k" using c by (simp add: alarms_ok_def thread_simps)
  qed
qed

lemma threads_ok_no_victim:
  assumes "threads_ok W k"
  shows "running k \<notin> set (destruction_req k)" and "switch_target k \<notin> set (destruction_req k)"
    and "running k \<notin> set (ready_list k)" and "running k \<notin> set (sleep_list k)" and "\<not> W (running k)"
proof -
  note c = assms [unfolded threads_ok_def]
  show "running k \<notin> set (destruction_req k)" "running k \<notin> set (ready_list k)"
      "running k \<notin> set (sleep_list k)" "\<not> W (running k)"
    using c by (auto simp: ready_ok_def running_ok_def sleep_ok_def wait_ok_def dying_ok_def)
  show "switch_target k \<notin> set (destruction_req k)"
    using c by (cases k rule: switch_target_cases) (auto simp: ready_ok_def idle_ok_def dying_ok_def)
qed

lemma threads_ok_free_victims: "threads_ok W k \<Longrightarrow> threads_ok W (free_victims k)"
proof -
  assume ok: "threads_ok W k"
  note c = ok [unfolded threads_ok_def]
  have d: "t \<notin> set (destruction_req k)" if "status (threads k t) \<noteq> THREAD_DYING" for t
    using c that by (auto simp: dying_ok_def)
  show ?thesis
  proof (rule threads_okI)
    show "queues_distinct (free_victims k)" using c by (simp add: queues_distinct_def thread_simps)
    show "ready_ok (free_victims k)" using c d by (auto simp: ready_ok_def thread_simps)
    show "ready_complete (free_victims k)" using c by (auto simp: ready_complete_def thread_simps)
    show "sleep_ok W (free_victims k)" using c d by (auto simp: sleep_ok_def thread_simps)
    show "wait_ok W (free_victims k)" using c d by (auto simp: wait_ok_def thread_simps)
    show "dying_ok (free_victims k)" by (simp add: dying_ok_def thread_simps)
    show "running_ok (free_victims k)" using c d [of "running k"] by (auto simp: running_ok_def thread_simps)
    show "idle_ok W (free_victims k)" using c d [of "idle_thread k"] by (auto simp: idle_ok_def thread_simps)
    show "alarms_ok (free_victims k)" using c by (simp add: alarms_ok_def thread_simps split: list.splits)
  qed
qed

text \<open>Fields that the invariant does not mention.\<close>

lemma threads_ok_update [simp]:
  "threads_ok W (k\<lparr>if_flag := b\<rparr>) = threads_ok W k"
  "threads_ok W (k\<lparr>in_external_intr := b\<rparr>) = threads_ok W k"
  "threads_ok W (k\<lparr>yield_on_return := b\<rparr>) = threads_ok W k"
  "threads_ok W (k\<lparr>port_log := l\<rparr>) = threads_ok W k"
  "threads_ok W (k\<lparr>ticks := n\<rparr>) = threads_ok W k"
  "threads_ok W (k\<lparr>thread_ticks := m\<rparr>) = threads_ok W k"
  "threads_ok W (k\<lparr>idle_ticks := n\<rparr>) = threads_ok W k"
  "threads_ok W (k\<lparr>kernel_ticks := n\<rparr>) = threads_ok W k"
  "threads_ok W (k\<lparr>next_tid := n\<rparr>) = threads_ok W k"
  by (simp_all add: threads_ok_def queues_distinct_def ready_ok_def ready_complete_def sleep_ok_def wait_ok_def
      dying_ok_def running_ok_def idle_ok_def alarms_ok_def is_thread_def)

lemma is_thread_update [simp]:
  "is_thread (k\<lparr>if_flag := b\<rparr>) = is_thread k"
  "is_thread (k\<lparr>ready_list := r\<rparr>) = is_thread k"
  "is_thread (k\<lparr>sleep_list := r\<rparr>) = is_thread k"
  "is_thread (k\<lparr>earliest_wake_up_tick := e\<rparr>) = is_thread k"
  by (simp_all add: is_thread_def fun_eq_iff)

text \<open>\<^verbatim>\<open>thread_exit\<close>: the thread dies and waits for its page to be freed.\<close>

lemma thread_exit_ok:
  assumes ok: "threads_ok W k" and "\<not> in_external_intr k" and "running k \<noteq> idle_thread k"
  shows "thread_exit k = Some (switched (set_status (running k) THREAD_DYING (free_victims (k\<lparr>if_flag := False\<rparr>))))"
    and "threads_ok W (switched (set_status (running k) THREAD_DYING (free_victims (k\<lparr>if_flag := False\<rparr>))))"
proof -
  let ?k = "k\<lparr>if_flag := False\<rparr>"
  have ok': "threads_ok W ?k" using ok by simp
  note v = threads_ok_no_victim [OF ok'] and r = threads_ok_running [OF ok'] and t = threads_ok_target [OF ok']
  show "thread_exit k = Some (switched (set_status (running k) THREAD_DYING (free_victims ?k)))"
    using do_schedule_eq [of ?k THREAD_DYING] v r t assms(2)
    by (simp add: thread_exit_def intr_defs)
  show "threads_ok W (switched (set_status (running k) THREAD_DYING (free_victims ?k)))"
    using threads_ok_switch [OF threads_ok_free_victims [OF ok'], of THREAD_DYING W False] assms(2,3)
    by (simp add: thread_simps)
qed

text \<open>\<^verbatim>\<open>thread_yield\<close>: the thread goes to the back of the run queue, the idle thread does not.\<close>

definition yield_push :: "'a kernel_scheme \<Rightarrow> 'a kernel_scheme" where
  "yield_push k = (if running k \<noteq> idle_thread k
     then k\<lparr>if_flag := False, ready_list := ready_list k @ [running k]\<rparr> else k\<lparr>if_flag := False\<rparr>)"

lemma yield_push_fields [thread_simps]:
  "running (yield_push k) = running k"
  "threads (yield_push k) = threads k"
  "ready_list (yield_push k) = ready_list k @ (if running k \<noteq> idle_thread k then [running k] else [])"
  "sleep_list (yield_push k) = sleep_list k"
  "destruction_req (yield_push k) = destruction_req k"
  "earliest_wake_up_tick (yield_push k) = earliest_wake_up_tick k"
  "idle_thread (yield_push k) = idle_thread k"
  "initial_thread (yield_push k) = initial_thread k"
  "sleep_tail (yield_push k) = sleep_tail k"
  "ticks (yield_push k) = ticks k"
  "next_tid (yield_push k) = next_tid k"
  "if_flag (yield_push k) = False"
  "in_external_intr (yield_push k) = in_external_intr k"
  "is_thread (yield_push k) = is_thread k"
  by (auto simp: yield_push_def)

definition yielded :: "'a kernel_scheme \<Rightarrow> 'a kernel_scheme" where
  "yielded k = switched (set_status (running k) THREAD_READY (free_victims (yield_push k)))"

lemma thread_yield_ok:
  assumes ok: "threads_ok W k" and "\<not> in_external_intr k"
  shows "thread_yield k = Some (intr_get_level k, yielded k)" and "threads_ok W (yielded k)"
proof -
  note c = ok [unfolded threads_ok_def]
  note v = threads_ok_no_victim [OF ok] and r = threads_ok_running [OF ok] and t = threads_ok_target [OF ok]
  let ?k = "yield_push k" and ?y = "free_victims (yield_push k)"
  have tgt: "switch_target ?k = (if ready_list k = [] then (if running k = idle_thread k then idle_thread k else running k)
      else hd (ready_list k))"
    by (auto simp: switch_target_def thread_simps split: list.splits)
  have tgt_in: "switch_target ?k = running k \<or> switch_target ?k = hd (ready_list k) \<and> ready_list k \<noteq> []"
    using tgt by auto
  have nv: "switch_target ?k \<notin> set (destruction_req k)" "is_thread k (switch_target ?k)"
    using tgt_in v r c by (auto simp: ready_ok_def dying_ok_def)
  have "do_schedule THREAD_READY ?k = Some (switched (set_status (running ?k) THREAD_READY (free_victims ?k)))"
    using v r nv by (intro do_schedule_eq) (simp_all add: thread_simps)
  then show "thread_yield k = Some (intr_get_level k, yielded k)"
    using assms(2) threads_ok_current [OF ok]
    by (simp add: thread_yield_def intr_defs yielded_def yield_push_def thread_simps Let_def split: if_splits)
  have tgt': "switch_target ?y = switch_target ?k"
    by (simp add: switch_target_def thread_simps split: list.splits)
  have ty: "switch_target ?y = running k \<or> switch_target ?y = hd (ready_list k) \<and> ready_list k \<noteq> []"
    using tgt_in tgt' by simp
  have ns: "switch_target ?y \<notin> set (sleep_list k)" "\<not> W (switch_target ?y)" "switch_target ?y \<notin> set (destruction_req k)"
    using ty v c by (auto simp: ready_ok_def sleep_ok_def wait_ok_def dying_ok_def)
  show "threads_ok W (yielded k)" unfolding yielded_def
  proof (rule threads_okI)
    let ?k' = "switched (set_status (running k) THREAD_READY ?y)"
    show "queues_distinct ?k'" using c v by (auto simp: queues_distinct_def thread_simps distinct_tl)
    show "ready_ok ?k'"
    proof (cases "ready_list k")
      case Nil
      then show ?thesis by (simp add: ready_ok_def thread_simps)
    next
      case (Cons a l)
      then have "switch_target ?y = a" using tgt tgt' by simp
      then show ?thesis using Cons c v r
        by (auto simp: ready_ok_def queues_distinct_def dying_ok_def thread_simps)
    qed
    show "ready_complete ?k'"
    proof (cases "ready_list k")
      case Nil
      then have "switch_target ?y = running k" using tgt tgt' by simp
      then show ?thesis using Nil c by (auto simp: ready_complete_def thread_simps)
    next
      case (Cons a l)
      then have "switch_target ?y = a" using tgt tgt' by simp
      then show ?thesis using Cons c by (auto simp: ready_complete_def thread_simps)
    qed
    show "sleep_ok W ?k'" using c v ns by (auto simp: sleep_ok_def dying_ok_def thread_simps)
    show "wait_ok W ?k'" using c v ns by (auto simp: wait_ok_def dying_ok_def thread_simps)
    show "dying_ok ?k'" by (simp add: dying_ok_def thread_simps)
    show "running_ok ?k'" using c ns(3) nv(2) tgt' by (auto simp: running_ok_def thread_simps)
    show "idle_ok W ?k'"
    proof (cases "ready_list k")
      case Nil
      then show ?thesis using c v by (auto simp: idle_ok_def dying_ok_def thread_simps)
    next
      case (Cons a l)
      then show ?thesis using c v by (auto simp: idle_ok_def dying_ok_def thread_simps)
    qed
    show "alarms_ok ?k'" using c by (simp add: alarms_ok_def thread_simps)
  qed
qed

text \<open>\<^verbatim>\<open>thread_sleep\<close>: the thread is put on the sleep list in the order of the alarms.\<close>

definition sleep_push :: "int \<Rightarrow> 'a kernel_scheme \<Rightarrow> 'a kernel_scheme" where
  "sleep_push n k =
     (let k = earliest_time n (upd_thread (running k) (\<lambda>th. th\<lparr>alarm := n\<rparr>) (k\<lparr>if_flag := False\<rparr>))
      in k\<lparr>sleep_list := insert_ordered (timer_comparator k) (running k) (sleep_list k)\<rparr>)"

definition slept :: "int \<Rightarrow> 'a kernel_scheme \<Rightarrow> 'a kernel_scheme" where
  "slept n k = switched (set_status (running k) THREAD_BLOCKED (sleep_push n k))"

definition alarm_after :: "int \<Rightarrow> 'a kernel_scheme \<Rightarrow> ptr \<Rightarrow> int" where
  "alarm_after n k t = (if t = running k then n else alarm (threads k t))"

lemma sleep_push_fields [thread_simps]:
  "running (sleep_push n k) = running k"
  "status (threads (sleep_push n k) t) = status (threads k t)"
  "alarm (threads (sleep_push n k) t) = alarm_after n k t"
  "is_thread (sleep_push n k) t = is_thread k t"
  "ready_list (sleep_push n k) = ready_list k"
  "sleep_list (sleep_push n k) =
     insert_ordered (\<lambda>x y. alarm_after n k x \<le> alarm_after n k y) (running k) (sleep_list k)"
  "destruction_req (sleep_push n k) = destruction_req k"
  "earliest_wake_up_tick (sleep_push n k) = min (earliest_wake_up_tick k) n"
  "idle_thread (sleep_push n k) = idle_thread k"
  "initial_thread (sleep_push n k) = initial_thread k"
  "sleep_tail (sleep_push n k) = sleep_tail k"
  "ticks (sleep_push n k) = ticks k"
  "if_flag (sleep_push n k) = False"
  "in_external_intr (sleep_push n k) = in_external_intr k"
  "switch_target (sleep_push n k) = switch_target k"
proof -
  have c: "timer_comparator (earliest_time n (upd_thread (running k) (\<lambda>th. th\<lparr>alarm := n\<rparr>) (k\<lparr>if_flag := False\<rparr>)))
      = (\<lambda>x y. alarm_after n k x \<le> alarm_after n k y)"
    by (auto simp: fun_eq_iff timer_comparator_def earliest_time_def upd_thread_def alarm_after_def)
  show "sleep_list (sleep_push n k) =
     insert_ordered (\<lambda>x y. alarm_after n k x \<le> alarm_after n k y) (running k) (sleep_list k)"
    unfolding sleep_push_def Let_def by (simp add: c) (simp add: earliest_time_def upd_thread_def)
qed (auto simp: sleep_push_def Let_def earliest_time_def upd_thread_def alarm_after_def is_thread_def
      switch_target_def split: list.splits)

lemma sorted_insert_alarm:
  "sorted_wrt (\<lambda>x y. f x \<le> (f y :: int)) xs \<Longrightarrow>
   sorted_wrt (\<lambda>x y. f x \<le> f y) (insert_ordered (\<lambda>x y. f x \<le> f y) e xs)"
proof (induction xs)
  case (Cons x xs)
  then show ?case by (cases "f e \<le> f x") (auto intro: order_trans)
qed simp

lemma hd_insert_ordered:
  "hd (insert_ordered lt e xs) = (if xs = [] \<or> lt e (hd xs) then e else hd xs)"
  "insert_ordered lt e xs \<noteq> []"
  by (cases xs; simp)+

lemma alarm_after_other: "t \<noteq> running k \<Longrightarrow> alarm_after n k t = alarm (threads k t)"
  by (simp add: alarm_after_def)

lemma alarms_ok_sleep:
  assumes "alarms_ok k" and "running k \<notin> set (sleep_list k)"
  shows "alarms_ok (sleep_push n k)"
proof -
  let ?ss = "sleep_list k"
  have other: "\<And>t. t \<in> set ?ss \<Longrightarrow> alarm_after n k t = alarm (threads k t)"
    using assms(2) by (auto simp: alarm_after_def)
  have "sorted_wrt (\<lambda>x y. alarm_after n k x \<le> alarm_after n k y) ?ss"
    using assms(1) other unfolding alarms_ok_def by (auto elim!: sorted_wrt_mono_rel [rotated])
  from sorted_insert_alarm [OF this, of "running k"]
  have srt: "sorted_wrt (\<lambda>x y. alarm (threads (sleep_push n k) x) \<le> alarm (threads (sleep_push n k) y))
      (sleep_list (sleep_push n k))"
    by (simp add: thread_simps)
  have n: "alarm_after n k (running k) = n" by (simp add: alarm_after_def)
  show ?thesis
  proof (cases "?ss = []")
    case True
    then show ?thesis using assms(1) srt by (auto simp: alarms_ok_def thread_simps n min_def)
  next
    case False
    then have "alarm_after n k (hd ?ss) = alarm (threads k (hd ?ss))" by (intro other) simp
    then show ?thesis using assms(1) srt False
      by (auto simp: alarms_ok_def thread_simps n hd_insert_ordered min_def)
  qed
qed

lemma thread_sleep_ok:
  assumes ok: "threads_ok W k" and "\<not> in_external_intr k" and ni: "running k \<noteq> idle_thread k"
  shows "thread_sleep n k = Some (intr_get_level k, slept n k)" and "threads_ok W (slept n k)"
proof -
  note c = ok [unfolded threads_ok_def]
  note v = threads_ok_no_victim [OF ok] and r = threads_ok_running [OF ok] and t = threads_ok_target [OF ok]
  let ?k = "sleep_push n k"
  have "thread_block ?k = Some (switched (set_status (running ?k) THREAD_BLOCKED ?k))"
    using r t assms(2) by (intro thread_block_eq) (simp_all add: thread_simps)
  then show "thread_sleep n k = Some (intr_get_level k, slept n k)"
    using threads_ok_current [OF ok]
    by (simp add: thread_sleep_def slept_def sleep_push_def Let_def intr_disable_def thread_simps upd_thread_def
        earliest_time_def split: if_splits)
  have ns: "switch_target k \<notin> set (sleep_list k)" "\<not> W (switch_target k)" "switch_target k \<noteq> running k"
    using c ni by (cases k rule: switch_target_cases;
        auto simp: ready_ok_def idle_ok_def sleep_ok_def wait_ok_def running_ok_def)+
  show "threads_ok W (slept n k)" unfolding slept_def
  proof (rule threads_okI)
    let ?k' = "switched (set_status (running k) THREAD_BLOCKED ?k)"
    show "queues_distinct ?k'" using c v by (auto simp: queues_distinct_def thread_simps distinct_tl)
    show "ready_ok ?k'" using c v
      by (cases k rule: switch_target_cases) (auto simp: ready_ok_def queues_distinct_def thread_simps)
    show "ready_complete ?k'" using c
      by (cases k rule: switch_target_cases) (auto simp: ready_complete_def thread_simps)
    show "sleep_ok W ?k'" using c v ns r by (auto simp: sleep_ok_def thread_simps)
    show "wait_ok W ?k'" using c v ns by (auto simp: wait_ok_def thread_simps)
    show "dying_ok ?k'" using c v by (auto simp: dying_ok_def thread_simps)
    show "running_ok ?k'" using c t by (auto simp: running_ok_def thread_simps)
    show "idle_ok W ?k'" using c ni
      by (cases k rule: switch_target_cases) (auto simp: idle_ok_def thread_simps)
    have "alarms_ok ?k" using c v by (intro alarms_ok_sleep) auto
    then show "alarms_ok ?k'" by (simp add: alarms_ok_def thread_simps)
  qed
qed

text \<open>\<^verbatim>\<open>thread_wakeup\<close>: the sleepers whose alarm is due, in the order of their alarms.\<close>

definition due :: "int \<Rightarrow> 'a kernel_scheme \<Rightarrow> ptr list" where
  "due n k = takeWhile (\<lambda>t. alarm (threads k t) \<le> n) (sleep_list k)"

definition not_due :: "int \<Rightarrow> 'a kernel_scheme \<Rightarrow> ptr list" where
  "not_due n k = dropWhile (\<lambda>t. alarm (threads k t) \<le> n) (sleep_list k)"

definition first_alarm :: "'a kernel_scheme \<Rightarrow> ptr list \<Rightarrow> int" where
  "first_alarm k ss = (if ss = [] then sleep_tail k else alarm (threads k (hd ss)))"

definition alarmed :: "int \<Rightarrow> 'a kernel_scheme \<Rightarrow> 'a kernel_scheme" where
  "alarmed n k = (woken (due n k) k)\<lparr>sleep_list := not_due n k,
     earliest_wake_up_tick := (if sleep_list k = [] then INT64_MAX
        else if due n k = [] then earliest_wake_up_tick k else first_alarm k (not_due n k))\<rparr>"

lemma thread_wakeup_loop_eq:
  assumes "sleep_list k = ws @ rest" and "distinct ws" and "\<not> if_flag k"
    and "\<forall>t \<in> set ws. is_thread k t \<and> status (threads k t) = THREAD_BLOCKED \<and> alarm (threads k t) \<le> n"
    and "n < first_alarm k rest"
    and "ws \<noteq> [] \<Longrightarrow> earliest_wake_up_tick k \<le> n"
    and "ws = [] \<Longrightarrow> n < earliest_wake_up_tick k"
  shows "thread_wakeup_loop n k = Some ((woken ws k)\<lparr>sleep_list := rest,
           earliest_wake_up_tick := (if ws = [] then earliest_wake_up_tick k else first_alarm k rest)\<rparr>)"
  using assms
proof (induction ws arbitrary: k)
  case Nil
  then show ?case by (subst thread_wakeup_loop.simps) (simp add: woken_def)
next
  case (Cons t ws)
  let ?k1 = "unblocked t (k\<lparr>sleep_list := ws @ rest\<rparr>)"
  let ?k2 = "?k1\<lparr>earliest_wake_up_tick := front_alarm ?k1\<rparr>"
  have u: "thread_unblock t (k\<lparr>sleep_list := ws @ rest\<rparr>) = Some ?k1"
    using Cons.prems by (intro thread_unblock_eq) simp_all
  have fa: "front_alarm ?k1 = first_alarm k (ws @ rest)"
    by (auto simp: front_alarm_def first_alarm_def thread_simps split: list.splits)
  have fa2: "first_alarm ?k2 rest = first_alarm k rest"
    by (simp add: first_alarm_def thread_simps)
  have IH: "thread_wakeup_loop n ?k2 = Some ((woken ws ?k2)\<lparr>sleep_list := rest,
      earliest_wake_up_tick := (if ws = [] then earliest_wake_up_tick ?k2 else first_alarm ?k2 rest)\<rparr>)"
  proof (rule Cons.IH)
    show "ws \<noteq> [] \<Longrightarrow> earliest_wake_up_tick ?k2 \<le> n" using Cons.prems(4) fa by (simp add: first_alarm_def)
    show "ws = [] \<Longrightarrow> n < earliest_wake_up_tick ?k2" using Cons.prems(5) fa by simp
    show "n < first_alarm ?k2 rest" using Cons.prems(5) fa2 by simp
  qed (use Cons.prems in \<open>auto simp: thread_simps is_thread_def\<close>)
  have "thread_wakeup_loop n k = thread_wakeup_loop n ?k2"
    using Cons.prems(1,6) u by (subst thread_wakeup_loop.simps) simp
  also have "\<dots> = Some ((woken (t # ws) k)\<lparr>sleep_list := rest,
           earliest_wake_up_tick := first_alarm k rest\<rparr>)"
    unfolding IH unfolding fa2 option.inject fa
    by (rule kernel.equality) (auto simp: woken_def unblocked_def fun_eq_iff first_alarm_def)
  finally show ?case by simp
qed

lemma due_not_due: "due n k @ not_due n k = sleep_list k"
  by (simp add: due_def not_due_def)

lemma due_sorted:
  assumes "alarms_ok k"
  shows "set (due n k) = {t \<in> set (sleep_list k). alarm (threads k t) \<le> n}"
    and "\<forall>t \<in> set (not_due n k). n < alarm (threads k t)"
proof -
  have srt: "sorted_wrt (\<lambda>x y. alarm (threads k x) \<le> alarm (threads k y)) (sleep_list k)"
    using assms by (simp add: alarms_ok_def)
  have "(\<forall>t \<in> set (dropWhile (\<lambda>t. alarm (threads k t) \<le> n) xs). n < alarm (threads k t))"
    if "sorted_wrt (\<lambda>x y. alarm (threads k x) \<le> alarm (threads k y)) xs" for xs
    using that by (induction xs) auto
  from this [OF srt] show nd: "\<forall>t \<in> set (not_due n k). n < alarm (threads k t)" by (simp add: not_due_def)
  have "set (sleep_list k) = set (due n k) \<union> set (not_due n k)"
    using due_not_due [of n k] by (metis set_append)
  moreover have "\<forall>t \<in> set (due n k). alarm (threads k t) \<le> n"
    by (auto simp: due_def dest: set_takeWhileD)
  ultimately show "set (due n k) = {t \<in> set (sleep_list k). alarm (threads k t) \<le> n}"
    using nd by force
qed

lemma thread_wakeup_eq:
  assumes "queues_distinct k" and "sleep_ok W k" and al: "alarms_ok k" and "\<not> if_flag k" and "n < sleep_tail k"
  shows "thread_wakeup n k = Some (alarmed n k)"
proof (cases "sleep_list k = []")
  case True
  then show ?thesis
    by (auto simp: thread_wakeup_def alarmed_def due_def not_due_def woken_def intro: kernel.equality)
next
  case False
  have first: "earliest_wake_up_tick k \<le> n \<longleftrightarrow> due n k \<noteq> []"
    using al assms(5) False by (cases "sleep_list k") (auto simp: alarms_ok_def due_def)
  have "thread_wakeup_loop n k = Some ((woken (due n k) k)\<lparr>sleep_list := not_due n k,
      earliest_wake_up_tick := (if due n k = [] then earliest_wake_up_tick k else first_alarm k (not_due n k))\<rparr>)"
  proof (rule thread_wakeup_loop_eq)
    show "sleep_list k = due n k @ not_due n k" by (simp add: due_not_due)
    then show "distinct (due n k)" using assms(1) by (metis distinct_append queues_distinct_def)
    show "\<forall>t \<in> set (due n k). is_thread k t \<and> status (threads k t) = THREAD_BLOCKED \<and> alarm (threads k t) \<le> n"
      using assms(2) due_sorted(1) [OF al, of n] by (auto simp: sleep_ok_def)
    show "n < first_alarm k (not_due n k)"
      using assms(5) due_sorted(2) [OF al, of n] by (auto simp: first_alarm_def)
    show "due n k \<noteq> [] \<Longrightarrow> earliest_wake_up_tick k \<le> n" using first by simp
    show "due n k = [] \<Longrightarrow> n < earliest_wake_up_tick k" using first by linarith
  qed fact
  then show ?thesis using False by (simp add: thread_wakeup_def alarmed_def)
qed

lemma alarmed_fields [thread_simps]:
  "running (alarmed n k) = running k"
  "status (threads (alarmed n k) t) = (if t \<in> set (due n k) then THREAD_READY else status (threads k t))"
  "alarm (threads (alarmed n k) t) = alarm (threads k t)"
  "is_thread (alarmed n k) t = is_thread k t"
  "ready_list (alarmed n k) = ready_list k @ due n k"
  "sleep_list (alarmed n k) = not_due n k"
  "destruction_req (alarmed n k) = destruction_req k"
  "idle_thread (alarmed n k) = idle_thread k"
  "initial_thread (alarmed n k) = initial_thread k"
  "sleep_tail (alarmed n k) = sleep_tail k"
  "ticks (alarmed n k) = ticks k"
  "if_flag (alarmed n k) = if_flag k"
  "in_external_intr (alarmed n k) = in_external_intr k"
  "yield_on_return (alarmed n k) = yield_on_return k"
  by (auto simp: alarmed_def thread_simps is_thread_def) (simp_all add: woken_def)

lemma threads_ok_alarmed:
  assumes ok: "threads_ok W k" and "n < sleep_tail k"
  shows "threads_ok W (alarmed n k)"
proof -
  note c = ok [unfolded threads_ok_def]
  have al: "alarms_ok k" using c by simp
  have d: "set (due n k) \<subseteq> set (sleep_list k)" "set (not_due n k) \<subseteq> set (sleep_list k)"
    by (auto simp: due_def not_due_def dest: set_takeWhileD set_dropWhileD)
  have dist: "distinct (due n k)" "distinct (not_due n k)" "set (due n k) \<inter> set (not_due n k) = {}"
    using c due_not_due [of n k] unfolding queues_distinct_def by (metis distinct_append)+
  have sub: "t \<in> set (sleep_list k)" if "t \<in> set (due n k)" for t using d(1) that by blast
  show ?thesis
  proof (rule threads_okI)
    have "set (ready_list k) \<inter> set (due n k) = {}"
      using c sub unfolding ready_ok_def sleep_ok_def by fastforce
    then show "queues_distinct (alarmed n k)" using c dist
      by (auto simp: queues_distinct_def thread_simps)
    show "ready_ok (alarmed n k)" using c d(1) by (auto simp: ready_ok_def sleep_ok_def thread_simps)
    show "ready_complete (alarmed n k)" using c by (auto simp: ready_complete_def thread_simps)
    show "sleep_ok W (alarmed n k)" using c d(2) dist(3) by (auto simp: sleep_ok_def thread_simps)
    show "wait_ok W (alarmed n k)" using c d(1) by (auto simp: wait_ok_def sleep_ok_def thread_simps)
    show "dying_ok (alarmed n k)" using c d(1) by (fastforce simp: dying_ok_def sleep_ok_def thread_simps)
    show "running_ok (alarmed n k)" using c d(1) by (auto simp: running_ok_def sleep_ok_def thread_simps)
    show "idle_ok W (alarmed n k)" using c d by (auto simp: idle_ok_def thread_simps)
    have "sorted_wrt (\<lambda>x y. alarm (threads k x) \<le> alarm (threads k y)) (not_due n k)"
      using al by (auto simp: alarms_ok_def not_due_def sorted_wrt_dropWhile)
    then show "alarms_ok (alarmed n k)"
    proof (cases "due n k = []")
      case True
      then have "not_due n k = sleep_list k" using due_not_due [of n k] by simp
      then show ?thesis using al True by (auto simp: alarms_ok_def thread_simps alarmed_def)
    next
      case False
      then have "sleep_list k \<noteq> []" by (auto simp: due_def)
      then show ?thesis using al False \<open>sorted_wrt _ (not_due n k)\<close>
        by (auto simp: alarms_ok_def thread_simps alarmed_def first_alarm_def)
    qed
  qed
qed

text \<open>The timer interrupt through the dispatcher.\<close>

definition ticked :: "'a kernel_scheme \<Rightarrow> 'a kernel_scheme" where
  "ticked k =
     (let k = k\<lparr>ticks := s64 (ticks k + 1)\<rparr>;
          k = (if running k = idle_thread k then k\<lparr>idle_ticks := s64 (idle_ticks k + 1)\<rparr>
               else k\<lparr>kernel_ticks := s64 (kernel_ticks k + 1)\<rparr>);
          n = Suc (thread_ticks k) mod 2 ^ 32
      in if TIME_SLICE \<le> n then k\<lparr>thread_ticks := n, yield_on_return := True\<rparr> else k\<lparr>thread_ticks := n\<rparr>)"

lemma ticked_fields [thread_simps]:
  "running (ticked k) = running k"
  "threads (ticked k) = threads k"
  "ready_list (ticked k) = ready_list k"
  "sleep_list (ticked k) = sleep_list k"
  "destruction_req (ticked k) = destruction_req k"
  "earliest_wake_up_tick (ticked k) = earliest_wake_up_tick k"
  "idle_thread (ticked k) = idle_thread k"
  "initial_thread (ticked k) = initial_thread k"
  "sleep_tail (ticked k) = sleep_tail k"
  "ticks (ticked k) = s64 (ticks k + 1)"
  "if_flag (ticked k) = if_flag k"
  "in_external_intr (ticked k) = in_external_intr k"
  "thread_ticks (ticked k) = Suc (thread_ticks k) mod 2 ^ 32"
  "yield_on_return (ticked k) \<longleftrightarrow> yield_on_return k \<or> TIME_SLICE \<le> Suc (thread_ticks k) mod 2 ^ 32"
  "is_thread (ticked k) = is_thread k"
  by (auto simp: ticked_def Let_def is_thread_def)

lemma threads_ok_ticked: "threads_ok W (ticked k) = threads_ok W k"
  by (simp add: ticked_def Let_def)

lemma thread_tick_eq:
  assumes "threads_ok W k" and "in_external_intr k"
  shows "thread_tick (k\<lparr>ticks := s64 (ticks k + 1)\<rparr>) = Some (ticked k)"
proof -
  have "threads_ok W (k\<lparr>ticks := s64 (ticks k + 1)\<rparr>)" using assms(1) by simp
  from threads_ok_current [OF this] show ?thesis using assms(2)
    by (auto simp: thread_tick_def ticked_def Let_def intr_yield_on_return_def intr_context_def)
qed

lemma timer_interrupt_eq:
  assumes "threads_ok W k" and "in_external_intr k" and "\<not> if_flag k" and "s64 (ticks k + 1) < sleep_tail k"
  shows "timer_interrupt k = Some (alarmed (s64 (ticks k + 1)) (ticked k))"
proof -
  have "threads_ok W (ticked k)" using assms(1) by (simp add: threads_ok_ticked)
  then have "thread_wakeup (s64 (ticks k + 1)) (ticked k) = Some (alarmed (s64 (ticks k + 1)) (ticked k))"
    using assms(3,4) by (intro thread_wakeup_eq) (auto simp: threads_ok_def thread_simps)
  then show ?thesis using thread_tick_eq [OF assms(1,2)]
    by (simp add: timer_interrupt_def thread_simps)
qed

definition timer_done :: "'a kernel_scheme \<Rightarrow> 'a kernel_scheme" where
  "timer_done k =
     (let k' = alarmed (s64 (ticks k + 1)) (ticked (k\<lparr>in_external_intr := True, yield_on_return := False\<rparr>))
      in k'\<lparr>in_external_intr := False, port_log := port_log k' @ [(0x20, 0x20)]\<rparr>)"

lemma timer_done_ok:
  assumes ok: "threads_ok W k" and "s64 (ticks k + 1) < sleep_tail k"
  shows "threads_ok W (timer_done k)" and "\<not> in_external_intr (timer_done k)"
proof -
  have "threads_ok W (ticked (k\<lparr>in_external_intr := True, yield_on_return := False\<rparr>))"
    using ok by (simp add: threads_ok_ticked)
  then show "threads_ok W (timer_done k)"
    using assms(2) by (simp add: timer_done_def Let_def threads_ok_alarmed thread_simps)
  show "\<not> in_external_intr (timer_done k)" by (simp add: timer_done_def Let_def)
qed

lemma timer_dispatch_eq:
  assumes ok: "threads_ok W k" and "\<not> in_external_intr k" and "\<not> if_flag k"
    and "s64 (ticks k + 1) < sleep_tail k"
  shows "intr_handler 0x20 (Some timer_interrupt) k =
           (if yield_on_return (timer_done k) then Some (Some INTR_OFF, yielded (timer_done k))
            else Some (None, timer_done k))"
proof -
  let ?k = "k\<lparr>in_external_intr := True, yield_on_return := False\<rparr>"
  have t: "timer_interrupt ?k = Some (alarmed (s64 (ticks k + 1)) (ticked ?k))"
    using timer_interrupt_eq [of W ?k] assms by simp
  have y: "thread_yield (timer_done k) = Some (INTR_OFF, yielded (timer_done k))"
    using thread_yield_ok(1) [OF timer_done_ok [OF ok assms(4)]] assms(3)
    by (simp add: intr_get_level_def timer_done_def Let_def thread_simps)
  show ?thesis using assms(2,3) t y
    by (simp add: intr_handler_def intr_get_level_def intr_context_def pic_end_of_interrupt_def outb_def
        thread_simps timer_done_def Let_def)
qed

subsection \<open>Properties\<close>

text \<open>
  A state to evaluate the properties on: the idle thread at 4096 is blocked, the thread at 8192 runs,
  and those at 12288 and 16384 sleep until ticks 5 and 9.
\<close>

definition demo_thread :: "thread_status \<Rightarrow> int \<Rightarrow> thread" where
  "demo_thread s a = \<lparr>tid = 1, status = s, name = ''t'', priority = PRI_DEFAULT, alarm = a,
     tf = zero_frame, magic = THREAD_MAGIC\<rparr>"

definition demo_kernel :: kernel where
  "demo_kernel = \<lparr>if_flag = False, in_external_intr = False, yield_on_return = False, port_log = [],
     running = 8192,
     threads = (\<lambda>_. (demo_thread THREAD_BLOCKED 0)\<lparr>magic := 0\<rparr>)
        (4096 := demo_thread THREAD_BLOCKED 0, 8192 := demo_thread THREAD_RUNNING 0,
         12288 := demo_thread THREAD_BLOCKED 5, 16384 := demo_thread THREAD_BLOCKED 9),
     ready_list = [], sleep_list = [12288, 16384], destruction_req = [], earliest_wake_up_tick = 5,
     idle_thread = 4096, initial_thread = 8192, idle_ticks = 0, kernel_ticks = 0, thread_ticks = 0,
     next_tid = 5, freed_pages = [], sleep_tail = 549822922768, ticks = 4\<rparr>"

lemma demo_kernel_ok: "threads_ok (\<lambda>_. False) demo_kernel"
  by (rule threads_okI)
     (auto simp: demo_kernel_def demo_thread_def queues_distinct_def ready_ok_def ready_complete_def sleep_ok_def
        wait_ok_def dying_ok_def running_ok_def idle_ok_def alarms_ok_def is_thread_def THREAD_MAGIC_def
        INT64_MAX_def)

text \<open>C12: At a timer tick \<open>n\<close>, \<open>thread_wakeup\<close> readies exactly the sleeping threads whose alarm is at most \<open>n\<close>,
  in the order of their alarms and behind the threads already ready; the others keep sleeping. It
  returns for every state that satisfies the invariant of the thread table, which it preserves,
  as long as the tick count is below the address of the tail of the sleep list.\<close>

theorem thread_wakeup_exact:
  assumes "threads_ok W k" and "\<not> if_flag k" and "n < sleep_tail k"
  shows "\<exists>k' ws. thread_wakeup n k = Some k' \<and> threads_ok W k' \<and> sleep_list k = ws @ sleep_list k'
           \<and> ready_list k' = ready_list k @ ws
           \<and> set ws = {t \<in> set (sleep_list k). alarm (threads k t) \<le> n}
           \<and> (\<forall>t \<in> set ws. status (threads k' t) = THREAD_READY)
           \<and> sorted_wrt (\<lambda>x y. alarm (threads k x) \<le> alarm (threads k y)) ws"
proof -
  have c: "queues_distinct k" "sleep_ok W k" "alarms_ok k" using assms(1) by (simp_all add: threads_ok_def)
  then have "sorted_wrt (\<lambda>x y. alarm (threads k x) \<le> alarm (threads k y)) (due n k)"
    by (auto simp: alarms_ok_def due_def sorted_wrt_takeWhile)
  moreover have "thread_wakeup n k = Some (alarmed n k)" using thread_wakeup_eq [OF c assms(2,3)] .
  ultimately show ?thesis
    using threads_ok_alarmed [OF assms(1,3)] due_sorted(1) [OF c(3), of n] due_not_due [of n k, symmetric]
    by (intro exI [of _ "alarmed n k"] exI [of _ "due n k"]) (simp add: thread_simps)
qed

theorem thread_wakeup_exact_witness:
  "\<exists>k' ws. thread_wakeup 7 demo_kernel = Some k' \<and> set ws = {t \<in> {12288, 16384}. alarm (threads demo_kernel t) \<le> 7}
     \<and> ready_list k' = ws"
proof -
  have "\<not> if_flag demo_kernel" "7 < sleep_tail demo_kernel" by (simp_all add: demo_kernel_def)
  from thread_wakeup_exact [OF demo_kernel_ok this] show ?thesis
    by (auto simp: demo_kernel_def)
qed

text \<open>C13: The scheduler is round robin. When the current thread yields, the thread at the front of the run
  queue runs next and the current one goes to the back of the queue (the idle thread goes nowhere), so the
  threads of the queue are picked in its order; a yielding thread that is alone goes on itself.
  The pages of dead threads are freed on the way, and the invariant is preserved.\<close>

theorem thread_yield_round_robin:
  assumes "threads_ok W k" and "\<not> in_external_intr k"
  shows "\<exists>k'. thread_yield k = Some (intr_get_level k, k') \<and> threads_ok W k'
           \<and> running k' # ready_list k' =
               (if running k = idle_thread k \<and> ready_list k \<noteq> [] then ready_list k
                else ready_list k @ [running k])
           \<and> freed_pages k' = freed_pages k @ destruction_req k \<and> destruction_req k' = []"
proof -
  note ok = thread_yield_ok [OF assms]
  have "running (yielded k) # ready_list (yielded k) =
      (if running k = idle_thread k \<and> ready_list k \<noteq> [] then ready_list k else ready_list k @ [running k])"
    by (cases "ready_list k") (auto simp: yielded_def thread_simps switch_target_def)
  moreover have "freed_pages (yielded k) = freed_pages k @ destruction_req k"
    by (simp add: yielded_def thread_simps) (simp add: set_status_def upd_thread_def yield_push_def free_victims_eq)
  moreover have "destruction_req (yielded k) = []" by (simp add: yielded_def thread_simps)
  ultimately show ?thesis using ok by blast
qed

theorem thread_yield_round_robin_witness:
  "\<exists>k'. thread_yield demo_kernel = Some (INTR_OFF, k') \<and> running k' = 8192"
proof -
  have "\<not> in_external_intr demo_kernel" by (simp add: demo_kernel_def)
  from thread_yield_round_robin [OF demo_kernel_ok this] show ?thesis
    by (auto simp: demo_kernel_def intr_get_level_def)
qed

end
