(* ===== verification/Synch.thy ===== *)
theory Synch
  imports Threads
begin

section \<open>Synchronization primitives (\<^verbatim>\<open>threads/synch.c\<close>) and the code of the threads\<close>

text \<open>
  Semaphores, locks and condition variables, and the operations of \<^verbatim>\<open>threads/thread.c\<close> and
  \<^verbatim>\<open>devices/timer.c\<close> that use them or that block. An operation that may switch to another
  thread in the middle is cut at the points where interrupts are enabled or the switch happens:
  the state keeps, for every thread, the list of the pieces it has still to execute (\<open>code\<close>), and a
  piece that runs may put further pieces in front of it. Between two pieces a timer interrupt
  may come in when interrupts are enabled; a piece itself runs with interrupts disabled, or touches
  shared data in one access only.
\<close>

subsection \<open>State\<close>

record semaphore =
  sema_value :: nat
  waiters :: "ptr list"

text \<open>
  The pieces of code. \<open>Body\<close> is the thread's own function, which may call any operation;
  \<open>Set_level\<close> is the call of \<^verbatim>\<open>intr_set_level\<close> with the level saved before, and \<open>Iret\<close> the end
  of an interrupt handler.
\<close>

datatype instr =
    Sema_down ptr | Sema_loop ptr intr_level | Sema_try_down ptr | Sema_up ptr
  | Lock_acquire ptr | Lock_try_acquire ptr | Set_holder ptr | Lock_release ptr
  | Cond_wait ptr ptr ptr | Cond_signal ptr ptr | Cond_broadcast ptr ptr
  | Thread_create string int "instr list" | Take_tid ptr | Start_thread ptr "instr list" | Kernel_thread "instr list"
  | Thread_yield | Timer_sleep int | Thread_sleep int | Thread_exit
  | Set_level intr_level | Iret | Idle_start ptr | Idle_loop | Sti | Hlt | Body

record sys = kernel +
  semas :: "ptr \<Rightarrow> semaphore"
  lock_holder :: "ptr \<Rightarrow> ptr"
  cond_waiters :: "ptr \<Rightarrow> ptr list"
  code :: "ptr \<Rightarrow> instr list"
  tid_lock :: ptr

text \<open>
  The semaphore inside a \<^verbatim>\<open>struct lock\<close> is behind the holder, the one inside a
  \<^verbatim>\<open>struct semaphore_elem\<close> behind the list element.
\<close>

definition lock_sema :: "ptr \<Rightarrow> ptr" where
  "lock_sema l = l + 8"

definition elem_sema :: "ptr \<Rightarrow> ptr" where
  "elem_sema w = w + 16"

definition push_code :: "ptr \<Rightarrow> instr list \<Rightarrow> sys \<Rightarrow> sys" where
  "push_code t is k = k\<lparr>code := (code k)(t := is @ code k t)\<rparr>"

definition upd_sema :: "ptr \<Rightarrow> (semaphore \<Rightarrow> semaphore) \<Rightarrow> sys \<Rightarrow> sys" where
  "upd_sema s f k = k\<lparr>semas := (semas k)(s := f (semas k s))\<rparr>"

subsection \<open>Semaphores\<close>

definition sema_init :: "ptr \<Rightarrow> nat \<Rightarrow> sys \<Rightarrow> sys option" where
  "sema_init s v k = do {
     ASSERT (s \<noteq> NULL);
     Some (upd_sema s (\<lambda>_. \<lparr>sema_value = v, waiters = []\<rparr>) k)
   }"

definition sema_down :: "ptr \<Rightarrow> sys \<Rightarrow> sys option" where
  "sema_down s k = do {
     ASSERT (s \<noteq> NULL);
     ASSERT (\<not> intr_context k);
     let (old_level, k) = intr_disable k;
     Some (push_code (running k) [Sema_loop s old_level] k)
   }"

text \<open>One evaluation of the loop condition of \<^verbatim>\<open>sema_down\<close>, and what follows it.\<close>

definition sema_down_loop :: "ptr \<Rightarrow> intr_level \<Rightarrow> sys \<Rightarrow> sys option" where
  "sema_down_loop s old_level k =
     (if sema_value (semas k s) = 0 then do {
        t \<leftarrow> thread_current k;
        let k = upd_sema s (\<lambda>x. x\<lparr>waiters := waiters x @ [t]\<rparr>) k;
        let k = push_code (running k) [Sema_loop s old_level] k;
        thread_block k
      } else do {
        let k = upd_sema s (\<lambda>x. x\<lparr>sema_value := sema_value x - 1\<rparr>) k;
        (_, k) \<leftarrow> intr_set_level old_level k;
        Some k
      })"

definition sema_try_down :: "ptr \<Rightarrow> sys \<Rightarrow> (bool \<times> sys) option" where
  "sema_try_down s k = do {
     ASSERT (s \<noteq> NULL);
     let (old_level, k) = intr_disable k;
     let (success, k) = (if sema_value (semas k s) > 0
                         then (True, upd_sema s (\<lambda>x. x\<lparr>sema_value := sema_value x - 1\<rparr>) k)
                         else (False, k));
     (_, k) \<leftarrow> intr_set_level old_level k;
     Some (success, k)
   }"

definition sema_up :: "ptr \<Rightarrow> sys \<Rightarrow> sys option" where
  "sema_up s k = do {
     ASSERT (s \<noteq> NULL);
     let (old_level, k) = intr_disable k;
     k \<leftarrow> (case waiters (semas k s) of
             [] \<Rightarrow> Some k
           | t # rest \<Rightarrow> thread_unblock t (upd_sema s (\<lambda>x. x\<lparr>waiters := rest\<rparr>) k));
     let k = upd_sema s (\<lambda>x. x\<lparr>sema_value := Suc (sema_value x) mod 2 ^ 32\<rparr>) k;
     (_, k) \<leftarrow> intr_set_level old_level k;
     Some k
   }"

subsection \<open>Locks\<close>

definition lock_init :: "ptr \<Rightarrow> sys \<Rightarrow> sys option" where
  "lock_init l k = do {
     ASSERT (l \<noteq> NULL);
     sema_init (lock_sema l) 1 (k\<lparr>lock_holder := (lock_holder k)(l := NULL)\<rparr>)
   }"

definition lock_held_by_current_thread :: "ptr \<Rightarrow> sys \<Rightarrow> bool option" where
  "lock_held_by_current_thread l k = do {
     ASSERT (l \<noteq> NULL);
     t \<leftarrow> thread_current k;
     Some (lock_holder k l = t)
   }"

definition lock_acquire :: "ptr \<Rightarrow> sys \<Rightarrow> sys option" where
  "lock_acquire l k = do {
     ASSERT (l \<noteq> NULL);
     ASSERT (\<not> intr_context k);
     h \<leftarrow> lock_held_by_current_thread l k;
     ASSERT (\<not> h);
     Some (push_code (running k) [Sema_down (lock_sema l), Set_holder l] k)
   }"

definition set_holder :: "ptr \<Rightarrow> sys \<Rightarrow> sys option" where
  "set_holder l k = do {
     t \<leftarrow> thread_current k;
     Some (k\<lparr>lock_holder := (lock_holder k)(l := t)\<rparr>)
   }"

definition lock_try_acquire :: "ptr \<Rightarrow> sys \<Rightarrow> sys option" where
  "lock_try_acquire l k = do {
     ASSERT (l \<noteq> NULL);
     h \<leftarrow> lock_held_by_current_thread l k;
     ASSERT (\<not> h);
     (success, k) \<leftarrow> sema_try_down (lock_sema l) k;
     Some (if success then push_code (running k) [Set_holder l] k else k)
   }"

definition lock_release :: "ptr \<Rightarrow> sys \<Rightarrow> sys option" where
  "lock_release l k = do {
     ASSERT (l \<noteq> NULL);
     h \<leftarrow> lock_held_by_current_thread l k;
     ASSERT h;
     let k = k\<lparr>lock_holder := (lock_holder k)(l := NULL)\<rparr>;
     Some (push_code (running k) [Sema_up (lock_sema l)] k)
   }"

subsection \<open>Condition variables\<close>

definition cond_init :: "ptr \<Rightarrow> sys \<Rightarrow> sys option" where
  "cond_init c k = do {
     ASSERT (c \<noteq> NULL);
     Some (k\<lparr>cond_waiters := (cond_waiters k)(c := [])\<rparr>)
   }"

text \<open>The semaphore element of the waiter is on its stack, at address \<open>w\<close>.\<close>

definition cond_wait :: "ptr \<Rightarrow> ptr \<Rightarrow> ptr \<Rightarrow> sys \<Rightarrow> sys option" where
  "cond_wait c l w k = do {
     ASSERT (c \<noteq> NULL);
     ASSERT (l \<noteq> NULL);
     ASSERT (\<not> intr_context k);
     h \<leftarrow> lock_held_by_current_thread l k;
     ASSERT h;
     k \<leftarrow> sema_init (elem_sema w) 0 k;
     let k = k\<lparr>cond_waiters := (cond_waiters k)(c := cond_waiters k c @ [w])\<rparr>;
     Some (push_code (running k) [Lock_release l, Sema_down (elem_sema w), Lock_acquire l] k)
   }"

definition cond_signal :: "ptr \<Rightarrow> ptr \<Rightarrow> sys \<Rightarrow> sys option" where
  "cond_signal c l k = do {
     ASSERT (c \<noteq> NULL);
     ASSERT (l \<noteq> NULL);
     ASSERT (\<not> intr_context k);
     h \<leftarrow> lock_held_by_current_thread l k;
     ASSERT h;
     (case cond_waiters k c of
        [] \<Rightarrow> Some k
      | w # rest \<Rightarrow>
          Some (push_code (running k) [Sema_up (elem_sema w)]
                  (k\<lparr>cond_waiters := (cond_waiters k)(c := rest)\<rparr>)))
   }"

definition cond_broadcast :: "ptr \<Rightarrow> ptr \<Rightarrow> sys \<Rightarrow> sys option" where
  "cond_broadcast c l k = do {
     ASSERT (c \<noteq> NULL);
     ASSERT (l \<noteq> NULL);
     Some (if cond_waiters k c \<noteq> [] then push_code (running k) [Cond_signal c l, Cond_broadcast c l] k else k)
   }"

subsection \<open>Thread creation, sleeping and the idle thread\<close>

text \<open>
  \<open>page\<close> is the result of \<^verbatim>\<open>palloc_get_page\<close>. The code of the function the thread will execute is
  \<open>body\<close>. The call of \<^verbatim>\<open>allocate_tid\<close> is the three pieces in the middle.
\<close>

definition thread_create :: "ptr \<Rightarrow> string \<Rightarrow> int \<Rightarrow> instr list \<Rightarrow> sys \<Rightarrow> sys option" where
  "thread_create page nm prio body k =
     (if page = NULL then Some k
      else do {
        k \<leftarrow> init_thread page nm prio k;
        Some (push_code (running k)
                [Lock_acquire (tid_lock k), Take_tid page, Lock_release (tid_lock k), Start_thread page body] k)
      })"

definition allocate_tid :: "ptr \<Rightarrow> sys \<Rightarrow> sys option" where
  "allocate_tid page k = (let (n, k) = take_tid k in Some (set_tid page n k))"

text \<open>
  The addresses of \<^verbatim>\<open>kernel_thread\<close>, of the function and of its argument, which the frame records,
  are represented by the pieces of code.
\<close>

definition start_thread :: "ptr \<Rightarrow> instr list \<Rightarrow> sys \<Rightarrow> sys option" where
  "start_thread t body k = do {
     let k = init_frame t 1 1 0 k;
     let k = k\<lparr>code := (code k)(t := [Kernel_thread body])\<rparr>;
     thread_unblock t k
   }"

definition kernel_thread :: "instr list \<Rightarrow> sys \<Rightarrow> sys option" where
  "kernel_thread body k = do {
     (_, k) \<leftarrow> intr_enable k;
     Some (push_code (running k) (body @ [Thread_exit]) k)
   }"

definition timer_ticks :: "'a kernel_scheme \<Rightarrow> (int \<times> 'a kernel_scheme) option" where
  "timer_ticks k = do {
     let (old_level, k) = intr_disable k;
     let t = ticks k;
     (_, k) \<leftarrow> intr_set_level old_level k;
     Some (t, k)
   }"

definition timer_elapsed :: "int \<Rightarrow> 'a kernel_scheme \<Rightarrow> (int \<times> 'a kernel_scheme) option" where
  "timer_elapsed thn k = do { (t, k) \<leftarrow> timer_ticks k; Some (s64 (t - thn), k) }"

definition timer_sleep :: "int \<Rightarrow> sys \<Rightarrow> sys option" where
  "timer_sleep n k = do {
     (start, k) \<leftarrow> timer_ticks k;
     ASSERT (intr_get_level k = INTR_ON);
     Some (push_code (running k) [Thread_sleep (s64 (start + n))] k)
   }"

definition idle_start :: "ptr \<Rightarrow> sys \<Rightarrow> sys option" where
  "idle_start idle_started k = do {
     t \<leftarrow> thread_current k;
     Some (push_code (running k) [Sema_up idle_started, Idle_loop] (k\<lparr>idle_thread := t\<rparr>))
   }"

definition idle_loop :: "sys \<Rightarrow> sys option" where
  "idle_loop k = do {
     let (_, k) = intr_disable k;
     thread_block (push_code (running k) [Sti, Idle_loop] k)
   }"

definition after_switch :: "ptr \<Rightarrow> (intr_level \<times> sys) option \<Rightarrow> sys option" where
  "after_switch t r = do { (old_level, k) \<leftarrow> r; Some (push_code t [Set_level old_level] k) }"

subsection \<open>One piece of code\<close>

fun exec :: "ptr \<Rightarrow> instr \<Rightarrow> sys \<Rightarrow> sys option" where
  "exec page (Sema_down s) k = sema_down s k"
| "exec page (Sema_loop s old_level) k = sema_down_loop s old_level k"
| "exec page (Sema_try_down s) k = do { (_, k) \<leftarrow> sema_try_down s k; Some k }"
| "exec page (Sema_up s) k = sema_up s k"
| "exec page (Lock_acquire l) k = lock_acquire l k"
| "exec page (Lock_try_acquire l) k = lock_try_acquire l k"
| "exec page (Set_holder l) k = set_holder l k"
| "exec page (Lock_release l) k = lock_release l k"
| "exec page (Cond_wait c l w) k = cond_wait c l w k"
| "exec page (Cond_signal c l) k = cond_signal c l k"
| "exec page (Cond_broadcast c l) k = cond_broadcast c l k"
| "exec page (Thread_create nm prio body) k = thread_create page nm prio body k"
| "exec page (Take_tid t) k = allocate_tid t k"
| "exec page (Start_thread t body) k = start_thread t body k"
| "exec page (Kernel_thread body) k = kernel_thread body k"
| "exec page Thread_yield k = after_switch (running k) (thread_yield k)"
| "exec page (Timer_sleep n) k = timer_sleep n k"
| "exec page (Thread_sleep n) k = after_switch (running k) (thread_sleep n k)"
| "exec page Thread_exit k = thread_exit k"
| "exec page (Set_level l) k = do { (_, k) \<leftarrow> intr_set_level l k; Some k }"
| "exec page Iret k = Some (k\<lparr>if_flag := True\<rparr>)"
| "exec page (Idle_start s) k = idle_start s k"
| "exec page Idle_loop k = idle_loop k"
| "exec page Sti k = Some (push_code (running k) [Hlt] (k\<lparr>if_flag := True\<rparr>))"
| "exec page Hlt k = Some k"
| "exec page Body k = Some k"

definition pop_code :: "sys \<Rightarrow> sys" where
  "pop_code k = k\<lparr>code := (code k)(running k := tl (code k (running k)))\<rparr>"

text \<open>
  A timer interrupt: the gate disables interrupts, the dispatcher runs, and the return from the
  interrupt enables them again, at once or when the interrupted thread is scheduled again. A
  halted processor goes on behind the halt instruction.
\<close>

definition timer_irq :: "sys \<Rightarrow> sys option" where
  "timer_irq k = do {
     let t = running k;
     let k = (if code k t \<noteq> [] \<and> hd (code k t) = Hlt then pop_code k else k);
     (r, k) \<leftarrow> intr_handler 0x20 (Some timer_interrupt) (k\<lparr>if_flag := False\<rparr>);
     Some (case r of
             None \<Rightarrow> k\<lparr>if_flag := True\<rparr>
           | Some old_level \<Rightarrow> push_code t [Set_level old_level, Iret] k)
   }"

end
