(* ===== verification/Kernel.thy ===== *)
theory Kernel
  imports Synch
begin

section \<open>The kernel as a state machine\<close>

text \<open>
  The threads, the synchronization primitives and the timer interrupt run together as a step
  relation: the current thread executes its next piece of code, calls an operation, or returns from
  its function, and a timer interrupt comes in whenever interrupts are enabled. The invariant
  \<open>kernel_inv\<close> is shown for every reachable state. It implies that no assertion of the kernel
  fails as long as the callers keep the documented contracts, and that a lock has at most one owner.
\<close>

subsection \<open>The contracts of the operations\<close>

text \<open>
  What a semaphore is used for is fixed: by the threads directly, inside a lock, or inside the
  element that a thread puts on the waiting list of a condition variable.
\<close>

datatype sema_kind = User_sema | Lock_sema | Waiter_sema ptr | No_sema

type_synonym sema_kinds = "ptr \<Rightarrow> sema_kind"

definition is_lock :: "sema_kinds \<Rightarrow> ptr \<Rightarrow> bool" where
  "is_lock K l \<longleftrightarrow> l \<noteq> NULL \<and> lock_sema l \<noteq> NULL \<and> K (lock_sema l) = Lock_sema"

text \<open>
  The contract of a piece of code executed by thread \<open>t\<close> that holds the locks \<open>H\<close>, with interrupts
  enabled or not (\<open>b\<close>): \<open>tk\<close> is the lock of \<^verbatim>\<open>allocate_tid\<close>, \<open>idl\<close> the idle thread.
\<close>

fun contract :: "sema_kinds \<Rightarrow> ptr \<Rightarrow> ptr \<Rightarrow> ptr \<Rightarrow> ptr set \<Rightarrow> bool \<Rightarrow> instr \<Rightarrow> bool" where
  "contract K tk idl t H b (Sema_down s) =
     (s \<noteq> NULL \<and> t \<noteq> idl \<and> (K s = User_sema \<or> K s = Waiter_sema t \<or> K s = Lock_sema))"
| "contract K tk idl t H b (Sema_loop s old) =
     (s \<noteq> NULL \<and> t \<noteq> idl \<and> \<not> b \<and> (K s = User_sema \<or> K s = Waiter_sema t \<or> K s = Lock_sema))"
| "contract K tk idl t H b (Sema_try_down s) = (s \<noteq> NULL \<and> K s = User_sema)"
| "contract K tk idl t H b (Sema_up s) = (s \<noteq> NULL)"
| "contract K tk idl t H b (Lock_acquire l) = (is_lock K l \<and> l \<notin> H \<and> t \<noteq> idl)"
| "contract K tk idl t H b (Lock_try_acquire l) = (is_lock K l \<and> l \<notin> H \<and> l \<noteq> tk \<and> t \<noteq> idl)"
| "contract K tk idl t H b (Set_holder l) = (is_lock K l \<and> l \<notin> H)"
| "contract K tk idl t H b (Lock_release l) = (is_lock K l \<and> l \<in> H)"
| "contract K tk idl t H b (Cond_wait c l w) =
     (c \<noteq> NULL \<and> is_lock K l \<and> l \<in> H \<and> t \<noteq> idl \<and> elem_sema w \<noteq> NULL \<and> K (elem_sema w) = Waiter_sema t)"
| "contract K tk idl t H b (Cond_signal c l) = (c \<noteq> NULL \<and> is_lock K l \<and> l \<in> H)"
| "contract K tk idl t H b (Cond_broadcast c l) = (c \<noteq> NULL \<and> is_lock K l \<and> l \<in> H)"
| "contract K tk idl t H b (Thread_create nm prio body) =
     (PRI_MIN \<le> prio \<and> prio \<le> PRI_MAX \<and> body = [Body] \<and> is_lock K tk \<and> tk \<notin> H \<and> t \<noteq> idl)"
| "contract K tk idl t H b (Take_tid u) = True"
| "contract K tk idl t H b (Start_thread u body) = (body = [Body])"
| "contract K tk idl t H b (Kernel_thread body) = (body = [Body] \<and> tk \<notin> H \<and> t \<noteq> idl)"
| "contract K tk idl t H b Thread_yield = True"
| "contract K tk idl t H b (Timer_sleep n) = (b \<and> t \<noteq> idl)"
| "contract K tk idl t H b (Thread_sleep n) = (t \<noteq> idl)"
| "contract K tk idl t H b Thread_exit = (H = {} \<and> t \<noteq> idl)"
| "contract K tk idl t H b (Set_level l) = True"
| "contract K tk idl t H b Iret = True"
| "contract K tk idl t H b (Idle_start s) = False"
| "contract K tk idl t H b Idle_loop = (t = idl)"
| "contract K tk idl t H b Sti = (t = idl)"
| "contract K tk idl t H b Hlt = (t = idl \<and> b)"
| "contract K tk idl t H b Body = (tk \<notin> H \<and> t \<noteq> idl)"

text \<open>The locks held and the interrupt level behind a piece of code. A thread's function returns with no lock held.\<close>

fun held_after :: "instr \<Rightarrow> ptr set \<Rightarrow> ptr set" where
  "held_after (Lock_acquire l) H = insert l H"
| "held_after (Set_holder l) H = insert l H"
| "held_after (Lock_release l) H = H - {l}"
| "held_after Body H = {}"
| "held_after i H = H"

fun level_after :: "instr \<Rightarrow> bool \<Rightarrow> bool" where
  "level_after (Sema_loop s old) b = (old = INTR_ON)"
| "level_after (Set_level l) b = (l = INTR_ON)"
| "level_after Iret b = True"
| "level_after Sti b = True"
| "level_after (Kernel_thread body) b = True"
| "level_after i b = b"

fun may_follow :: "sema_kinds \<Rightarrow> instr \<Rightarrow> instr list \<Rightarrow> bool" where
  "may_follow K (Sema_down s) is = (K s = Lock_sema \<longrightarrow> is \<noteq> [] \<and> hd is = Set_holder (s - 8))"
| "may_follow K (Sema_loop s old) is = (K s = Lock_sema \<longrightarrow> is \<noteq> [] \<and> hd is = Set_holder (s - 8))"
| "may_follow K (Lock_try_acquire l) is = (is \<noteq> [] \<and> hd is = Body)"
| "may_follow K Body is = (is = [Thread_exit])"
| "may_follow K Thread_exit is = (is = [])"
| "may_follow K (Kernel_thread body) is = (is = [])"
| "may_follow K Idle_loop is = (is = [])"
| "may_follow K Sti is = (is = [Idle_loop])"
| "may_follow K Hlt is = (is = [Idle_loop])"
| "may_follow K i is = True"

primrec code_ok :: "sema_kinds \<Rightarrow> ptr \<Rightarrow> ptr \<Rightarrow> ptr \<Rightarrow> ptr set \<Rightarrow> bool \<Rightarrow> instr list \<Rightarrow> bool" where
  "code_ok K tk idl t H b [] = True"
| "code_ok K tk idl t H b (i # is) =
     (contract K tk idl t H b i \<and> may_follow K i is \<and> code_ok K tk idl t (held_after i H) (level_after i b) is)"

text \<open>The operations that a thread's function may call.\<close>

fun user_call :: "sema_kinds \<Rightarrow> ptr \<Rightarrow> instr \<Rightarrow> bool" where
  "user_call K tk (Sema_down s) = (K s = User_sema)"
| "user_call K tk (Sema_try_down s) = True"
| "user_call K tk (Sema_up s) = (K s = User_sema)"
| "user_call K tk (Lock_acquire l) = (l \<noteq> tk)"
| "user_call K tk (Lock_try_acquire l) = (l \<noteq> tk)"
| "user_call K tk (Lock_release l) = (l \<noteq> tk)"
| "user_call K tk (Cond_wait c l w) = (l \<noteq> tk)"
| "user_call K tk (Cond_signal c l) = True"
| "user_call K tk (Cond_broadcast c l) = True"
| "user_call K tk (Thread_create nm prio body) = True"
| "user_call K tk Thread_yield = True"
| "user_call K tk (Timer_sleep n) = True"
| "user_call K tk (Set_level l) = True"
| "user_call K tk _ = False"

subsection \<open>The step relation\<close>

definition held :: "sema_kinds \<Rightarrow> sys \<Rightarrow> ptr \<Rightarrow> ptr set" where
  "held K k t = {l. is_lock K l \<and> lock_holder k l = t}"

definition iflag :: "'a kernel_scheme \<Rightarrow> ptr \<Rightarrow> bool" where
  "iflag k t = (if t = running k then if_flag k else f_eflags (tf (threads k t)) AND FLAG_IF \<noteq> 0)"

definition legal :: "sema_kinds \<Rightarrow> sys \<Rightarrow> instr \<Rightarrow> bool" where
  "legal K k i \<longleftrightarrow> user_call K (tid_lock k) i
     \<and> contract K (tid_lock k) (idle_thread k) (running k) (held K k (running k)) (if_flag k) i"

text \<open>The page allocator hands out a page that no thread lives in, or none.\<close>

definition page_ok :: "sys \<Rightarrow> ptr \<Rightarrow> bool" where
  "page_ok k page \<longleftrightarrow> page = NULL \<or> \<not> is_thread k page"

inductive kstep :: "sema_kinds \<Rightarrow> sys \<Rightarrow> sys \<Rightarrow> bool" for K :: sema_kinds where
  run: "code k (running k) = i # is \<Longrightarrow> i \<noteq> Body \<Longrightarrow> i \<noteq> Hlt \<Longrightarrow> page_ok k page \<Longrightarrow>
        exec page i (pop_code k) = Some k' \<Longrightarrow> kstep K k k'"
| call: "code k (running k) = Body # is \<Longrightarrow> legal K k i \<Longrightarrow> kstep K k (push_code (running k) [i] k)"
| return: "code k (running k) = Body # is \<Longrightarrow> held K k (running k) = {} \<Longrightarrow> kstep K k (pop_code k)"
| tick: "if_flag k \<Longrightarrow> s64 (ticks k + 1) < sleep_tail k \<Longrightarrow> timer_irq k = Some k' \<Longrightarrow> kstep K k k'"

subsection \<open>The invariant\<close>

definition waiting :: "sys \<Rightarrow> ptr \<Rightarrow> bool" where
  "waiting k t \<longleftrightarrow> (\<exists>s. t \<in> set (waiters (semas k s)))"

definition wait_lists_ok :: "sema_kinds \<Rightarrow> sys \<Rightarrow> bool" where
  "wait_lists_ok K k \<longleftrightarrow> (\<forall>s. distinct (waiters (semas k s)))
     \<and> (\<forall>s s' t. t \<in> set (waiters (semas k s)) \<and> t \<in> set (waiters (semas k s')) \<longrightarrow> s = s')
     \<and> (\<forall>s t u. K s = Waiter_sema t \<and> u \<in> set (waiters (semas k s)) \<longrightarrow> u = t)"

definition code_inv :: "sema_kinds \<Rightarrow> sys \<Rightarrow> bool" where
  "code_inv K k \<longleftrightarrow>
     (\<forall>t. code_ok K (tid_lock k) (idle_thread k) t (held K k t) (iflag k t) (code k t))"

text \<open>
  How many times the code of a thread will give back the semaphore of lock \<open>l\<close> or make the thread its
  holder, minus how many times it will take it.
\<close>

primrec tokens :: "ptr \<Rightarrow> instr list \<Rightarrow> int" where
  "tokens l [] = 0"
| "tokens l (i # is) = (case i of
       Sema_down s \<Rightarrow> if s = lock_sema l then - 1 else 0
     | Sema_loop s old \<Rightarrow> if s = lock_sema l then - 1 else 0
     | Set_holder l' \<Rightarrow> if l' = l then 1 else 0
     | Sema_up s \<Rightarrow> if s = lock_sema l then 1 else 0
     | _ \<Rightarrow> 0) + tokens l is"

definition ownership :: "sys \<Rightarrow> ptr \<Rightarrow> ptr \<Rightarrow> int" where
  "ownership k l t = tokens l (code k t) + of_bool (lock_holder k l = t)"

definition lock_inv :: "sema_kinds \<Rightarrow> sys \<Rightarrow> bool" where
  "lock_inv K k \<longleftrightarrow>
     (\<forall>l. is_lock K l \<longrightarrow>
        int (sema_value (semas k (lock_sema l))) + (\<Sum>t \<in> UNIV - {NULL}. ownership k l t) = 1)"

definition dead_inv :: "sema_kinds \<Rightarrow> sys \<Rightarrow> bool" where
  "dead_inv K k \<longleftrightarrow>
     (\<forall>t. \<not> is_thread k t \<or> status (threads k t) = THREAD_DYING \<longrightarrow> code k t = [] \<and> (t \<noteq> NULL \<longrightarrow> held K k t = {}))"

text \<open>The threads that are initialised but not started yet.\<close>

primrec starts :: "instr list \<Rightarrow> ptr list" where
  "starts [] = []"
| "starts (i # is) = (case i of Start_thread t body \<Rightarrow> [t] | _ \<Rightarrow> []) @ starts is"

definition embryo_inv :: "sema_kinds \<Rightarrow> sys \<Rightarrow> bool" where
  "embryo_inv K k \<longleftrightarrow>
     (\<forall>u t. t \<in> set (starts (code k u)) \<longrightarrow>
        is_thread k t \<and> status (threads k t) = THREAD_BLOCKED \<and> t \<notin> set (sleep_list k) \<and> \<not> waiting k t
        \<and> t \<noteq> idle_thread k \<and> code k t = [] \<and> held K k t = {})
     \<and> (\<forall>u. distinct (starts (code k u)))
     \<and> (\<forall>u u' t. t \<in> set (starts (code k u)) \<and> t \<in> set (starts (code k u')) \<longrightarrow> u = u')"

definition cond_inv :: "sema_kinds \<Rightarrow> sys \<Rightarrow> bool" where
  "cond_inv K k \<longleftrightarrow>
     (\<forall>c. \<forall>w \<in> set (cond_waiters k c). elem_sema w \<noteq> NULL \<and> K (elem_sema w) \<noteq> Lock_sema)"

definition kernel_inv :: "sema_kinds \<Rightarrow> sys \<Rightarrow> bool" where
  "kernel_inv K k \<longleftrightarrow> threads_ok (waiting k) k \<and> \<not> in_external_intr k \<and> wait_lists_ok K k \<and> code_inv K k
     \<and> lock_inv K k \<and> dead_inv K k \<and> embryo_inv K k \<and> cond_inv K k \<and> is_lock K (tid_lock k)"

end
