(* ===== verification/Kernel_Inv.thy ===== *)
theory Kernel_Inv
  imports Kernel
begin

section \<open>The kernel invariant is preserved, and no assertion fails\<close>

text \<open>
  Progress and preservation for the step relation of theory \<open>Kernel\<close>: from a state that satisfies
  \<open>kernel_inv\<close>, every piece of code executes without a failed assertion and leads to a state
  that satisfies it again, and so do the calls, the returns and the timer interrupt.
\<close>

subsection \<open>Updates of the fields that the thread table does not have\<close>

lemma threads_ok_cong:
  assumes "kernel.truncate k' = kernel.truncate k"
  shows "threads_ok W k' = threads_ok W k"
proof -
  have e: "running k' = running k" "threads k' = threads k" "ready_list k' = ready_list k"
      "sleep_list k' = sleep_list k" "destruction_req k' = destruction_req k" "idle_thread k' = idle_thread k"
      "earliest_wake_up_tick k' = earliest_wake_up_tick k" "sleep_tail k' = sleep_tail k"
    using assms by (simp_all add: kernel.truncate_def)
  show ?thesis
    by (simp add: threads_ok_def queues_distinct_def ready_ok_def ready_complete_def sleep_ok_def wait_ok_def
        dying_ok_def running_ok_def idle_ok_def alarms_ok_def is_thread_def e)
qed

lemma threads_ok_sys [simp]:
  "threads_ok W (k\<lparr>code := c\<rparr>) = threads_ok W k"
  "threads_ok W (k\<lparr>semas := s\<rparr>) = threads_ok W k"
  "threads_ok W (k\<lparr>lock_holder := h\<rparr>) = threads_ok W k"
  "threads_ok W (k\<lparr>cond_waiters := w\<rparr>) = threads_ok W k"
  by (rule threads_ok_cong; simp add: kernel.truncate_def)+

lemma is_thread_sys [simp]:
  "is_thread (k\<lparr>code := c\<rparr>) = is_thread k"
  "is_thread (k\<lparr>semas := s\<rparr>) = is_thread k"
  "is_thread (k\<lparr>lock_holder := h\<rparr>) = is_thread k"
  "is_thread (k\<lparr>cond_waiters := w\<rparr>) = is_thread k"
  "is_thread (k\<lparr>next_tid := n\<rparr>) = is_thread k"
  "is_thread (k\<lparr>in_external_intr := b\<rparr>) = is_thread k"
  by (simp_all add: is_thread_def fun_eq_iff)

named_theorems sys_simps \<open>effect of the operations on the fields of the whole state\<close>

lemma sys_fields [sys_simps]:
  "code (switched k) = code k" "semas (switched k) = semas k" "lock_holder (switched k) = lock_holder k"
  "cond_waiters (switched k) = cond_waiters k" "tid_lock (switched k) = tid_lock k"
  "code (set_status t s k) = code k" "semas (set_status t s k) = semas k"
  "lock_holder (set_status t s k) = lock_holder k" "cond_waiters (set_status t s k) = cond_waiters k"
  "tid_lock (set_status t s k) = tid_lock k"
  "code (free_victims k) = code k" "semas (free_victims k) = semas k"
  "lock_holder (free_victims k) = lock_holder k" "cond_waiters (free_victims k) = cond_waiters k"
  "tid_lock (free_victims k) = tid_lock k"
  "code (unblocked t k) = code k" "semas (unblocked t k) = semas k" "lock_holder (unblocked t k) = lock_holder k"
  "cond_waiters (unblocked t k) = cond_waiters k" "tid_lock (unblocked t k) = tid_lock k"
  by (simp_all add: switched_def Let_def set_status_def upd_thread_def free_victims_eq unblocked_def)

lemma sys_fields' [sys_simps]:
  "code (yield_push k) = code k" "semas (yield_push k) = semas k" "lock_holder (yield_push k) = lock_holder k"
  "cond_waiters (yield_push k) = cond_waiters k" "tid_lock (yield_push k) = tid_lock k"
  "code (sleep_push n k) = code k" "semas (sleep_push n k) = semas k" "lock_holder (sleep_push n k) = lock_holder k"
  "cond_waiters (sleep_push n k) = cond_waiters k" "tid_lock (sleep_push n k) = tid_lock k"
  "code (ticked k) = code k" "semas (ticked k) = semas k" "lock_holder (ticked k) = lock_holder k"
  "cond_waiters (ticked k) = cond_waiters k" "tid_lock (ticked k) = tid_lock k"
  "code (alarmed n k) = code k" "semas (alarmed n k) = semas k" "lock_holder (alarmed n k) = lock_holder k"
  "cond_waiters (alarmed n k) = cond_waiters k" "tid_lock (alarmed n k) = tid_lock k"
  by (simp_all add: yield_push_def sleep_push_def ticked_def alarmed_def woken_def Let_def earliest_time_def upd_thread_def)

text \<open>The interrupt flag a thread has or will have when it runs again.\<close>

lemma iflag_switched:
  assumes "\<not> if_flag k"
  shows "iflag (switched k) t = (if t = running k then False else iflag k t)"
  using assms by (auto simp: iflag_def switched_def Let_def)

lemma iflag_set_status [sys_simps]: "iflag (set_status u s k) = iflag k"
  by (simp add: iflag_def thread_simps fun_eq_iff)

lemma iflag_free_victims [sys_simps]: "iflag (free_victims k) = iflag k"
  by (simp add: iflag_def thread_simps fun_eq_iff)

lemma iflag_unblocked [sys_simps]: "iflag (unblocked u k) = iflag k"
  by (simp add: iflag_def thread_simps fun_eq_iff)

lemma iflag_yield_push [sys_simps]: "iflag (yield_push k) t = (if t = running k then False else iflag k t)"
  by (simp add: iflag_def thread_simps)

lemma iflag_sleep_push [sys_simps]: "iflag (sleep_push n k) t = (if t = running k then False else iflag k t)"
  by (simp add: iflag_def thread_simps) (simp add: sleep_push_def earliest_time_def upd_thread_def Let_def)

lemma iflag_update [sys_simps]:
  "iflag (k\<lparr>code := c\<rparr>) = iflag k"
  "iflag (k\<lparr>semas := s\<rparr>) = iflag k"
  "iflag (k\<lparr>lock_holder := h\<rparr>) = iflag k"
  "iflag (k\<lparr>cond_waiters := w\<rparr>) = iflag k"
  "iflag (k\<lparr>next_tid := n\<rparr>) = iflag k"
  "iflag (k\<lparr>if_flag := b\<rparr>) t = (if t = running k then b else iflag k t)"
  by (simp_all add: iflag_def fun_eq_iff)

subsection \<open>Preservation of the parts of the invariant\<close>

lemma kernel_inv_running:
  assumes "kernel_inv K k"
  shows "running k \<noteq> NULL" and "is_thread k (running k)" and "status (threads k (running k)) = THREAD_RUNNING"
    and "\<not> waiting k (running k)" and "running k \<notin> set (sleep_list k)" and "running k \<notin> set (ready_list k)"
    and "code k NULL = []"
proof -
  have ok: "threads_ok (waiting k) k" and d: "dead_inv K k" using assms by (simp_all add: kernel_inv_def)
  show "running k \<noteq> NULL" "is_thread k (running k)" "status (threads k (running k)) = THREAD_RUNNING"
    using threads_ok_running [OF ok] by simp_all
  show "\<not> waiting k (running k)" "running k \<notin> set (sleep_list k)" "running k \<notin> set (ready_list k)"
    using threads_ok_no_victim [OF ok] by simp_all
  show "code k NULL = []" using d by (simp add: dead_inv_def is_thread_def)
qed

lemma held_other:
  assumes "\<forall>l. is_lock K l \<longrightarrow> lock_holder k' l = lock_holder k l \<or> {lock_holder k l, lock_holder k' l} \<subseteq> {r, NULL}"
    and "t \<noteq> r" and "t \<noteq> NULL"
  shows "held K k' t = held K k t" and "is_lock K l \<Longrightarrow> (lock_holder k' l = t) = (lock_holder k l = t)"
  using assms by (auto simp: held_def)

lemma code_inv_step:
  assumes "kernel_inv K k" and "r = running k" and "tid_lock k' = tid_lock k" and "idle_thread k' = idle_thread k"
    and "\<forall>l. is_lock K l \<longrightarrow> lock_holder k' l = lock_holder k l \<or> {lock_holder k l, lock_holder k' l} \<subseteq> {r, NULL}"
    and "\<And>t. t \<noteq> r \<Longrightarrow> (code k' t = code k t \<and> (code k t \<noteq> [] \<longrightarrow> iflag k' t = iflag k t))
           \<or> code_ok K (tid_lock k) (idle_thread k) t (held K k' t) (iflag k' t) (code k' t)"
    and "code_ok K (tid_lock k) (idle_thread k) r (held K k' r) (iflag k' r) (code k' r)"
  shows "code_inv K k'"
proof -
  have old: "\<And>t. code_ok K (tid_lock k) (idle_thread k) t (held K k t) (iflag k t) (code k t)"
    using assms(1) by (simp add: kernel_inv_def code_inv_def)
  have "code_ok K (tid_lock k) (idle_thread k) t (held K k' t) (iflag k' t) (code k' t)" for t
  proof (cases "t = r")
    case True
    then show ?thesis using assms(7) by simp
  next
    case False
    show ?thesis
    proof (cases "code k' t = code k t \<and> (code k t \<noteq> [] \<longrightarrow> iflag k' t = iflag k t)")
      case same: True
      show ?thesis
      proof (cases "code k t = []")
        case True
        then show ?thesis using same by simp
      next
        case nonempty: False
        then have "t \<noteq> NULL" using kernel_inv_running(7) [OF assms(1)] by auto
        then show ?thesis using held_other(1) [OF assms(5) False] same nonempty old by simp
      qed
    next
      case changed: False
      then show ?thesis using assms(6) [OF False] by blast
    qed
  qed
  then show ?thesis by (simp add: code_inv_def assms(3,4))
qed

lemma sum_one_changed:
  fixes f g :: "'a \<Rightarrow> int"
  assumes "finite A" and "r \<in> A" and "\<And>t. t \<in> A \<Longrightarrow> t \<noteq> r \<Longrightarrow> g t = f t"
  shows "sum g A = sum f A - f r + g r"
proof -
  have "sum g (A - {r}) = sum f (A - {r})" using assms(3) by (intro sum.cong) auto
  then show ?thesis using sum.remove [OF assms(1,2), of f] sum.remove [OF assms(1,2), of g] by simp
qed

lemma lock_inv_step:
  assumes "kernel_inv K k" and "r = running k"
    and "\<forall>l. is_lock K l \<longrightarrow> lock_holder k' l = lock_holder k l \<or> {lock_holder k l, lock_holder k' l} \<subseteq> {r, NULL}"
    and "\<And>t l. t \<noteq> r \<Longrightarrow> t \<noteq> NULL \<Longrightarrow> tokens l (code k' t) = tokens l (code k t)"
    and "\<And>l. is_lock K l \<Longrightarrow> int (sema_value (semas k' (lock_sema l))) + ownership k' l r
           = int (sema_value (semas k (lock_sema l))) + ownership k l r"
  shows "lock_inv K k'"
proof -
  have r: "r \<in> UNIV - {NULL}" using kernel_inv_running(1) [OF assms(1)] assms(2) by simp
  have "int (sema_value (semas k' (lock_sema l))) + (\<Sum>t \<in> UNIV - {NULL}. ownership k' l t) = 1"
    if l: "is_lock K l" for l
  proof -
    have "(\<Sum>t \<in> UNIV - {NULL}. ownership k' l t)
        = (\<Sum>t \<in> UNIV - {NULL}. ownership k l t) - ownership k l r + ownership k' l r"
      using held_other(2) [OF assms(3)] assms(4) l r
      by (intro sum_one_changed) (auto simp: ownership_def)
    moreover have "int (sema_value (semas k (lock_sema l))) + (\<Sum>t \<in> UNIV - {NULL}. ownership k l t) = 1"
      using assms(1) l by (simp add: kernel_inv_def lock_inv_def)
    ultimately show ?thesis using assms(5) [OF l] by linarith
  qed
  then show ?thesis by (simp add: lock_inv_def)
qed

lemma dead_inv_step:
  assumes "kernel_inv K k" and "r = running k"
    and "\<forall>l. is_lock K l \<longrightarrow> lock_holder k' l = lock_holder k l \<or> {lock_holder k l, lock_holder k' l} \<subseteq> {r, NULL}"
    and "\<And>t. t \<noteq> r \<Longrightarrow> \<not> is_thread k' t \<or> status (threads k' t) = THREAD_DYING \<Longrightarrow>
           code k' t = code k t \<and> (\<not> is_thread k t \<or> status (threads k t) = THREAD_DYING)"
    and "\<not> is_thread k' r \<or> status (threads k' r) = THREAD_DYING \<Longrightarrow> code k' r = [] \<and> held K k' r = {}"
  shows "dead_inv K k'"
proof -
  have old: "\<And>t. \<not> is_thread k t \<or> status (threads k t) = THREAD_DYING \<Longrightarrow>
      code k t = [] \<and> (t \<noteq> NULL \<longrightarrow> held K k t = {})"
    using assms(1) by (simp add: kernel_inv_def dead_inv_def)
  have "code k' t = [] \<and> (t \<noteq> NULL \<longrightarrow> held K k' t = {})"
    if "\<not> is_thread k' t \<or> status (threads k' t) = THREAD_DYING" for t
  proof (cases "t = r")
    case True
    then show ?thesis using assms(5) that by simp
  next
    case False
    then show ?thesis using assms(4) [OF False that] old [of t] held_other(1) [OF assms(3) False] by auto
  qed
  then show ?thesis by (simp add: dead_inv_def)
qed

lemma embryo_inv_step:
  assumes "kernel_inv K k" and "r = running k" and "idle_thread k' = idle_thread k"
    and "\<forall>l. is_lock K l \<longrightarrow> lock_holder k' l = lock_holder k l \<or> {lock_holder k l, lock_holder k' l} \<subseteq> {r, NULL}"
    and "\<And>t. t \<noteq> r \<Longrightarrow> code k' t = code k t \<or> starts (code k' t) = [] \<and> starts (code k t) = []"
    and "set (starts (code k' r)) \<subseteq> set (starts (code k r))" and "distinct (starts (code k' r))"
    and "\<And>u t. t \<in> set (starts (code k' u)) \<Longrightarrow> t \<noteq> r \<Longrightarrow> t \<noteq> idle_thread k \<Longrightarrow> is_thread k t \<Longrightarrow>
           status (threads k t) = THREAD_BLOCKED \<Longrightarrow> t \<notin> set (sleep_list k) \<Longrightarrow> \<not> waiting k t \<Longrightarrow>
           is_thread k' t \<and> status (threads k' t) = THREAD_BLOCKED \<and> t \<notin> set (sleep_list k') \<and> \<not> waiting k' t
           \<and> code k' t = code k t"
  shows "embryo_inv K k'"
proof -
  have old: "embryo_inv K k" using assms(1) by (simp add: kernel_inv_def)
  have sub: "set (starts (code k' u)) \<subseteq> set (starts (code k u))" for u
    using assms(5) [of u] assms(6) by (cases "u = r") auto
  have dist: "distinct (starts (code k' u))" for u
    using assms(5) [of u] assms(7) old by (cases "u = r") (auto simp: embryo_inv_def)
  have "is_thread k' t \<and> status (threads k' t) = THREAD_BLOCKED \<and> t \<notin> set (sleep_list k') \<and> \<not> waiting k' t
        \<and> t \<noteq> idle_thread k' \<and> code k' t = [] \<and> held K k' t = {}" if e: "t \<in> set (starts (code k' u))" for t u
  proof -
    have o: "is_thread k t" "status (threads k t) = THREAD_BLOCKED" "t \<notin> set (sleep_list k)" "\<not> waiting k t"
        "t \<noteq> idle_thread k" "code k t = []" "held K k t = {}"
      using old sub [of u] e unfolding embryo_inv_def by blast+
    then have "t \<noteq> r" using assms(2) kernel_inv_running(3) [OF assms(1)] by auto
    moreover have "t \<noteq> NULL" using o(1) by (auto simp: is_thread_def)
    ultimately show ?thesis
      using assms(8) [OF e _ o(5,1,2,3,4)] o held_other(1) [OF assms(4)] assms(3) by auto
  qed
  moreover have "u = u'" if "t \<in> set (starts (code k' u))" "t \<in> set (starts (code k' u'))" for t u u'
    using old sub [of u] sub [of u'] that unfolding embryo_inv_def by blast
  ultimately show ?thesis using dist unfolding embryo_inv_def by blast
qed

lemma kernel_invI:
  "threads_ok (waiting k) k \<Longrightarrow> \<not> in_external_intr k \<Longrightarrow> wait_lists_ok K k \<Longrightarrow> code_inv K k \<Longrightarrow> lock_inv K k \<Longrightarrow>
   dead_inv K k \<Longrightarrow> embryo_inv K k \<Longrightarrow> cond_inv K k \<Longrightarrow> is_lock K (tid_lock k) \<Longrightarrow> kernel_inv K k"
  by (simp add: kernel_inv_def)

lemma kernel_inv_code:
  assumes "kernel_inv K k" and "code k (running k) = i # is"
  shows "contract K (tid_lock k) (idle_thread k) (running k) (held K k (running k)) (if_flag k) i"
    and "may_follow K i is"
    and "code_ok K (tid_lock k) (idle_thread k) (running k) (held_after i (held K k (running k))) (level_after i (if_flag k)) is"
proof -
  have "code_ok K (tid_lock k) (idle_thread k) (running k) (held K k (running k)) (iflag k (running k)) (i # is)"
    using assms by (metis code_inv_def kernel_inv_def)
  then show "contract K (tid_lock k) (idle_thread k) (running k) (held K k (running k)) (if_flag k) i"
      "may_follow K i is"
      "code_ok K (tid_lock k) (idle_thread k) (running k) (held_after i (held K k (running k))) (level_after i (if_flag k)) is"
    by (simp_all add: iflag_def)
qed

text \<open>
  A step that changes neither the queues nor the status of a thread: only the code of the current thread,
  its interrupt level, the value of a semaphore, a holder or a list of condition waiters.
\<close>

lemma kernel_inv_quiet:
  assumes inv: "kernel_inv K k" and code: "code k (running k) = i # is"
    and thr: "running k' = running k" "ready_list k' = ready_list k" "sleep_list k' = sleep_list k"
      "destruction_req k' = destruction_req k" "idle_thread k' = idle_thread k"
      "earliest_wake_up_tick k' = earliest_wake_up_tick k" "sleep_tail k' = sleep_tail k"
      "in_external_intr k' = in_external_intr k" "tid_lock k' = tid_lock k"
    and th: "\<And>t. status (threads k' t) = status (threads k t) \<and> magic (threads k' t) = magic (threads k t)
        \<and> alarm (threads k' t) = alarm (threads k t) \<and> tf (threads k' t) = tf (threads k t)"
    and wt: "\<And>s. waiters (semas k' s) = waiters (semas k s)"
    and cond: "cond_inv K k'"
    and hold: "\<forall>l. is_lock K l \<longrightarrow> lock_holder k' l = lock_holder k l
        \<or> {lock_holder k l, lock_holder k' l} \<subseteq> {running k, NULL}"
    and other: "\<And>t. t \<noteq> running k \<Longrightarrow> code k' t = code k t"
    and own: "code_ok K (tid_lock k) (idle_thread k) (running k) (held K k' (running k)) (if_flag k') (code k' (running k))"
    and bal: "\<And>l. is_lock K l \<Longrightarrow> int (sema_value (semas k' (lock_sema l))) + ownership k' l (running k)
           = int (sema_value (semas k (lock_sema l))) + ownership k l (running k)"
    and emb: "starts (code k' (running k)) = starts (i # is)"
  shows "kernel_inv K k'"
proof -
  note I = inv [unfolded kernel_inv_def]
  have w: "waiting k' = waiting k" by (simp add: waiting_def fun_eq_iff wt)
  have it: "is_thread k' = is_thread k" by (simp add: is_thread_def fun_eq_iff th)
  have ok: "threads_ok (waiting k) k" using I by simp
  have "threads_ok (waiting k) k' = threads_ok (waiting k) k"
    by (simp only: threads_ok_def queues_distinct_def ready_ok_def ready_complete_def sleep_ok_def wait_ok_def
        dying_ok_def running_ok_def idle_ok_def alarms_ok_def thr th it)
  then have tok: "threads_ok (waiting k') k'" using ok w by simp
  have ifl: "iflag k' t = iflag k t" if "t \<noteq> running k" for t using that by (simp add: iflag_def thr th)
  show ?thesis
  proof (rule kernel_invI)
    show "threads_ok (waiting k') k'" by (rule tok)
    show "\<not> in_external_intr k'" using I thr by simp
    show "wait_lists_ok K k'" using I by (simp add: wait_lists_ok_def wt)
    show "cond_inv K k'" by (rule cond)
    show "is_lock K (tid_lock k')" using I thr by simp
    show "code_inv K k'"
      by (rule code_inv_step [OF inv refl _ _ hold]) (use thr other ifl own in \<open>simp_all add: iflag_def\<close>)
    show "lock_inv K k'" by (rule lock_inv_step [OF inv refl hold]) (use other bal in simp_all)
    show "dead_inv K k'"
      by (rule dead_inv_step [OF inv refl hold])
         (use other th it kernel_inv_running(2,3) [OF inv] in simp_all)
    show "embryo_inv K k'"
    proof (rule embryo_inv_step [OF inv refl _ hold])
      show "distinct (starts (code k' (running k)))"
      proof -
        have "embryo_inv K k" using I by simp
        then have "distinct (starts (code k (running k)))" unfolding embryo_inv_def by blast
        then show ?thesis using code emb by simp
      qed
      show "code k' t = code k t \<or> starts (code k' t) = [] \<and> starts (code k t) = []" if "t \<noteq> running k" for t
        using other [OF that] by simp
    qed (use thr th it w code emb other in simp_all)
  qed
qed

subsection \<open>The quiet pieces of code\<close>

lemma kernel_inv_pop:
  assumes "kernel_inv K k"
  shows "thread_current (pop_code k) = Some (running k)" and "\<not> intr_context (pop_code k)"
    and "running (pop_code k) = running k" and "if_flag (pop_code k) = if_flag k"
    and "threads_ok (waiting k) (pop_code k)"
proof -
  show ok: "threads_ok (waiting k) (pop_code k)" using assms by (simp add: kernel_inv_def pop_code_def)
  show "running (pop_code k) = running k" "if_flag (pop_code k) = if_flag k" by (simp_all add: pop_code_def)
  then show "thread_current (pop_code k) = Some (running k)" using threads_ok_current [OF ok] by simp
  show "\<not> intr_context (pop_code k)" using assms by (simp add: kernel_inv_def intr_context_def pop_code_def)
qed

lemmas upd_defs = pop_code_def push_code_def upd_sema_def

lemma intr_set_level_ok:
  "\<not> in_external_intr k \<Longrightarrow> intr_set_level l k = Some (intr_get_level k, k\<lparr>if_flag := (l = INTR_ON)\<rparr>)"
  by (cases l) (simp_all add: intr_defs)

lemma level_of_flag: "(intr_get_level k = INTR_ON) = if_flag k"
  by (simp add: intr_get_level_def)

lemma kernel_inv_ext: "kernel_inv K k \<Longrightarrow> \<not> in_external_intr k"
  by (simp add: kernel_inv_def)

lemma kernel_inv_cond: "kernel_inv K k \<Longrightarrow> cond_inv K k"
  by (simp add: kernel_inv_def)

lemma lock_sema_inj: "lock_sema l = lock_sema l' \<longleftrightarrow> l = l'"
  by (simp add: lock_sema_def)

lemma lock_sema_minus [simp]: "lock_sema l - 8 = l"
  by (simp add: lock_sema_def)

lemma exec_Set_level:
  assumes inv: "kernel_inv K k" and code: "code k (running k) = Set_level l # is"
  shows "\<exists>k'. exec page (Set_level l) (pop_code k) = Some k' \<and> kernel_inv K k'"
proof -
  note C = kernel_inv_code [OF inv code]
  let ?k = "(pop_code k)\<lparr>if_flag := (l = INTR_ON)\<rparr>"
  have "exec page (Set_level l) (pop_code k) = Some ?k"
    using kernel_inv_ext [OF inv] by (simp add: intr_set_level_ok pop_code_def)
  moreover have "kernel_inv K ?k"
    by (rule kernel_inv_quiet [OF inv code])
       (use code C kernel_inv_cond [OF inv] in \<open>simp_all add: upd_defs cond_inv_def held_def ownership_def\<close>)
  ultimately show ?thesis by blast
qed

lemma exec_Iret:
  assumes inv: "kernel_inv K k" and code: "code k (running k) = Iret # is"
  shows "\<exists>k'. exec page Iret (pop_code k) = Some k' \<and> kernel_inv K k'"
proof -
  note C = kernel_inv_code [OF inv code]
  have "kernel_inv K ((pop_code k)\<lparr>if_flag := True\<rparr>)"
    by (rule kernel_inv_quiet [OF inv code])
       (use code C kernel_inv_cond [OF inv] in \<open>simp_all add: upd_defs cond_inv_def held_def ownership_def\<close>)
  then show ?thesis by simp
qed

lemma exec_Sti:
  assumes inv: "kernel_inv K k" and code: "code k (running k) = Sti # is"
  shows "\<exists>k'. exec page Sti (pop_code k) = Some k' \<and> kernel_inv K k'"
proof -
  note C = kernel_inv_code [OF inv code]
  have "kernel_inv K (push_code (running k) [Hlt] ((pop_code k)\<lparr>if_flag := True\<rparr>))"
    by (rule kernel_inv_quiet [OF inv code])
       (use code C kernel_inv_cond [OF inv] in \<open>simp_all add: upd_defs cond_inv_def held_def ownership_def\<close>)
  then show ?thesis using kernel_inv_pop(3) [OF inv] by simp
qed

lemma exec_Sema_down:
  assumes inv: "kernel_inv K k" and code: "code k (running k) = Sema_down s # is"
  shows "\<exists>k'. exec page (Sema_down s) (pop_code k) = Some k' \<and> kernel_inv K k'"
proof -
  note C = kernel_inv_code [OF inv code]
  let ?k = "push_code (running k) [Sema_loop s (intr_get_level k)] ((pop_code k)\<lparr>if_flag := False\<rparr>)"
  have "exec page (Sema_down s) (pop_code k) = Some ?k"
    using C kernel_inv_pop [OF inv] by (simp add: sema_down_def intr_disable_def intr_get_level_def)
  moreover have "kernel_inv K ?k"
    by (rule kernel_inv_quiet [OF inv code])
       (use code C kernel_inv_cond [OF inv] in
         \<open>simp_all add: upd_defs cond_inv_def held_def ownership_def level_of_flag\<close>)
  ultimately show ?thesis by blast
qed

lemma exec_Timer_sleep:
  assumes inv: "kernel_inv K k" and code: "code k (running k) = Timer_sleep n # is"
  shows "\<exists>k'. exec page (Timer_sleep n) (pop_code k) = Some k' \<and> kernel_inv K k'"
proof -
  note C = kernel_inv_code [OF inv code]
  let ?k = "push_code (running k) [Thread_sleep (s64 (ticks k + n))] (pop_code k)"
  have "timer_ticks (pop_code k) = Some (ticks k, pop_code k)"
    using kernel_inv_ext [OF inv] C
    by (simp add: timer_ticks_def intr_disable_def intr_set_level_ok intr_get_level_def pop_code_def)
  then have "exec page (Timer_sleep n) (pop_code k) = Some ?k"
    using C kernel_inv_pop [OF inv] by (simp add: timer_sleep_def intr_get_level_def)
  moreover have "kernel_inv K ?k"
    by (rule kernel_inv_quiet [OF inv code])
       (use code C kernel_inv_cond [OF inv] in \<open>simp_all add: upd_defs cond_inv_def held_def ownership_def\<close>)
  ultimately show ?thesis by blast
qed

lemma exec_Kernel_thread:
  assumes inv: "kernel_inv K k" and code: "code k (running k) = Kernel_thread body # is"
  shows "\<exists>k'. exec page (Kernel_thread body) (pop_code k) = Some k' \<and> kernel_inv K k'"
proof -
  note C = kernel_inv_code [OF inv code]
  let ?k = "push_code (running k) (body @ [Thread_exit]) ((pop_code k)\<lparr>if_flag := True\<rparr>)"
  have "exec page (Kernel_thread body) (pop_code k) = Some ?k"
    using C kernel_inv_pop [OF inv] by (simp add: kernel_thread_def intr_enable_def)
  moreover have "kernel_inv K ?k"
    by (rule kernel_inv_quiet [OF inv code])
       (use code C kernel_inv_cond [OF inv] in \<open>simp_all add: upd_defs cond_inv_def held_def ownership_def\<close>)
  ultimately show ?thesis by blast
qed

lemma tokens_nonneg: "code_ok K tk idl t H b is \<Longrightarrow> is_lock K l \<Longrightarrow> 0 \<le> tokens l is"
proof (induction "is" arbitrary: H b rule: length_induct)
  case (1 xs)
  show ?case
  proof (cases xs)
    case (Cons i js)
    have ok: "code_ok K tk idl t (held_after i H) (level_after i b) js" and mf: "may_follow K i js"
      using 1(2) Cons by simp_all
    have rest: "0 \<le> tokens l js" using 1(1,3) ok Cons by fastforce
    have two: "0 \<le> tokens l (tl js)"
    proof (cases js)
      case (Cons a as)
      then have "code_ok K tk idl t (held_after a (held_after i H)) (level_after a (level_after i b)) as"
        using ok by simp
      then show ?thesis using 1(1) [rule_format, of as] 1(3) Cons \<open>xs = i # js\<close> by simp
    qed simp
    have hold: "js \<noteq> [] \<Longrightarrow> hd js = Set_holder l \<Longrightarrow> tokens l js = 1 + tokens l (tl js)"
      by (cases js) auto
    show ?thesis
      using rest two hold mf 1(3) Cons by (cases i) (auto simp: is_lock_def lock_sema_def)
  qed simp
qed

lemma tokens_after_holder:
  assumes "code_ok K tk idl t H b (Set_holder l # is)" "is_lock K l"
  shows "1 \<le> tokens l (Set_holder l # is)"
  using tokens_nonneg [of K tk idl t "insert l H" b "is" l] assms by simp

lemma exec_Sema_try_down:
  assumes inv: "kernel_inv K k" and code: "code k (running k) = Sema_try_down s # is"
  shows "\<exists>k'. exec page (Sema_try_down s) (pop_code k) = Some k' \<and> kernel_inv K k'"
proof -
  note C = kernel_inv_code [OF inv code]
  let ?k = "upd_sema s (\<lambda>x. x\<lparr>sema_value := sema_value x - 1\<rparr>) (pop_code k)"
  have "exec page (Sema_try_down s) (pop_code k) = Some ?k"
    using C kernel_inv_ext [OF inv]
    by (simp add: sema_try_down_def intr_disable_def intr_set_level_ok intr_get_level_def upd_defs fun_upd_idem)
  moreover have "kernel_inv K ?k"
    by (rule kernel_inv_quiet [OF inv code])
       (use code C kernel_inv_cond [OF inv] in
         \<open>auto simp: upd_defs cond_inv_def held_def ownership_def is_lock_def\<close>)
  ultimately show ?thesis by blast
qed

lemma exec_Lock_acquire:
  assumes inv: "kernel_inv K k" and code: "code k (running k) = Lock_acquire l # is"
  shows "\<exists>k'. exec page (Lock_acquire l) (pop_code k) = Some k' \<and> kernel_inv K k'"
proof -
  note C = kernel_inv_code [OF inv code]
  let ?k = "push_code (running k) [Sema_down (lock_sema l), Set_holder l] (pop_code k)"
  have nh: "lock_holder k l \<noteq> running k" and l: "is_lock K l" using C by (auto simp: held_def)
  have "exec page (Lock_acquire l) (pop_code k) = Some ?k"
    using l nh kernel_inv_pop [OF inv]
    by (simp add: lock_acquire_def lock_held_by_current_thread_def is_lock_def) (simp add: pop_code_def)
  moreover have "kernel_inv K ?k"
    by (rule kernel_inv_quiet [OF inv code])
       (use code C nh kernel_inv_cond [OF inv] in
         \<open>auto simp: upd_defs cond_inv_def held_def ownership_def lock_sema_inj is_lock_def\<close>)
  ultimately show ?thesis by blast
qed

lemma exec_Lock_try_acquire:
  assumes inv: "kernel_inv K k" and code: "code k (running k) = Lock_try_acquire l # is"
  shows "\<exists>k'. exec page (Lock_try_acquire l) (pop_code k) = Some k' \<and> kernel_inv K k'"
proof -
  note C = kernel_inv_code [OF inv code]
  let ?k = "push_code (running k) [Set_holder l]
     (upd_sema (lock_sema l) (\<lambda>x. x\<lparr>sema_value := sema_value x - 1\<rparr>) (pop_code k))"
  let ?k' = "if sema_value (semas k (lock_sema l)) > 0 then ?k else pop_code k"
  have nh: "lock_holder k l \<noteq> running k" and l: "is_lock K l" using C by (auto simp: held_def)
  have "exec page (Lock_try_acquire l) (pop_code k) = Some ?k'"
    using l nh kernel_inv_pop [OF inv] kernel_inv_ext [OF inv]
    apply (simp add: lock_try_acquire_def lock_held_by_current_thread_def is_lock_def)
    apply (simp add: sema_try_down_def intr_disable_def intr_set_level_ok intr_get_level_def upd_defs)
    done
  moreover obtain js where js: "is = Body # js" using C by (cases "is") auto
  have "kernel_inv K ?k'" if "sema_value (semas k (lock_sema l)) = 0"
    using that apply simp
    by (rule kernel_inv_quiet [OF inv code])
       (use code C kernel_inv_cond [OF inv] in
         \<open>simp_all add: upd_defs cond_inv_def held_def ownership_def lock_sema_inj is_lock_def\<close>)
  moreover have "kernel_inv K ?k'" if "sema_value (semas k (lock_sema l)) > 0"
    using that apply simp
    by (rule kernel_inv_quiet [OF inv code])
       (use code C kernel_inv_cond [OF inv] js in
         \<open>auto simp: upd_defs cond_inv_def held_def ownership_def lock_sema_inj is_lock_def\<close>)
  ultimately show ?thesis by blast
qed

text \<open>The lock that a thread is about to record as its own has no holder.\<close>

lemma ownership_nonneg: "kernel_inv K k \<Longrightarrow> is_lock K l \<Longrightarrow> 0 \<le> ownership k l t"
  using tokens_nonneg [of K "tid_lock k" "idle_thread k" t "held K k t" "iflag k t" "code k t" l]
  by (simp add: kernel_inv_def code_inv_def ownership_def)

lemma lock_owners_le:
  assumes inv: "kernel_inv K k" and l: "is_lock K l" and tu: "t \<noteq> u" "t \<noteq> NULL" "u \<noteq> NULL"
  shows "int (sema_value (semas k (lock_sema l))) + ownership k l t + ownership k l u \<le> 1"
proof -
  have "(\<Sum>v \<in> {t, u}. ownership k l v) \<le> (\<Sum>v \<in> UNIV - {NULL}. ownership k l v)"
    by (rule sum_mono2) (use tu ownership_nonneg [OF inv l] in auto)
  moreover have "lock_inv K k" using inv by (simp add: kernel_inv_def)
  ultimately show ?thesis using tu l by (simp add: lock_inv_def) (smt (verit, best))
qed

lemma kernel_inv_running_NULL: "kernel_inv K k \<Longrightarrow> running k \<noteq> NULL"
  using kernel_inv_running(1) by (auto simp: is_thread_def)

lemma set_holder_free:
  assumes inv: "kernel_inv K k" and code: "code k (running k) = Set_holder l # is"
  shows "lock_holder k l = NULL"
proof (rule ccontr)
  assume h: "lock_holder k l \<noteq> NULL"
  note C = kernel_inv_code [OF inv code]
  have l: "is_lock K l" and nh: "lock_holder k l \<noteq> running k" using C by (auto simp: held_def)
  have "code_inv K k" using inv by (simp add: kernel_inv_def)
  then have "1 \<le> tokens l (code k (running k))"
    using tokens_after_holder l code unfolding code_inv_def by metis
  then have "1 \<le> ownership k l (running k)" by (simp add: ownership_def)
  moreover have "1 \<le> ownership k l (lock_holder k l)"
  proof -
    have "0 \<le> tokens l (code k (lock_holder k l))"
      using \<open>code_inv K k\<close> tokens_nonneg l unfolding code_inv_def by metis
    then show ?thesis by (simp add: ownership_def)
  qed
  ultimately show False
    using lock_owners_le [OF inv l nh h kernel_inv_running_NULL [OF inv]] by simp
qed

lemma exec_Set_holder:
  assumes inv: "kernel_inv K k" and code: "code k (running k) = Set_holder l # is"
  shows "\<exists>k'. exec page (Set_holder l) (pop_code k) = Some k' \<and> kernel_inv K k'"
proof -
  note C = kernel_inv_code [OF inv code]
  note f = set_holder_free [OF inv code]
  let ?k = "(pop_code k)\<lparr>lock_holder := (lock_holder k)(l := running k)\<rparr>"
  have "exec page (Set_holder l) (pop_code k) = Some ?k"
    using kernel_inv_pop(1) [OF inv] by (simp add: set_holder_def) (simp add: pop_code_def)
  moreover have H: "held K ?k (running k) = insert l (held K k (running k))"
    using C by (auto simp: held_def)
  have "kernel_inv K ?k"
    by (rule kernel_inv_quiet [OF inv code])
       (use code C f H kernel_inv_running_NULL [OF inv] kernel_inv_cond [OF inv] in
         \<open>auto simp: upd_defs cond_inv_def ownership_def is_lock_def\<close>)
  ultimately show ?thesis by blast
qed

lemma exec_Lock_release:
  assumes inv: "kernel_inv K k" and code: "code k (running k) = Lock_release l # is"
  shows "\<exists>k'. exec page (Lock_release l) (pop_code k) = Some k' \<and> kernel_inv K k'"
proof -
  note C = kernel_inv_code [OF inv code]
  let ?k = "push_code (running k) [Sema_up (lock_sema l)] ((pop_code k)\<lparr>lock_holder := (lock_holder k)(l := NULL)\<rparr>)"
  have l: "is_lock K l" and h: "lock_holder k l = running k" using C by (simp_all add: held_def)
  have "exec page (Lock_release l) (pop_code k) = Some ?k"
    using kernel_inv_pop [OF inv] l h
    by (simp add: lock_release_def lock_held_by_current_thread_def is_lock_def) (simp add: pop_code_def push_code_def)
  moreover have H: "held K ?k (running k) = held K k (running k) - {l}"
    using kernel_inv_running_NULL [OF inv] by (auto simp: held_def push_code_def)
  have "kernel_inv K ?k"
    by (rule kernel_inv_quiet [OF inv code])
       (use code C h H kernel_inv_running_NULL [OF inv] kernel_inv_cond [OF inv] in
         \<open>auto simp: upd_defs cond_inv_def ownership_def is_lock_def lock_sema_inj\<close>)
  ultimately show ?thesis by blast
qed

lemma own_elem_no_waiters:
  assumes inv: "kernel_inv K k" and s: "K s = Waiter_sema (running k)"
  shows "waiters (semas k s) = []"
proof (rule ccontr)
  assume "waiters (semas k s) \<noteq> []"
  then obtain u where u: "u \<in> set (waiters (semas k s))" by (cases "waiters (semas k s)") auto
  have "wait_lists_ok K k" using inv by (simp add: kernel_inv_def)
  then have "u = running k" using u s unfolding wait_lists_ok_def by metis
  then have "waiting k (running k)" using u by (auto simp: waiting_def)
  then show False using kernel_inv_running [OF inv] by simp
qed

lemma exec_Cond_wait:
  assumes inv: "kernel_inv K k" and code: "code k (running k) = Cond_wait c l w # is"
  shows "\<exists>k'. exec page (Cond_wait c l w) (pop_code k) = Some k' \<and> kernel_inv K k'"
proof -
  note C = kernel_inv_code [OF inv code]
  let ?k = "push_code (running k) [Lock_release l, Sema_down (elem_sema w), Lock_acquire l]
     ((upd_sema (elem_sema w) (\<lambda>_. \<lparr>sema_value = 0, waiters = []\<rparr>) (pop_code k))
       \<lparr>cond_waiters := (cond_waiters k)(c := cond_waiters k c @ [w])\<rparr>)"
  have l: "is_lock K l" and h: "lock_holder k l = running k" and w: "K (elem_sema w) = Waiter_sema (running k)"
    using C by (simp_all add: held_def)
  have nw: "waiters (semas k (elem_sema w)) = []" by (rule own_elem_no_waiters [OF inv w])
  have "exec page (Cond_wait c l w) (pop_code k) = Some ?k"
    using kernel_inv_pop [OF inv] l h C
    by (simp add: cond_wait_def lock_held_by_current_thread_def is_lock_def sema_init_def)
       (simp add: pop_code_def push_code_def upd_sema_def)
  moreover have "held K ?k (running k) = held K k (running k)" by (simp add: held_def upd_defs)
  moreover have "insert l (held K k (running k) - {l}) = held K k (running k)" using C by auto
  ultimately show ?thesis
    apply (intro exI [of _ ?k] conjI)
     apply simp
    apply (rule kernel_inv_quiet [OF inv code])
    using code C h w nw kernel_inv_running_NULL [OF inv] kernel_inv_cond [OF inv]
    by (auto simp: upd_defs cond_inv_def ownership_def is_lock_def)
qed

lemma exec_Cond_signal:
  assumes inv: "kernel_inv K k" and code: "code k (running k) = Cond_signal c l # is"
  shows "\<exists>k'. exec page (Cond_signal c l) (pop_code k) = Some k' \<and> kernel_inv K k'"
proof -
  note C = kernel_inv_code [OF inv code]
  have l: "is_lock K l" and h: "lock_holder k l = running k" using C by (simp_all add: held_def)
  show ?thesis
  proof (cases "cond_waiters k c")
    case Nil
    have "exec page (Cond_signal c l) (pop_code k) = Some (pop_code k)"
      using kernel_inv_pop [OF inv] l h C Nil
      by (simp add: cond_signal_def lock_held_by_current_thread_def is_lock_def) (simp add: pop_code_def)
    moreover have "kernel_inv K (pop_code k)"
      by (rule kernel_inv_quiet [OF inv code])
         (use code C kernel_inv_cond [OF inv] in \<open>simp_all add: upd_defs cond_inv_def held_def ownership_def\<close>)
    ultimately show ?thesis by blast
  next
    case (Cons w ws)
    let ?k = "push_code (running k) [Sema_up (elem_sema w)] ((pop_code k)\<lparr>cond_waiters := (cond_waiters k)(c := ws)\<rparr>)"
    have cw: "\<forall>v \<in> set (w # ws). elem_sema v \<noteq> NULL \<and> K (elem_sema v) \<noteq> Lock_sema"
      using kernel_inv_cond [OF inv] Cons unfolding cond_inv_def by metis
    then have c: "cond_inv K ?k" using kernel_inv_cond [OF inv] by (simp add: cond_inv_def upd_defs)
    have w: "elem_sema w \<noteq> NULL" "K (elem_sema w) \<noteq> Lock_sema" using cw by simp_all
    have "exec page (Cond_signal c l) (pop_code k) = Some ?k"
      using kernel_inv_pop [OF inv] l h C Cons
      by (simp add: cond_signal_def lock_held_by_current_thread_def is_lock_def) (simp add: pop_code_def push_code_def)
    moreover have "kernel_inv K ?k"
      by (rule kernel_inv_quiet [OF inv code])
         (use code C w c in \<open>auto simp: upd_defs held_def ownership_def is_lock_def\<close>)
    ultimately show ?thesis by blast
  qed
qed

lemma exec_Cond_broadcast:
  assumes inv: "kernel_inv K k" and code: "code k (running k) = Cond_broadcast c l # is"
  shows "\<exists>k'. exec page (Cond_broadcast c l) (pop_code k) = Some k' \<and> kernel_inv K k'"
proof -
  note C = kernel_inv_code [OF inv code]
  let ?k = "if cond_waiters k c \<noteq> [] then push_code (running k) [Cond_signal c l, Cond_broadcast c l] (pop_code k) else pop_code k"
  have l: "is_lock K l" using C by simp
  have "exec page (Cond_broadcast c l) (pop_code k) = Some ?k"
    using l C by (simp add: cond_broadcast_def is_lock_def) (simp add: pop_code_def)
  moreover have "kernel_inv K ?k"
    by (rule kernel_inv_quiet [OF inv code])
       (use code C kernel_inv_cond [OF inv] in \<open>auto simp: upd_defs cond_inv_def held_def ownership_def\<close>)
  ultimately show ?thesis by blast
qed

lemma exec_Take_tid:
  assumes inv: "kernel_inv K k" and code: "code k (running k) = Take_tid u # is"
  shows "\<exists>k'. exec page (Take_tid u) (pop_code k) = Some k' \<and> kernel_inv K k'"
proof -
  note C = kernel_inv_code [OF inv code]
  let ?k = "set_tid u (next_tid k) ((pop_code k)\<lparr>next_tid := s32 (next_tid k + 1)\<rparr>)"
  have "exec page (Take_tid u) (pop_code k) = Some ?k"
    by (simp add: allocate_tid_def take_tid_def) (simp add: pop_code_def)
  moreover have "kernel_inv K ?k"
    by (rule kernel_inv_quiet [OF inv code])
       (use code C kernel_inv_cond [OF inv] in
         \<open>simp_all add: upd_defs cond_inv_def held_def ownership_def set_tid_def upd_thread_def\<close>)
  ultimately show ?thesis by blast
qed

lemma exec_Sema_loop_take:
  assumes inv: "kernel_inv K k" and code: "code k (running k) = Sema_loop s old # is"
    and v: "sema_value (semas k s) \<noteq> 0"
  shows "\<exists>k'. exec page (Sema_loop s old) (pop_code k) = Some k' \<and> kernel_inv K k'"
proof -
  note C = kernel_inv_code [OF inv code]
  let ?k = "(upd_sema s (\<lambda>x. x\<lparr>sema_value := sema_value x - 1\<rparr>) (pop_code k))\<lparr>if_flag := (old = INTR_ON)\<rparr>"
  have "exec page (Sema_loop s old) (pop_code k) = Some ?k"
    using v kernel_inv_ext [OF inv] by (simp add: sema_down_loop_def intr_set_level_ok upd_defs)
  moreover have "kernel_inv K ?k"
    by (rule kernel_inv_quiet [OF inv code])
       (use v code C kernel_inv_cond [OF inv] in
         \<open>auto simp: upd_defs cond_inv_def held_def ownership_def\<close>)
  ultimately show ?thesis by blast
qed

subsection \<open>The pieces of code that block, wake up or switch threads\<close>

lemma kernel_inv_sched:
  assumes inv: "kernel_inv K k" and r: "r = running k"
    and ok: "threads_ok (waiting k') k'" "\<not> in_external_intr k'" "wait_lists_ok K k'"
    and same: "idle_thread k' = idle_thread k" "tid_lock k' = tid_lock k" "cond_waiters k' = cond_waiters k"
      "lock_holder k' = lock_holder k"
    and other: "\<And>t. t \<noteq> r \<Longrightarrow> code k' t = code k t"
    and ifl: "\<And>t. t \<noteq> r \<Longrightarrow> code k t \<noteq> [] \<Longrightarrow> iflag k' t = iflag k t"
    and own: "code_ok K (tid_lock k) (idle_thread k) r (held K k r) (iflag k' r) (code k' r)"
    and bal: "\<And>l. is_lock K l \<Longrightarrow> int (sema_value (semas k' (lock_sema l))) + tokens l (code k' r)
           = int (sema_value (semas k (lock_sema l))) + tokens l (code k r)"
    and dead: "\<And>t. t \<noteq> r \<Longrightarrow> \<not> is_thread k' t \<or> status (threads k' t) = THREAD_DYING \<Longrightarrow>
           \<not> is_thread k t \<or> status (threads k t) = THREAD_DYING"
    and dead_r: "\<not> is_thread k' r \<or> status (threads k' r) = THREAD_DYING \<Longrightarrow> code k' r = [] \<and> held K k r = {}"
    and st: "starts (code k' r) = starts (code k r)"
    and emb: "\<And>t. t \<noteq> r \<Longrightarrow> t \<noteq> idle_thread k \<Longrightarrow> is_thread k t \<Longrightarrow> status (threads k t) = THREAD_BLOCKED \<Longrightarrow>
           t \<notin> set (sleep_list k) \<Longrightarrow> \<not> waiting k t \<Longrightarrow>
           is_thread k' t \<and> status (threads k' t) = THREAD_BLOCKED \<and> t \<notin> set (sleep_list k') \<and> \<not> waiting k' t"
  shows "kernel_inv K k'"
proof -
  note I = inv [unfolded kernel_inv_def]
  have hold: "\<forall>l. is_lock K l \<longrightarrow> lock_holder k' l = lock_holder k l \<or> {lock_holder k l, lock_holder k' l} \<subseteq> {r, NULL}"
    using same by simp
  have held: "held K k' = held K k" by (simp add: held_def same fun_eq_iff)
  show ?thesis
  proof (rule kernel_invI)
    show "threads_ok (waiting k') k'" "\<not> in_external_intr k'" "wait_lists_ok K k'" using ok by simp_all
    show "cond_inv K k'" using I by (simp add: cond_inv_def same)
    show "is_lock K (tid_lock k')" using I by (simp add: same)
    show "code_inv K k'"
      by (rule code_inv_step [OF inv r _ _ hold]) (use same other ifl own held in simp_all)
    show "lock_inv K k'"
      by (rule lock_inv_step [OF inv r hold]) (use other bal same in \<open>simp_all add: ownership_def\<close>)
    show "dead_inv K k'"
      by (rule dead_inv_step [OF inv r hold]) (use other dead dead_r held in blast, use dead_r held in simp)
    have "distinct (starts (code k r))" using I unfolding embryo_inv_def by blast
    then show "embryo_inv K k'"
      by (intro embryo_inv_step [OF inv r _ hold]) (use same other st emb in simp_all)
  qed
qed

lemma waiting_same: "(\<And>s. waiters (semas k' s) = waiters (semas k s)) \<Longrightarrow> waiting k' = waiting k"
  by (simp add: waiting_def fun_eq_iff)

lemma wait_lists_same: "(\<And>s. waiters (semas k' s) = waiters (semas k s)) \<Longrightarrow> wait_lists_ok K k' = wait_lists_ok K k"
  by (simp add: wait_lists_ok_def)

lemma switch_target_update [sys_simps]:
  "switch_target (free_victims k) = switch_target k"
  "switch_target (set_status t s k) = switch_target k"
  "switch_target (k\<lparr>if_flag := b\<rparr>) = switch_target k"
  "switch_target (sleep_push n k) = switch_target k"
  by (simp_all add: switch_target_def thread_simps split: list.splits)

lemma switch_target_sys [sys_simps]:
  "switch_target (k\<lparr>code := c\<rparr>) = switch_target k"
  "switch_target (k\<lparr>semas := sm\<rparr>) = switch_target k"
  by (simp_all add: switch_target_def split: list.splits)

lemma blocked_not_target:
  assumes "threads_ok W k" and "status (threads k t) = THREAD_BLOCKED" and "t \<noteq> idle_thread k"
  shows "t \<noteq> switch_target k" and "t \<notin> set (destruction_req k)"
proof -
  note c = assms(1) [unfolded threads_ok_def]
  show "t \<noteq> switch_target k" using c assms(2,3) by (cases k rule: switch_target_cases) (auto simp: ready_ok_def)
  show "t \<notin> set (destruction_req k)" using c assms(2) by (auto simp: dying_ok_def)
qed

lemma victims_dying: "threads_ok W k \<Longrightarrow> t \<in> set (destruction_req k) \<Longrightarrow> status (threads k t) = THREAD_DYING"
  by (simp add: threads_ok_def dying_ok_def)

lemma exec_Thread_exit:
  assumes inv: "kernel_inv K k" and code: "code k (running k) = Thread_exit # is"
  shows "\<exists>k'. exec page Thread_exit (pop_code k) = Some k' \<and> kernel_inv K k'"
proof -
  note C = kernel_inv_code [OF inv code] and P = kernel_inv_pop [OF inv] and x = kernel_inv_ext [OF inv]
  note ok0 = inv [unfolded kernel_inv_def, THEN conjunct1] and E = thread_exit_ok [OF P(5)]
  let ?k = "switched (set_status (running k) THREAD_DYING (free_victims ((pop_code k)\<lparr>if_flag := False\<rparr>)))"
  have ni: "running k \<noteq> idle_thread k" and h: "held K k (running k) = {}" and e: "is = []" using C by simp_all
  have ex: "exec page Thread_exit (pop_code k) = Some ?k" and ok: "threads_ok (waiting k) ?k"
    using E P(3) x ni by (simp_all add: pop_code_def)
  have s: "semas ?k = semas k" by (simp add: sys_simps pop_code_def)
  have w: "waiting ?k = waiting k" by (rule waiting_same) (simp add: s)
  have "kernel_inv K ?k"
  proof (rule kernel_inv_sched [OF inv refl])
    show "threads_ok (waiting ?k) ?k" using ok w by simp
    show "wait_lists_ok K ?k" using inv s by (simp add: wait_lists_ok_def kernel_inv_def)
    show "\<not> is_thread k t \<or> status (threads k t) = THREAD_DYING"
      if "t \<noteq> running k" "\<not> is_thread ?k t \<or> status (threads ?k t) = THREAD_DYING" for t
      using that victims_dying [OF ok0] by (auto simp: thread_simps pop_code_def split: if_splits)
    show "is_thread ?k t \<and> status (threads ?k t) = THREAD_BLOCKED \<and> t \<notin> set (sleep_list ?k) \<and> \<not> waiting ?k t"
      if "t \<noteq> running k" "t \<noteq> idle_thread k" "is_thread k t" "status (threads k t) = THREAD_BLOCKED"
        "t \<notin> set (sleep_list k)" "\<not> waiting k t" for t
      unfolding w using that blocked_not_target [OF ok0 that(4,2)] by (simp add: thread_simps sys_simps pop_code_def)
  qed (use code C h e x in \<open>simp_all add: thread_simps sys_simps pop_code_def iflag_switched\<close>)
  with ex show ?thesis by blast
qed

lemma exec_Thread_sleep:
  assumes inv: "kernel_inv K k" and code: "code k (running k) = Thread_sleep n # is"
  shows "\<exists>k'. exec page (Thread_sleep n) (pop_code k) = Some k' \<and> kernel_inv K k'"
proof -
  note C = kernel_inv_code [OF inv code] and P = kernel_inv_pop [OF inv] and x = kernel_inv_ext [OF inv]
  note ok0 = inv [unfolded kernel_inv_def, THEN conjunct1] and E = thread_sleep_ok [OF P(5)]
  have ni: "running k \<noteq> idle_thread k" using C by simp
  let ?s = "slept n (pop_code k)"
  let ?k = "push_code (running k) [Set_level (intr_get_level k)] ?s"
  have ex: "exec page (Thread_sleep n) (pop_code k) = Some ?k" and ok: "threads_ok (waiting k) ?k"
    using E P(3) x ni by (simp_all add: pop_code_def after_switch_def push_code_def intr_get_level_def)
  have s: "semas ?k = semas k" by (simp add: sys_simps pop_code_def push_code_def slept_def)
  have w: "waiting ?k = waiting k" by (rule waiting_same) (simp add: s)
  have "kernel_inv K ?k"
  proof (rule kernel_inv_sched [OF inv refl])
    show "threads_ok (waiting ?k) ?k" using ok w by simp
    show "wait_lists_ok K ?k" using inv s by (simp add: wait_lists_ok_def kernel_inv_def)
    show "\<not> is_thread k t \<or> status (threads k t) = THREAD_DYING"
      if "t \<noteq> running k" "\<not> is_thread ?k t \<or> status (threads ?k t) = THREAD_DYING" for t
      using that by (auto simp: thread_simps pop_code_def push_code_def slept_def split: if_splits)
    show "is_thread ?k t \<and> status (threads ?k t) = THREAD_BLOCKED \<and> t \<notin> set (sleep_list ?k) \<and> \<not> waiting ?k t"
      if "t \<noteq> running k" "t \<noteq> idle_thread k" "is_thread k t" "status (threads k t) = THREAD_BLOCKED"
        "t \<notin> set (sleep_list k)" "\<not> waiting k t" for t
      unfolding w using that blocked_not_target [OF ok0 that(4,2)]
      by (simp add: thread_simps sys_simps pop_code_def push_code_def slept_def)
  qed (use code C x kernel_inv_running [OF inv] in
        \<open>simp_all add: thread_simps sys_simps pop_code_def push_code_def slept_def iflag_switched level_of_flag
          split: if_splits\<close>)
  with ex show ?thesis by blast
qed

lemma yield_target:
  "switch_target (yield_push k) = (if ready_list k = [] then running k else hd (ready_list k))"
  by (auto simp: switch_target_def thread_simps split: list.splits)

text \<open>What a yield does to the threads that are not running.\<close>

lemma yielded_others:
  assumes ok: "threads_ok W k" and t: "t \<noteq> running k"
  shows "\<not> is_thread (yielded k) t \<or> status (threads (yielded k) t) = THREAD_DYING \<Longrightarrow>
          \<not> is_thread k t \<or> status (threads k t) = THREAD_DYING"
    and "t \<noteq> idle_thread k \<Longrightarrow> is_thread k t \<Longrightarrow> status (threads k t) = THREAD_BLOCKED \<Longrightarrow>
          is_thread (yielded k) t \<and> status (threads (yielded k) t) = THREAD_BLOCKED"
    and "iflag (yielded k) t = iflag k t"
proof -
  have tg: "ready_list k \<noteq> [] \<Longrightarrow> status (threads k (hd (ready_list k))) = THREAD_READY"
    using ok by (simp add: threads_ok_def ready_ok_def)
  show "\<not> is_thread (yielded k) t \<or> status (threads (yielded k) t) = THREAD_DYING \<Longrightarrow>
      \<not> is_thread k t \<or> status (threads k t) = THREAD_DYING"
    using victims_dying [OF ok] t by (auto simp: yielded_def thread_simps is_thread_def split: if_splits)
  have "status (threads k t) = THREAD_BLOCKED \<Longrightarrow> switch_target (free_victims (yield_push k)) \<noteq> t"
    unfolding switch_target_update yield_target using t tg by (auto split: if_splits)
  then show "t \<noteq> idle_thread k \<Longrightarrow> is_thread k t \<Longrightarrow> status (threads k t) = THREAD_BLOCKED \<Longrightarrow>
      is_thread (yielded k) t \<and> status (threads (yielded k) t) = THREAD_BLOCKED"
    using blocked_not_target(2) [OF ok] t
    by (auto simp: yielded_def thread_simps is_thread_def split: if_splits)
  show "iflag (yielded k) t = iflag k t"
    using t by (simp add: yielded_def iflag_switched sys_simps thread_simps)
qed

lemma yielded_fields [sys_simps]:
  "code (yielded k) = code k" "semas (yielded k) = semas k" "lock_holder (yielded k) = lock_holder k"
  "cond_waiters (yielded k) = cond_waiters k" "tid_lock (yielded k) = tid_lock k"
  "idle_thread (yielded k) = idle_thread k" "sleep_list (yielded k) = sleep_list k"
  "in_external_intr (yielded k) = in_external_intr k"
  by (simp_all add: yielded_def sys_simps thread_simps)

lemma yielded_running:
  "is_thread k (running k) \<Longrightarrow> running k \<notin> set (destruction_req k) \<Longrightarrow> is_thread (yielded k) (running k)"
  "status (threads (yielded k) (running k)) \<noteq> THREAD_DYING"
  "\<not> iflag (yielded k) (running k)"
  by (simp_all add: yielded_def thread_simps iflag_switched sys_simps is_thread_def split: if_splits)

lemma exec_Thread_yield:
  assumes inv: "kernel_inv K k" and code: "code k (running k) = Thread_yield # is"
  shows "\<exists>k'. exec page Thread_yield (pop_code k) = Some k' \<and> kernel_inv K k'"
proof -
  note C = kernel_inv_code [OF inv code] and P = kernel_inv_pop [OF inv] and x = kernel_inv_ext [OF inv]
  note E = thread_yield_ok [OF P(5)] and Y = yielded_others [OF P(5)] and R = kernel_inv_running [OF inv]
  let ?s = "yielded (pop_code k)"
  let ?k = "push_code (running k) [Set_level (intr_get_level k)] ?s"
  have ex: "exec page Thread_yield (pop_code k) = Some ?k" and ok: "threads_ok (waiting k) ?k"
    using E P(3) x by (simp_all add: pop_code_def after_switch_def push_code_def intr_get_level_def)
  have s: "semas ?k = semas k" by (simp add: sys_simps pop_code_def push_code_def)
  have w: "waiting ?k = waiting k" by (rule waiting_same) (simp add: s)
  have "is_thread (pop_code k) (running (pop_code k)) \<and> running (pop_code k) \<notin> set (destruction_req (pop_code k))"
    using P(3) R threads_ok_no_victim [OF P(5)] threads_ok_running [OF P(5)] by simp
  note YR = yielded_running [of "pop_code k"] this
  have "kernel_inv K ?k"
  proof (rule kernel_inv_sched [OF inv refl])
    show "threads_ok (waiting ?k) ?k" using ok w by simp
    show "wait_lists_ok K ?k" using inv s by (simp add: wait_lists_ok_def kernel_inv_def)
    show "\<not> is_thread k t \<or> status (threads k t) = THREAD_DYING"
      if "t \<noteq> running k" "\<not> is_thread ?k t \<or> status (threads ?k t) = THREAD_DYING" for t
      using that Y(1) [of t] by (simp add: push_code_def) (simp add: pop_code_def)
    show "is_thread ?k t \<and> status (threads ?k t) = THREAD_BLOCKED \<and> t \<notin> set (sleep_list ?k) \<and> \<not> waiting ?k t"
      if "t \<noteq> running k" "t \<noteq> idle_thread k" "is_thread k t" "status (threads k t) = THREAD_BLOCKED"
        "t \<notin> set (sleep_list k)" "\<not> waiting k t" for t
      unfolding w using that Y(2) [of t] by (simp add: push_code_def sys_simps) (simp add: pop_code_def)
    show "iflag ?k t = iflag k t" if "t \<noteq> running k" for t
      using that Y(3) [of t] P(3) by (simp add: push_code_def sys_simps) (simp add: pop_code_def sys_simps)
    show "\<not> is_thread ?k (running k) \<or> status (threads ?k (running k)) = THREAD_DYING \<Longrightarrow>
        code ?k (running k) = [] \<and> held K k (running k) = {}"
      using YR P(3) by (simp add: push_code_def)
    have "iflag ?k (running k) = False" using YR(3) P(3) by (simp add: push_code_def sys_simps)
    then show "code_ok K (tid_lock k) (idle_thread k) (running k) (held K k (running k)) (iflag ?k (running k)) (code ?k (running k))"
      using code C by (simp add: push_code_def pop_code_def sys_simps level_of_flag)
  qed (use code x in \<open>simp_all add: sys_simps pop_code_def push_code_def\<close>)
  with ex show ?thesis by blast
qed

lemma exec_Idle_loop:
  assumes inv: "kernel_inv K k" and code: "code k (running k) = Idle_loop # is"
  shows "\<exists>k'. exec page Idle_loop (pop_code k) = Some k' \<and> kernel_inv K k'"
proof -
  note C = kernel_inv_code [OF inv code] and P = kernel_inv_pop [OF inv] and x = kernel_inv_ext [OF inv]
  note ok0 = inv [unfolded kernel_inv_def, THEN conjunct1] and R = kernel_inv_running [OF inv]
  let ?p = "push_code (running k) [Sti, Idle_loop] ((pop_code k)\<lparr>if_flag := False\<rparr>)"
  let ?k = "switched (set_status (running k) THREAD_BLOCKED ?p)"
  have r: "running ?p = running k" and okp: "threads_ok (waiting k) ?p"
    using ok0 by (simp_all add: pop_code_def push_code_def)
  have ex: "exec page Idle_loop (pop_code k) = Some ?k"
    using thread_block_eq [of ?p] threads_ok_running [OF okp] threads_ok_target [OF okp] x r
    by (simp add: idle_loop_def intr_disable_def push_code_def pop_code_def)
  have ok: "threads_ok (waiting k) ?k"
    using threads_ok_switch [OF okp, of THREAD_BLOCKED "waiting k" False] x r
    by (simp add: push_code_def pop_code_def)
  have s: "semas ?k = semas k" by (simp add: sys_simps pop_code_def push_code_def)
  have w: "waiting ?k = waiting k" by (rule waiting_same) (simp add: s)
  have "kernel_inv K ?k"
  proof (rule kernel_inv_sched [OF inv refl])
    show "threads_ok (waiting ?k) ?k" using ok w by simp
    show "wait_lists_ok K ?k" using inv s by (simp add: wait_lists_ok_def kernel_inv_def)
    show "\<not> is_thread k t \<or> status (threads k t) = THREAD_DYING"
      if "t \<noteq> running k" "\<not> is_thread ?k t \<or> status (threads ?k t) = THREAD_DYING" for t
      using that by (auto simp: thread_simps pop_code_def push_code_def split: if_splits)
    show "is_thread ?k t \<and> status (threads ?k t) = THREAD_BLOCKED \<and> t \<notin> set (sleep_list ?k) \<and> \<not> waiting ?k t"
      if "t \<noteq> running k" "t \<noteq> idle_thread k" "is_thread k t" "status (threads k t) = THREAD_BLOCKED"
        "t \<notin> set (sleep_list k)" "\<not> waiting k t" for t
      unfolding w using that blocked_not_target [OF ok0 that(4,2)]
      by (simp add: thread_simps sys_simps pop_code_def push_code_def)
  qed (use code C x R in
        \<open>simp_all add: thread_simps sys_simps pop_code_def push_code_def iflag_switched split: if_splits\<close>)
  with ex show ?thesis by blast
qed

lemma threads_ok_unblocked:
  assumes ok: "threads_ok W k" and t: "is_thread k t" "status (threads k t) = THREAD_BLOCKED"
      "t \<notin> set (sleep_list k)" "t \<noteq> idle_thread k"
    and W': "\<And>u. W' u \<longleftrightarrow> W u \<and> u \<noteq> t"
  shows "threads_ok W' (unblocked t k)"
proof (rule threads_okI)
  note c = ok [unfolded threads_ok_def]
  show "queues_distinct (unblocked t k)" using c t by (auto simp: queues_distinct_def ready_ok_def thread_simps)
  show "ready_ok (unblocked t k)" using c t by (auto simp: ready_ok_def thread_simps)
  show "ready_complete (unblocked t k)" using c t by (auto simp: ready_complete_def thread_simps)
  show "sleep_ok W' (unblocked t k)" using c t W' by (auto simp: sleep_ok_def thread_simps)
  show "wait_ok W' (unblocked t k)" using c t W' by (auto simp: wait_ok_def thread_simps)
  show "dying_ok (unblocked t k)" using c t by (auto simp: dying_ok_def thread_simps)
  show "running_ok (unblocked t k)" using c t by (auto simp: running_ok_def thread_simps)
  show "idle_ok W' (unblocked t k)" using c t W' by (auto simp: idle_ok_def thread_simps)
  show "alarms_ok (unblocked t k)" using c by (auto simp: alarms_ok_def thread_simps)
qed

lemma wait_lists_sub:
  assumes wl: "wait_lists_ok K k" and d: "\<And>u. distinct (waiters (semas k' u))"
    and sub: "\<And>u v. v \<in> set (waiters (semas k' u)) \<Longrightarrow>
        v \<in> set (waiters (semas k u)) \<or> v = t \<and> u = s \<and> (\<forall>v. K s = Waiter_sema v \<longrightarrow> t = v)"
    and t: "\<And>u. t \<notin> set (waiters (semas k u))"
  shows "wait_lists_ok K k'"
  unfolding wait_lists_ok_def
proof (intro conjI allI impI)
  show "u = u'" if "v \<in> set (waiters (semas k' u)) \<and> v \<in> set (waiters (semas k' u'))" for u u' v
    using that sub [of v u] sub [of v u'] t wl unfolding wait_lists_ok_def by blast
  show "v = w" if "K u = Waiter_sema w \<and> v \<in> set (waiters (semas k' u))" for u v w
    using that sub [of v u] wl unfolding wait_lists_ok_def by blast
qed (rule d)

lemma exec_Sema_loop_wait:
  assumes inv: "kernel_inv K k" and code: "code k (running k) = Sema_loop s old # is"
    and v: "sema_value (semas k s) = 0"
  shows "\<exists>k'. exec page (Sema_loop s old) (pop_code k) = Some k' \<and> kernel_inv K k'"
proof -
  note C = kernel_inv_code [OF inv code] and P = kernel_inv_pop [OF inv] and x = kernel_inv_ext [OF inv]
  note ok0 = inv [unfolded kernel_inv_def, THEN conjunct1] and R = kernel_inv_running [OF inv]
  let ?p = "push_code (running k) [Sema_loop s old] (upd_sema s (\<lambda>x. x\<lparr>waiters := waiters x @ [running k]\<rparr>) (pop_code k))"
  let ?k = "switched (set_status (running k) THREAD_BLOCKED ?p)"
  have r: "running ?p = running k" and okp: "threads_ok (waiting k) ?p"
    using ok0 by (simp_all add: upd_defs)
  have ex: "exec page (Sema_loop s old) (pop_code k) = Some ?k"
    using thread_block_eq [of ?p] threads_ok_running [OF okp] threads_ok_target [OF okp] x r v C P(1)
    by (simp add: sema_down_loop_def upd_defs)
  have s: "semas ?k = (semas k)(s := (semas k s)\<lparr>waiters := waiters (semas k s) @ [running k]\<rparr>)"
    by (simp add: sys_simps upd_defs)
  have w: "waiting ?k t \<longleftrightarrow> waiting k t \<or> t = running k" for t by (auto simp: waiting_def s)
  have ok: "threads_ok (waiting ?k) ?k"
    using threads_ok_switch [OF okp, of THREAD_BLOCKED "waiting ?k" True] x r w C
    by (simp add: upd_defs)
  have nw: "running k \<notin> set (waiters (semas k u))" for u using R(4) by (auto simp: waiting_def)
  have wl: "wait_lists_ok K ?k"
  proof (rule wait_lists_sub [where t = "running k" and s = s])
    show "wait_lists_ok K k" using inv by (simp add: kernel_inv_def)
    then show "distinct (waiters (semas ?k u))" for u using nw s by (simp add: wait_lists_ok_def)
    show "v \<in> set (waiters (semas k u)) \<or> v = running k \<and> u = s \<and> (\<forall>v. K s = Waiter_sema v \<longrightarrow> running k = v)"
      if "v \<in> set (waiters (semas ?k u))" for u v using that C(1) unfolding s by (auto split: if_splits)
  qed (rule nw)
  have "kernel_inv K ?k"
  proof (rule kernel_inv_sched [OF inv refl])
    show "threads_ok (waiting ?k) ?k" "wait_lists_ok K ?k" by (fact ok, fact wl)
    show "\<not> is_thread k t \<or> status (threads k t) = THREAD_DYING"
      if "t \<noteq> running k" "\<not> is_thread ?k t \<or> status (threads ?k t) = THREAD_DYING" for t
      using that by (auto simp: thread_simps upd_defs split: if_splits)
    show "is_thread ?k t \<and> status (threads ?k t) = THREAD_BLOCKED \<and> t \<notin> set (sleep_list ?k) \<and> \<not> waiting ?k t"
      if "t \<noteq> running k" "t \<noteq> idle_thread k" "is_thread k t" "status (threads k t) = THREAD_BLOCKED"
        "t \<notin> set (sleep_list k)" "\<not> waiting k t" for t
      unfolding w using that blocked_not_target [OF ok0 that(4,2)]
      by (simp add: thread_simps sys_simps upd_defs)
  qed (use code C x R in
        \<open>auto simp: thread_simps sys_simps upd_defs iflag_switched split: if_splits\<close>)
  with ex show ?thesis by blast
qed

lemma lock_value_le:
  assumes inv: "kernel_inv K k" and l: "is_lock K l"
  shows "sema_value (semas k (lock_sema l)) \<le> 1"
proof -
  have "0 \<le> (\<Sum>t \<in> UNIV - {NULL}. ownership k l t)" by (rule sum_nonneg) (use ownership_nonneg [OF inv l] in simp)
  moreover have "int (sema_value (semas k (lock_sema l))) + (\<Sum>t \<in> UNIV - {NULL}. ownership k l t) = 1"
    using inv l by (simp add: kernel_inv_def lock_inv_def)
  ultimately show ?thesis by linarith
qed

lemma sema_up_lock_value:
  assumes inv: "kernel_inv K k" and l: "is_lock K l"
  shows "Suc (sema_value (semas k (lock_sema l))) mod 4294967296 = Suc (sema_value (semas k (lock_sema l)))"
  using lock_value_le [OF assms] by (intro mod_less) simp

lemma exec_Sema_up_free:
  assumes inv: "kernel_inv K k" and code: "code k (running k) = Sema_up s # is"
    and e: "waiters (semas k s) = []"
  shows "\<exists>k'. exec page (Sema_up s) (pop_code k) = Some k' \<and> kernel_inv K k'"
proof -
  note C = kernel_inv_code [OF inv code] and x = kernel_inv_ext [OF inv]
  let ?k = "upd_sema s (\<lambda>x. x\<lparr>sema_value := Suc (sema_value x) mod 2 ^ 32\<rparr>) (pop_code k)"
  have "exec page (Sema_up s) (pop_code k) = Some ?k"
    using C x e by (simp add: sema_up_def intr_disable_def intr_set_level_ok intr_get_level_def upd_defs)
  moreover have "kernel_inv K ?k"
    by (rule kernel_inv_quiet [OF inv code])
       (use code C kernel_inv_cond [OF inv] sema_up_lock_value [OF inv] in
         \<open>auto simp: upd_defs cond_inv_def held_def ownership_def\<close>)
  ultimately show ?thesis by blast
qed

lemma exec_Sema_up_wake:
  assumes inv: "kernel_inv K k" and code: "code k (running k) = Sema_up s # is"
    and e: "waiters (semas k s) = t # ts"
  shows "\<exists>k'. exec page (Sema_up s) (pop_code k) = Some k' \<and> kernel_inv K k'"
proof -
  note C = kernel_inv_code [OF inv code] and x = kernel_inv_ext [OF inv] and R = kernel_inv_running [OF inv]
  note ok0 = inv [unfolded kernel_inv_def, THEN conjunct1] and wl = inv [unfolded kernel_inv_def wait_lists_ok_def]
  let ?p = "upd_sema s (\<lambda>x. x\<lparr>waiters := ts\<rparr>) ((pop_code k)\<lparr>if_flag := False\<rparr>)"
  let ?k = "(upd_sema s (\<lambda>x. x\<lparr>sema_value := Suc (sema_value x) mod 2 ^ 32\<rparr>) (unblocked t ?p))\<lparr>if_flag := if_flag k\<rparr>"
  have tw: "waiting k t" using e by (auto simp: waiting_def intro!: exI [of _ s])
  have t: "is_thread k t" "status (threads k t) = THREAD_BLOCKED" "t \<notin> set (sleep_list k)" "t \<noteq> idle_thread k"
    using ok0 tw by (auto simp: threads_ok_def wait_ok_def sleep_ok_def idle_ok_def)
  have "thread_unblock t ?p = Some (unblocked t ?p)"
    using t x by (intro thread_unblock_eq) (simp_all add: upd_defs)
  then have ex: "exec page (Sema_up s) (pop_code k) = Some ?k"
    using C x e by (simp add: sema_up_def intr_disable_def intr_set_level_ok intr_get_level_def upd_defs unblocked_def)
  have s: "semas ?k = (semas k)(s := (semas k s)\<lparr>waiters := ts, sema_value := Suc (sema_value (semas k s)) mod 2 ^ 32\<rparr>)"
    by (simp add: sys_simps upd_defs)
  have d: "distinct (waiters (semas k u))" and only: "t \<in> set (waiters (semas k u)) \<Longrightarrow> u = s" for u
    using wl e by (blast, metis list.set_intros(1))
  have w: "waiting ?k u \<longleftrightarrow> waiting k u \<and> u \<noteq> t" for u
  proof (cases "u = t")
    case True
    then show ?thesis unfolding waiting_def s using only d [of s] e by (auto split: if_splits)
  next
    case False
    have "u \<in> set (waiters (semas ?k v)) \<longleftrightarrow> u \<in> set (waiters (semas k v))" for v
      unfolding s using False e by simp
    then show ?thesis using False by (simp add: waiting_def)
  qed
  have "threads_ok (waiting ?k) (unblocked t ?p)"
    by (rule threads_ok_unblocked [where W = "waiting k"]) (use ok0 t w in \<open>simp_all add: upd_defs\<close>)
  then have ok: "threads_ok (waiting ?k) ?k" by (simp add: upd_sema_def)
  have wl': "wait_lists_ok K ?k"
  proof (rule wait_lists_sub [where t = "running k"])
    show "wait_lists_ok K k" using inv by (simp add: kernel_inv_def)
    show "distinct (waiters (semas ?k u))" for u unfolding s using d [of u] d [of s] e by simp
    show "running k \<notin> set (waiters (semas k u))" for u using R(4) by (auto simp: waiting_def)
  qed (use e s in \<open>auto split: if_splits\<close>)
  have "kernel_inv K ?k"
  proof (rule kernel_inv_sched [OF inv refl])
    show "threads_ok (waiting ?k) ?k" "wait_lists_ok K ?k" by (fact ok, fact wl')
    show "\<not> is_thread k u \<or> status (threads k u) = THREAD_DYING"
      if "u \<noteq> running k" "\<not> is_thread ?k u \<or> status (threads ?k u) = THREAD_DYING" for u
      using that by (auto simp: thread_simps upd_defs split: if_splits)
    show "is_thread ?k u \<and> status (threads ?k u) = THREAD_BLOCKED \<and> u \<notin> set (sleep_list ?k) \<and> \<not> waiting ?k u"
      if "u \<noteq> running k" "u \<noteq> idle_thread k" "is_thread k u" "status (threads k u) = THREAD_BLOCKED"
        "u \<notin> set (sleep_list k)" "\<not> waiting k u" for u
      unfolding w using that tw by (auto simp: thread_simps sys_simps upd_defs)
    show "int (sema_value (semas ?k (lock_sema l))) + tokens l (code ?k (running k))
        = int (sema_value (semas k (lock_sema l))) + tokens l (code k (running k))" if "is_lock K l" for l
      using code sema_up_lock_value [OF inv that] by (auto simp: sys_simps upd_defs)
    show "code_ok K (tid_lock k) (idle_thread k) (running k) (held K k (running k)) (iflag ?k (running k)) (code ?k (running k))"
      using code C by (simp add: thread_simps sys_simps upd_defs)
  qed (use code C x R in \<open>auto simp: thread_simps sys_simps upd_defs split: if_splits\<close>)
  with ex show ?thesis by blast
qed

lemma init_frame_fields [sys_simps]:
  "running (init_frame t a b c k) = running k" "ready_list (init_frame t a b c k) = ready_list k"
  "sleep_list (init_frame t a b c k) = sleep_list k" "destruction_req (init_frame t a b c k) = destruction_req k"
  "idle_thread (init_frame t a b c k) = idle_thread k"
  "earliest_wake_up_tick (init_frame t a b c k) = earliest_wake_up_tick k"
  "sleep_tail (init_frame t a b c k) = sleep_tail k" "in_external_intr (init_frame t a b c k) = in_external_intr k"
  "if_flag (init_frame t a b c k) = if_flag k"
  "status (threads (init_frame t a b c k) u) = status (threads k u)"
  "magic (threads (init_frame t a b c k) u) = magic (threads k u)"
  "alarm (threads (init_frame t a b c k) u) = alarm (threads k u)"
  "is_thread (init_frame t a b c k) u = is_thread k u"
  by (simp_all add: init_frame_def upd_thread_def is_thread_def)

lemma init_frame_sys [sys_simps]:
  "code (init_frame t a b c k) = code k" "semas (init_frame t a b c k) = semas k"
  "lock_holder (init_frame t a b c k) = lock_holder k" "cond_waiters (init_frame t a b c k) = cond_waiters k"
  "tid_lock (init_frame t a b c k) = tid_lock k"
  by (simp_all add: init_frame_def upd_thread_def)

lemma iflag_running: "iflag k (running k) = if_flag k"
  by (simp add: iflag_def)

lemma iflag_init_frame: "u \<noteq> t \<Longrightarrow> iflag (init_frame t a b c k) u = iflag k u"
  by (simp add: iflag_def init_frame_def upd_thread_def)

lemma threads_ok_init_frame [sys_simps]: "threads_ok W (init_frame t a b c k) = threads_ok W k"
  by (simp only: threads_ok_def queues_distinct_def ready_ok_def ready_complete_def sleep_ok_def wait_ok_def
      dying_ok_def running_ok_def idle_ok_def alarms_ok_def sys_simps)

lemma exec_Start_thread:
  assumes inv: "kernel_inv K k" and code: "code k (running k) = Start_thread u body # is"
  shows "\<exists>k'. exec page (Start_thread u body) (pop_code k) = Some k' \<and> kernel_inv K k'"
proof -
  note C = kernel_inv_code [OF inv code] and x = kernel_inv_ext [OF inv] and R = kernel_inv_running [OF inv]
  note I = inv [unfolded kernel_inv_def]
  let ?f = "init_frame u 1 1 0 (pop_code k)"
  let ?p = "?f\<lparr>code := (code ?f)(u := [Kernel_thread body])\<rparr>"
  let ?k = "unblocked u ?p"
  have em: "embryo_inv K k" using I by simp
  have "u \<in> set (starts (code k (running k)))" using code by simp
  then have u: "is_thread k u" "status (threads k u) = THREAD_BLOCKED" "u \<notin> set (sleep_list k)" "\<not> waiting k u"
      "u \<noteq> idle_thread k" "code k u = []" "held K k u = {}"
    and uniq: "\<And>v. u \<in> set (starts (code k v)) \<Longrightarrow> v = running k"
    using em unfolding embryo_inv_def by blast+
  have ur: "u \<noteq> running k" "u \<noteq> NULL" using u(2) R(3) u(1) by (auto simp: is_thread_def)
  have "distinct (starts (code k (running k)))" using em unfolding embryo_inv_def by blast
  then have dst: "u \<notin> set (starts is)" "distinct (starts is)" using code by simp_all
  have ex: "exec page (Start_thread u body) (pop_code k) = Some ?k"
    using thread_unblock_eq [of ?p u] u x by (simp add: start_thread_def sys_simps pop_code_def)
  have cd: "code ?k = (code k)(running k := is, u := [Kernel_thread body])"
    using code by (simp add: sys_simps pop_code_def)
  have s: "semas ?k = semas k" by (simp add: sys_simps pop_code_def)
  have w: "waiting ?k = waiting k" by (rule waiting_same) (simp add: s)
  have h: "\<forall>l. is_lock K l \<longrightarrow> lock_holder ?k l = lock_holder k l \<or> {lock_holder k l, lock_holder ?k l} \<subseteq> {running k, NULL}"
    by (simp add: sys_simps pop_code_def)
  have hd: "held K ?k = held K k" by (simp add: held_def sys_simps pop_code_def fun_eq_iff)
  have il: "iflag ?k v = iflag k v" if "v \<noteq> u" for v
    using that by (simp add: sys_simps iflag_init_frame pop_code_def)
  have th: "status (threads ?k v) = (if v = u then THREAD_READY else status (threads k v))" "is_thread ?k v = is_thread k v" for v
    by (simp_all add: thread_simps sys_simps pop_code_def)
  have ot: "tid_lock ?k = tid_lock k" "idle_thread ?k = idle_thread k" "sleep_list ?k = sleep_list k"
    by (simp_all add: thread_simps sys_simps pop_code_def)
  show ?thesis
  proof (intro exI conjI, rule ex, rule kernel_invI)
    have "threads_ok (waiting k) ?p" using I by (simp add: sys_simps pop_code_def)
    then show "threads_ok (waiting ?k) ?k"
      unfolding w by (rule threads_ok_unblocked) (use u in \<open>auto simp: sys_simps pop_code_def\<close>)
    show "\<not> in_external_intr ?k" using x by (simp add: thread_simps sys_simps pop_code_def)
    show "wait_lists_ok K ?k" using I by (simp add: wait_lists_ok_def s)
    show "cond_inv K ?k" using I by (simp add: cond_inv_def sys_simps pop_code_def)
    show "is_lock K (tid_lock ?k)" using I ot by simp
    have "is_lock K (tid_lock k)" using I by simp
    show "code_inv K ?k"
      by (rule code_inv_step [OF inv refl ot(1,2) h]) (use cd il hd ur u C in \<open>auto simp: iflag_running\<close>)
    show "lock_inv K ?k"
      by (rule lock_inv_step [OF inv refl h])
         (use cd u ur code in \<open>auto simp: ownership_def s sys_simps pop_code_def\<close>)
    show "dead_inv K ?k"
      by (rule dead_inv_step [OF inv refl h]) (use cd th ur u R in \<open>auto split: if_splits\<close>)
    show "embryo_inv K ?k"
    proof (rule embryo_inv_step [OF inv refl ot(2) h])
      show "is_thread ?k t \<and> status (threads ?k t) = THREAD_BLOCKED \<and> t \<notin> set (sleep_list ?k) \<and> \<not> waiting ?k t
            \<and> code ?k t = code k t"
        if t: "t \<in> set (starts (code ?k v))" "t \<noteq> running k" "is_thread k t" "status (threads k t) = THREAD_BLOCKED"
          "t \<notin> set (sleep_list k)" "\<not> waiting k t" for v t
      proof -
        have "t \<noteq> u" using t(1) cd dst(1) uniq [of v] by (auto split: if_splits)
        then show ?thesis using t cd th ot w by simp
      qed
    qed (use cd ur u code dst in auto)
  qed
qed
text \<open>A page that holds no thread is on no list, and initialising it there disturbs no thread.\<close>

lemma fresh_page_nowhere:
  assumes "threads_ok W k" and "\<not> is_thread k p"
  shows "p \<notin> set (ready_list k)" and "p \<notin> set (sleep_list k)" and "p \<notin> set (destruction_req k)"
    and "\<not> W p" and "p \<noteq> running k" and "p \<noteq> idle_thread k"
  using assms by (auto simp: threads_ok_def ready_ok_def sleep_ok_def dying_ok_def wait_ok_def running_ok_def idle_ok_def)

lemma threads_ok_init_thread:
  assumes ok: "threads_ok W k" and p: "\<not> is_thread k p" and st: "status th = THREAD_BLOCKED"
  shows "threads_ok W (upd_thread p (\<lambda>_. th) k)"
proof -
  note f = fresh_page_nowhere [OF ok p] and c = ok [unfolded threads_ok_def]
  let ?k = "upd_thread p (\<lambda>_. th) k"
  have e: "running ?k = running k" "ready_list ?k = ready_list k" "sleep_list ?k = sleep_list k"
      "destruction_req ?k = destruction_req k" "idle_thread ?k = idle_thread k"
      "earliest_wake_up_tick ?k = earliest_wake_up_tick k" "sleep_tail ?k = sleep_tail k"
    by (simp_all add: upd_thread_def)
  have t: "threads ?k u = (if u = p then th else threads k u)" for u by (simp add: upd_thread_def)
  have i: "u \<noteq> p \<Longrightarrow> is_thread ?k u = is_thread k u" for u by (simp add: is_thread_def t)
  show ?thesis
  proof (rule threads_okI)
    show "queues_distinct ?k" using c by (simp add: queues_distinct_def e)
    show "ready_ok ?k" using c f by (auto simp: ready_ok_def e t i)
    show "ready_complete ?k" using c st by (auto simp: ready_complete_def e t i)
    show "sleep_ok W ?k" using c f by (auto simp: sleep_ok_def e t i)
    show "wait_ok W ?k" using c f by (auto simp: wait_ok_def e t i)
    show "dying_ok ?k" using c f by (auto simp: dying_ok_def e t i)
    show "running_ok ?k" using c f st by (auto simp: running_ok_def e t i)
    show "idle_ok W ?k" using c f by (auto simp: idle_ok_def e t i)
    have al: "\<forall>x \<in> set (sleep_list k). alarm (threads ?k x) = alarm (threads k x)" using f(2) by (auto simp: t)
    have "sorted_wrt (\<lambda>x y. alarm (threads ?k x) \<le> alarm (threads ?k y)) (sleep_list k)
        = sorted_wrt (\<lambda>x y. alarm (threads k x) \<le> alarm (threads k y)) (sleep_list k)"
      using al by (auto intro: sorted_wrt_mono_rel [rotated])
    moreover have "sleep_list k \<noteq> [] \<Longrightarrow> alarm (threads ?k (hd (sleep_list k))) = alarm (threads k (hd (sleep_list k)))"
      using al by simp
    ultimately show "alarms_ok ?k" using c unfolding alarms_ok_def e by simp
  qed
qed

lemma init_thread_blocked:
  assumes "t \<noteq> NULL" and "PRI_MIN \<le> prio" and "prio \<le> PRI_MAX"
  obtains th where "status th = THREAD_BLOCKED" "magic th = THREAD_MAGIC"
    "init_thread t nm prio k = Some (upd_thread t (\<lambda>_. th) k)"
  by (rule that [of "\<lparr>tid = 0, status = THREAD_BLOCKED, name = take 15 nm, priority = prio, alarm = 0,
             tf = zero_frame\<lparr>f_rsp := t + of_nat PGSIZE - 8\<rparr>, magic = THREAD_MAGIC\<rparr>"])
     (use assms in \<open>simp_all add: init_thread_def\<close>)

lemma exec_Thread_create:
  assumes inv: "kernel_inv K k" and code: "code k (running k) = Thread_create nm prio body # is" and pg: "page_ok k page"
  shows "\<exists>k'. exec page (Thread_create nm prio body) (pop_code k) = Some k' \<and> kernel_inv K k'"
proof (cases "page = NULL")
  case True
  note C = kernel_inv_code [OF inv code]
  have "kernel_inv K (pop_code k)"
    by (rule kernel_inv_quiet [OF inv code])
       (use code C kernel_inv_cond [OF inv] in \<open>simp_all add: upd_defs cond_inv_def held_def ownership_def\<close>)
  then show ?thesis using True by (simp add: thread_create_def)
next
  case False
  note C = kernel_inv_code [OF inv code] and x = kernel_inv_ext [OF inv] and R = kernel_inv_running [OF inv]
  note I = inv [unfolded kernel_inv_def]
  have p: "\<not> is_thread k page" using pg False by (simp add: page_ok_def)
  have f: "page \<noteq> running k" "page \<notin> set (sleep_list k)" "\<not> waiting k page" "page \<noteq> idle_thread k"
    using fresh_page_nowhere [OF _ p] I by blast+
  have pe: "code k page = []" "held K k page = {}" using I p False by (simp_all add: dead_inv_def)
  have em: "embryo_inv K k" using I by simp
  then have np: "page \<notin> set (starts (code k u))" for u using p unfolding embryo_inv_def by blast
  obtain th where th: "status th = THREAD_BLOCKED" "magic th = THREAD_MAGIC"
    and it: "init_thread page nm prio (pop_code k) = Some (upd_thread page (\<lambda>_. th) (pop_code k))"
    using C(1) False by (auto intro: init_thread_blocked [of page prio nm "pop_code k"])
  let ?u = "upd_thread page (\<lambda>_. th) (pop_code k)"
  let ?cs = "[Lock_acquire (tid_lock k), Take_tid page, Lock_release (tid_lock k), Start_thread page body]"
  let ?k = "push_code (running k) ?cs ?u"
  have ex: "exec page (Thread_create nm prio body) (pop_code k) = Some ?k"
    using it False by (simp add: thread_create_def) (simp add: upd_thread_def pop_code_def)
  have cd: "code ?k = (code k)(running k := ?cs @ is)"
    using code by (simp add: push_code_def upd_thread_def pop_code_def)
  have s: "semas ?k = semas k" by (simp add: push_code_def upd_thread_def pop_code_def)
  have w: "waiting ?k = waiting k" by (rule waiting_same) (simp add: s)
  have lh: "lock_holder ?k = lock_holder k" by (simp add: push_code_def upd_thread_def pop_code_def)
  have h: "\<forall>l. is_lock K l \<longrightarrow> lock_holder ?k l = lock_holder k l \<or> {lock_holder k l, lock_holder ?k l} \<subseteq> {running k, NULL}"
    by (simp add: lh)
  have hd: "held K ?k = held K k" by (simp add: held_def lh fun_eq_iff)
  have ot: "tid_lock ?k = tid_lock k" "idle_thread ?k = idle_thread k" "sleep_list ?k = sleep_list k"
      "running ?k = running k" "if_flag ?k = if_flag k"
    by (simp_all add: push_code_def upd_thread_def pop_code_def)
  have tt: "threads ?k v = (if v = page then th else threads k v)" for v
    by (simp add: push_code_def upd_thread_def pop_code_def)
  have it: "is_thread ?k v \<longleftrightarrow> is_thread k v \<or> v = page" for v using False p th by (auto simp: is_thread_def tt)
  have il: "iflag ?k v = iflag k v" if "code k v \<noteq> [] \<or> v = running k" for v
  proof -
    have "v \<noteq> page" using that pe(1) f(1) by metis
    then show ?thesis by (simp add: iflag_def tt ot)
  qed
  have lk: "lock_sema (tid_lock k) \<noteq> NULL" using C(1) by (simp add: is_lock_def)
  show ?thesis
  proof (intro exI conjI, rule ex, rule kernel_invI)
    have "threads_ok (waiting k) ?u"
      using I p th by (intro threads_ok_init_thread) (simp_all add: pop_code_def)
    then show "threads_ok (waiting ?k) ?k" unfolding w by (simp add: push_code_def)
    show "\<not> in_external_intr ?k" using x by (simp add: push_code_def upd_thread_def pop_code_def)
    show "wait_lists_ok K ?k" using I by (simp add: wait_lists_ok_def s)
    show "cond_inv K ?k" using I by (simp add: cond_inv_def push_code_def upd_thread_def pop_code_def)
    show "is_lock K (tid_lock ?k)" using I ot by simp
    have own: "code_ok K (tid_lock k) (idle_thread k) (running k) (held K ?k (running k)) (iflag ?k (running k)) (code ?k (running k))"
      unfolding cd hd il [OF disjI2 [OF refl]] iflag_running using C by simp
    show "code_inv K ?k"
      by (rule code_inv_step [OF inv refl ot(1,2) h _ own], rule disjI1, unfold cd) (use il in simp)
    show "lock_inv K ?k"
      by (rule lock_inv_step [OF inv refl h]) (use cd code in \<open>auto simp: ownership_def s lh\<close>)
    show "dead_inv K ?k"
      by (rule dead_inv_step [OF inv refl h]) (use cd it tt th R f in \<open>auto split: if_splits\<close>)
    have st: "starts (code ?k u) = (if u = running k then [page] else []) @ starts (code k u)" for u
      using cd code by simp
    show "embryo_inv K ?k"
      unfolding embryo_inv_def
    proof (intro conjI allI impI)
      fix u t assume "t \<in> set (starts (code ?k u))"
      then have t: "t = page \<or> t \<in> set (starts (code k u))" by (auto simp: st split: if_splits)
      then show "is_thread ?k t" "status (threads ?k t) = THREAD_BLOCKED" "t \<notin> set (sleep_list ?k)" "\<not> waiting ?k t"
          "t \<noteq> idle_thread ?k" "held K ?k t = {}"
        using em f pe th unfolding embryo_inv_def it tt w ot hd by auto
      have "t \<noteq> running k" using t f em R(3) unfolding embryo_inv_def by auto
      then show "code ?k t = []" using t em pe unfolding embryo_inv_def cd by auto
    next
      show "distinct (starts (code ?k u))" for u using em np unfolding embryo_inv_def st by auto
      show "u = u'" if "t \<in> set (starts (code ?k u)) \<and> t \<in> set (starts (code ?k u'))" for u u' t
      proof -
        have "u = u'" if "t \<in> set (starts (code k u))" "t \<in> set (starts (code k u'))"
          using em that unfolding embryo_inv_def by blast
        then show ?thesis using that np [of u] np [of u'] unfolding st by (auto split: if_splits)
      qed
    qed
  qed
qed

end
