(* ===== verification/Kernel_Safety.thy ===== *)
theory Kernel_Safety
  imports Kernel_Inv
begin

section \<open>Safety of the kernel\<close>

text \<open>
  The remaining steps of the machine of theory \<open>Kernel\<close> (calls, returns, the timer interrupt), the
  invariant for every reachable state, and what follows from it: no assertion fails, and locks exclude.
\<close>

subsection \<open>Calls, returns and the timer interrupt\<close>

lemma kernel_inv_call:
  assumes inv: "kernel_inv K k" and code: "code k (running k) = Body # is" and i: "legal K k i"
  shows "kernel_inv K (push_code (running k) [i] k)"
proof -
  note C = kernel_inv_code [OF inv code]
  have t: "tokens l (i # js) = tokens l js" if "is_lock K l" for l js
    using i that by (cases i) (auto simp: legal_def is_lock_def)
  have st: "starts (i # js) = starts js" for js using i by (cases i) (auto simp: legal_def)
  have own: "code_ok K (tid_lock k) (idle_thread k) (running k) (held K k (running k)) (if_flag k) (i # Body # is)"
    using i C by (cases i) (auto simp: legal_def)
  show ?thesis
    by (rule kernel_inv_quiet [OF inv code])
       (use code own t st kernel_inv_cond [OF inv] in
         \<open>simp_all add: push_code_def cond_inv_def held_def ownership_def del: code_ok.simps tokens.simps starts.simps\<close>)
qed

lemma kernel_inv_return:
  assumes inv: "kernel_inv K k" and code: "code k (running k) = Body # is" and h: "held K k (running k) = {}"
  shows "kernel_inv K (pop_code k)"
proof -
  note C = kernel_inv_code [OF inv code]
  have h': "held K (pop_code k) (running k) = {}" using h by (simp add: held_def pop_code_def)
  show ?thesis
    by (rule kernel_inv_quiet [OF inv code])
       (use code C h' kernel_inv_cond [OF inv] in \<open>simp_all add: cond_inv_def ownership_def\<close>,
        simp_all add: pop_code_def cond_inv_def)
qed

lemma timer_done_fields:
  "running (timer_done k) = running k" "idle_thread (timer_done k) = idle_thread k"
  "set (sleep_list (timer_done k)) \<subseteq> set (sleep_list k)" "is_thread (timer_done k) t = is_thread k t"
  "t \<notin> set (sleep_list k) \<Longrightarrow> status (threads (timer_done k) t) = status (threads k t)"
  "status (threads (timer_done k) t) = THREAD_DYING \<Longrightarrow> status (threads k t) = THREAD_DYING"
  "iflag (timer_done k) = iflag k" "if_flag (timer_done k) = if_flag k" "\<not> in_external_intr (timer_done k)"
  by (auto simp: timer_done_def Let_def thread_simps due_def not_due_def is_thread_def iflag_def fun_eq_iff
      alarmed_def woken_def dest: set_takeWhileD set_dropWhileD split: if_splits)

lemma timer_done_sys [sys_simps]:
  "code (timer_done k) = code k" "semas (timer_done k) = semas k" "lock_holder (timer_done k) = lock_holder k"
  "cond_waiters (timer_done k) = cond_waiters k" "tid_lock (timer_done k) = tid_lock k"
  by (simp_all add: timer_done_def Let_def sys_simps)

definition irq_entry :: "sys \<Rightarrow> sys" where
  "irq_entry k = (if code k (running k) \<noteq> [] \<and> hd (code k (running k)) = Hlt then pop_code k else k)\<lparr>if_flag := False\<rparr>"

lemma irq_entry_fields:
  "running (irq_entry k) = running k" "idle_thread (irq_entry k) = idle_thread k" "ticks (irq_entry k) = ticks k"
  "sleep_tail (irq_entry k) = sleep_tail k" "in_external_intr (irq_entry k) = in_external_intr k"
  "threads (irq_entry k) = threads k" "sleep_list (irq_entry k) = sleep_list k" "\<not> if_flag (irq_entry k)"
  "is_thread (irq_entry k) = is_thread k" "threads_ok W (irq_entry k) = threads_ok W k"
  "semas (irq_entry k) = semas k" "lock_holder (irq_entry k) = lock_holder k" "tid_lock (irq_entry k) = tid_lock k"
  "cond_waiters (irq_entry k) = cond_waiters k" "destruction_req (irq_entry k) = destruction_req k"
  "t \<noteq> running k \<Longrightarrow> code (irq_entry k) t = code k t" "t \<noteq> running k \<Longrightarrow> iflag (irq_entry k) t = iflag k t"
  by (simp_all add: irq_entry_def pop_code_def sys_simps)

lemma irq_entry_code:
  assumes inv: "kernel_inv K k" and "if_flag k"
  shows "tokens l (code (irq_entry k) (running k)) = tokens l (code k (running k))"
    and "starts (code (irq_entry k) (running k)) = starts (code k (running k))"
    and "code_ok K (tid_lock k) (idle_thread k) (running k) (held K k (running k)) True (code (irq_entry k) (running k))"
proof -
  have ok: "code_ok K (tid_lock k) (idle_thread k) (running k) (held K k (running k)) True (code k (running k))"
    using inv assms(2) iflag_running unfolding kernel_inv_def code_inv_def by metis
  show "tokens l (code (irq_entry k) (running k)) = tokens l (code k (running k))"
    "starts (code (irq_entry k) (running k)) = starts (code k (running k))"
    "code_ok K (tid_lock k) (idle_thread k) (running k) (held K k (running k)) True (code (irq_entry k) (running k))"
    using ok by (cases "code k (running k)"; auto simp: irq_entry_def pop_code_def)+
qed

lemma timer_irq_eq:
  assumes inv: "kernel_inv K k" and "if_flag k" and "s64 (ticks k + 1) < sleep_tail k"
  shows "timer_irq k = Some
    (if yield_on_return (timer_done (irq_entry k))
     then push_code (running k) [Set_level INTR_OFF, Iret] (yielded (timer_done (irq_entry k)))
     else (timer_done (irq_entry k))\<lparr>if_flag := True\<rparr>)"
proof -
  have "threads_ok (waiting k) (irq_entry k)" using inv by (simp add: kernel_inv_def irq_entry_fields)
  from timer_dispatch_eq [OF this] assms(3) kernel_inv_ext [OF inv] show ?thesis
    by (simp add: irq_entry_fields timer_irq_def irq_entry_def [symmetric])
qed

lemma kernel_inv_tick:
  assumes inv: "kernel_inv K k" and en: "if_flag k" and tk: "s64 (ticks k + 1) < sleep_tail k"
  shows "\<exists>k'. timer_irq k = Some k' \<and> kernel_inv K k'"
proof -
  let ?d = "timer_done (irq_entry k)"
  note ok0 = inv [unfolded kernel_inv_def, THEN conjunct1] and R = kernel_inv_running [OF inv]
  note D = timer_done_fields [where k = "irq_entry k", unfolded irq_entry_fields] and E = irq_entry_code [OF inv en]
  have okd: "threads_ok (waiting k) ?d"
    using timer_done_ok(1) [of "waiting k" "irq_entry k"] ok0 tk by (simp add: irq_entry_fields)
  have ifl: "iflag ?d t = iflag k t" if "t \<noteq> running k" for t using that D(7) irq_entry_fields(17) by simp
  have wl: "wait_lists_ok K k" using inv by (simp add: kernel_inv_def)
  show ?thesis
  proof (cases "yield_on_return ?d")
    case False
    let ?k = "?d\<lparr>if_flag := True\<rparr>"
    have s: "semas ?k = semas k" by (simp add: sys_simps irq_entry_fields)
    have w: "waiting ?k = waiting k" by (rule waiting_same) (simp add: s)
    have "kernel_inv K ?k"
    proof (rule kernel_inv_sched [OF inv refl])
      show "threads_ok (waiting ?k) ?k" unfolding w using okd by simp
      show "wait_lists_ok K ?k" using wl by (simp add: wait_lists_ok_def sys_simps irq_entry_fields)
      show "is_thread ?k t \<and> status (threads ?k t) = THREAD_BLOCKED \<and> t \<notin> set (sleep_list ?k) \<and> \<not> waiting ?k t"
        if "is_thread k t" "status (threads k t) = THREAD_BLOCKED" "t \<notin> set (sleep_list k)" "\<not> waiting k t" for t
        unfolding w using that D(3,4,5) by auto
      show "iflag ?k t = iflag k t" if "t \<noteq> running k" for t using that ifl D(1) by (simp add: sys_simps)
      show "code_ok K (tid_lock k) (idle_thread k) (running k) (held K k (running k)) (iflag ?k (running k)) (code ?k (running k))"
        using E(3) D(1) by (simp add: sys_simps)
    qed (use D E R in \<open>auto simp: sys_simps irq_entry_fields\<close>)
    then show ?thesis using timer_irq_eq [OF inv en tk] False by simp
  next
    case True
    let ?k = "push_code (running k) [Set_level INTR_OFF, Iret] (yielded ?d)"
    have s: "semas ?k = semas k" by (simp add: sys_simps irq_entry_fields push_code_def)
    have w: "waiting ?k = waiting k" by (rule waiting_same) (simp add: s)
    note Y = yielded_others [OF okd, unfolded D(1)]
    have "is_thread ?d (running ?d) \<and> running ?d \<notin> set (destruction_req ?d)"
      using threads_ok_no_victim [OF okd] threads_ok_running [OF okd] by simp
    then have YR: "is_thread (yielded ?d) (running k)" "status (threads (yielded ?d) (running k)) \<noteq> THREAD_DYING"
        "\<not> iflag (yielded ?d) (running k)"
      using yielded_running [of ?d] D(1) by simp_all
    have "kernel_inv K ?k"
    proof (rule kernel_inv_sched [OF inv refl])
      show "threads_ok (waiting ?k) ?k"
        unfolding w using thread_yield_ok(2) [OF okd D(9)] by (simp add: push_code_def)
      show "wait_lists_ok K ?k" using wl by (simp add: wait_lists_ok_def sys_simps irq_entry_fields push_code_def)
      show "\<not> is_thread k t \<or> status (threads k t) = THREAD_DYING"
        if "t \<noteq> running k" "\<not> is_thread ?k t \<or> status (threads ?k t) = THREAD_DYING" for t
        using Y(1) [OF that(1)] that(2) D(4,6) by (auto simp: push_code_def)
      show "is_thread ?k t \<and> status (threads ?k t) = THREAD_BLOCKED \<and> t \<notin> set (sleep_list ?k) \<and> \<not> waiting ?k t"
        if "t \<noteq> running k" "t \<noteq> idle_thread k" "is_thread k t" "status (threads k t) = THREAD_BLOCKED"
          "t \<notin> set (sleep_list k)" "\<not> waiting k t" for t
        unfolding w using that Y(2) [OF that(1)] D by (auto simp: push_code_def sys_simps)
      show "iflag ?k t = iflag k t" if "t \<noteq> running k" for t
        using that ifl Y(3) by (simp add: sys_simps push_code_def)
      have "iflag ?k (running k) = False" using YR(3) by (simp add: push_code_def sys_simps)
      then show "code_ok K (tid_lock k) (idle_thread k) (running k) (held K k (running k)) (iflag ?k (running k)) (code ?k (running k))"
        using E(3) by (simp add: push_code_def sys_simps)
    qed (use D E YR in \<open>auto simp: sys_simps irq_entry_fields push_code_def\<close>)
    then show ?thesis using timer_irq_eq [OF inv en tk] True by simp
  qed
qed

subsection \<open>Every step\<close>

lemma exec_ok:
  assumes inv: "kernel_inv K k" and code: "code k (running k) = i # is" and "i \<noteq> Body" and "i \<noteq> Hlt" and "page_ok k page"
  shows "\<exists>k'. exec page i (pop_code k) = Some k' \<and> kernel_inv K k'"
proof (cases i)
  case (Sema_loop s old)
  then show ?thesis
    using exec_Sema_loop_take [OF inv] exec_Sema_loop_wait [OF inv] code by (cases "sema_value (semas k s) = 0") blast+
next
  case (Sema_up s)
  then show ?thesis
    using exec_Sema_up_free [OF inv] exec_Sema_up_wake [OF inv] code by (cases "waiters (semas k s)") blast+
next
  case (Idle_start s)
  then show ?thesis using kernel_inv_code(1) [OF inv code] by simp
next
  case (Sema_down s)
  show ?thesis unfolding Sema_down by (rule exec_Sema_down [OF inv code [unfolded Sema_down]])
next
  case (Sema_try_down s)
  show ?thesis unfolding Sema_try_down by (rule exec_Sema_try_down [OF inv code [unfolded Sema_try_down]])
next
  case (Lock_acquire l)
  show ?thesis unfolding Lock_acquire by (rule exec_Lock_acquire [OF inv code [unfolded Lock_acquire]])
next
  case (Lock_try_acquire l)
  show ?thesis unfolding Lock_try_acquire by (rule exec_Lock_try_acquire [OF inv code [unfolded Lock_try_acquire]])
next
  case (Set_holder l)
  show ?thesis unfolding Set_holder by (rule exec_Set_holder [OF inv code [unfolded Set_holder]])
next
  case (Lock_release l)
  show ?thesis unfolding Lock_release by (rule exec_Lock_release [OF inv code [unfolded Lock_release]])
next
  case (Cond_wait c l w)
  show ?thesis unfolding Cond_wait by (rule exec_Cond_wait [OF inv code [unfolded Cond_wait]])
next
  case (Cond_signal c l)
  show ?thesis unfolding Cond_signal by (rule exec_Cond_signal [OF inv code [unfolded Cond_signal]])
next
  case (Cond_broadcast c l)
  show ?thesis unfolding Cond_broadcast by (rule exec_Cond_broadcast [OF inv code [unfolded Cond_broadcast]])
next
  case (Take_tid t)
  show ?thesis unfolding Take_tid by (rule exec_Take_tid [OF inv code [unfolded Take_tid]])
next
  case (Start_thread t body)
  show ?thesis unfolding Start_thread by (rule exec_Start_thread [OF inv code [unfolded Start_thread]])
next
  case (Kernel_thread body)
  show ?thesis unfolding Kernel_thread by (rule exec_Kernel_thread [OF inv code [unfolded Kernel_thread]])
next
  case Thread_yield
  show ?thesis unfolding Thread_yield by (rule exec_Thread_yield [OF inv code [unfolded Thread_yield]])
next
  case (Timer_sleep n)
  show ?thesis unfolding Timer_sleep by (rule exec_Timer_sleep [OF inv code [unfolded Timer_sleep]])
next
  case (Thread_sleep n)
  show ?thesis unfolding Thread_sleep by (rule exec_Thread_sleep [OF inv code [unfolded Thread_sleep]])
next
  case Thread_exit
  show ?thesis unfolding Thread_exit by (rule exec_Thread_exit [OF inv code [unfolded Thread_exit]])
next
  case (Set_level l)
  show ?thesis unfolding Set_level by (rule exec_Set_level [OF inv code [unfolded Set_level]])
next
  case Iret
  show ?thesis unfolding Iret by (rule exec_Iret [OF inv code [unfolded Iret]])
next
  case Idle_loop
  show ?thesis unfolding Idle_loop by (rule exec_Idle_loop [OF inv code [unfolded Idle_loop]])
next
  case Sti
  show ?thesis unfolding Sti by (rule exec_Sti [OF inv code [unfolded Sti]])
next
  case (Thread_create nm prio body)
  show ?thesis unfolding Thread_create by (rule exec_Thread_create [OF inv code [unfolded Thread_create] assms(5)])
qed (use assms(3,4) in simp_all)

lemma kernel_inv_step: "kstep K k k' \<Longrightarrow> kernel_inv K k \<Longrightarrow> kernel_inv K k'"
proof (induction rule: kstep.induct)
  case (run k i "is" page k')
  then show ?case using exec_ok [OF run.prems run.hyps(1-4)] by simp
next
  case (call k "is" i)
  then show ?case by (blast intro: kernel_inv_call)
next
  case (return k "is")
  then show ?case by (blast intro: kernel_inv_return)
next
  case (tick k k')
  then show ?case using kernel_inv_tick [OF tick.prems tick.hyps(1,2)] by simp
qed

lemma kernel_inv_steps: "(kstep K)\<^sup>*\<^sup>* k k' \<Longrightarrow> kernel_inv K k \<Longrightarrow> kernel_inv K k'"
  by (induction rule: rtranclp_induct) (auto intro: kernel_inv_step)

subsection \<open>Who holds a lock\<close>

text \<open>The thread operations do not touch the part of the state that the synchronization primitives add.\<close>

lemma more_holder: "kernel.more k' = kernel.more k \<Longrightarrow> lock_holder k' = lock_holder k"
  by (cases k; cases k') simp

lemma more_schedule: "schedule k = Some k' \<Longrightarrow> kernel.more k' = kernel.more k"
  by (auto simp: schedule_def next_thread_to_run_def thread_launch_def set_status_def upd_thread_def Let_def
      bind_ASSERT_eq_Some split: if_splits list.splits prod.splits)

lemma more_free_victims: "kernel.more (free_victims k) = kernel.more k"
  by (simp add: free_victims_eq)

lemma more_set_status: "kernel.more (set_status t s k) = kernel.more k"
  by (simp add: set_status_def upd_thread_def)

lemma more_do_schedule: "do_schedule s k = Some k' \<Longrightarrow> kernel.more k' = kernel.more k"
  by (auto simp: do_schedule_def bind_ASSERT_eq_Some bind_eq_Some_conv more_free_victims more_set_status
      Let_def dest!: more_schedule)

lemma more_thread_block: "thread_block k = Some k' \<Longrightarrow> kernel.more k' = kernel.more k"
  by (auto simp: thread_block_def bind_ASSERT_eq_Some bind_eq_Some_conv more_set_status dest!: more_schedule)

lemma more_intr_set_level: "intr_set_level l k = Some (old, k') \<Longrightarrow> kernel.more k' = kernel.more k"
  by (cases l) (auto simp: intr_defs bind_ASSERT_eq_Some)

lemma more_thread_unblock: "thread_unblock t k = Some k' \<Longrightarrow> kernel.more k' = kernel.more k"
  by (auto simp: thread_unblock_def intr_disable_def bind_ASSERT_eq_Some bind_eq_Some_conv more_set_status
      dest!: more_intr_set_level)

lemma more_thread_yield: "thread_yield k = Some (l, k') \<Longrightarrow> kernel.more k' = kernel.more k"
  by (auto simp: thread_yield_def intr_disable_def bind_ASSERT_eq_Some bind_eq_Some_conv
      dest!: more_do_schedule split: if_splits)

lemma more_thread_sleep: "thread_sleep n k = Some (l, k') \<Longrightarrow> kernel.more k' = kernel.more k"
  by (auto simp: thread_sleep_def intr_disable_def bind_ASSERT_eq_Some bind_eq_Some_conv upd_thread_def earliest_time_def Let_def
      dest!: more_thread_block split: if_splits)

lemma more_thread_exit: "thread_exit k = Some k' \<Longrightarrow> kernel.more k' = kernel.more k"
  by (auto simp: thread_exit_def intr_disable_def bind_ASSERT_eq_Some dest!: more_do_schedule)

lemmas holder_rules = more_thread_block [THEN more_holder] more_thread_unblock [THEN more_holder]
  more_thread_yield [THEN more_holder] more_thread_sleep [THEN more_holder] more_thread_exit [THEN more_holder]
  more_intr_set_level [THEN more_holder]

named_theorems holder_dests \<open>the holders of the locks behind an operation\<close>

lemma holder_sema [holder_dests]:
  "sema_down s k = Some k' \<Longrightarrow> lock_holder k' = lock_holder k"
  "sema_try_down s k = Some (b, k') \<Longrightarrow> lock_holder k' = lock_holder k"
  "sema_up s k = Some k' \<Longrightarrow> lock_holder k' = lock_holder k"
  by (auto simp: sema_down_def sema_try_down_def sema_up_def intr_disable_def push_code_def upd_sema_def
      bind_ASSERT_eq_Some bind_eq_Some_conv dest!: holder_rules split: if_splits list.splits)

lemma holder_sema_loop [holder_dests]: "sema_down_loop s old k = Some k' \<Longrightarrow> lock_holder k' = lock_holder k"
  by (auto simp: sema_down_loop_def push_code_def upd_sema_def bind_eq_Some_conv dest!: holder_rules split: if_splits)

lemma holder_lock [holder_dests]:
  "lock_acquire l k = Some k' \<Longrightarrow> lock_holder k' = lock_holder k"
  "lock_try_acquire l k = Some k' \<Longrightarrow> lock_holder k' = lock_holder k"
  "set_holder l k = Some k' \<Longrightarrow> lock_holder k' = (lock_holder k)(l := running k)"
  "lock_release l k = Some k' \<Longrightarrow> lock_holder k' = (lock_holder k)(l := NULL)"
  by (auto simp: lock_acquire_def lock_try_acquire_def set_holder_def lock_release_def push_code_def
      thread_current_def running_thread_def Let_def bind_ASSERT_eq_Some bind_eq_Some_conv dest!: holder_sema split: if_splits)

lemma holder_cond [holder_dests]:
  "cond_wait c l w k = Some k' \<Longrightarrow> lock_holder k' = lock_holder k"
  "cond_signal c l k = Some k' \<Longrightarrow> lock_holder k' = lock_holder k"
  "cond_broadcast c l k = Some k' \<Longrightarrow> lock_holder k' = lock_holder k"
  by (auto simp: cond_wait_def cond_signal_def cond_broadcast_def push_code_def upd_sema_def sema_init_def
      bind_ASSERT_eq_Some bind_eq_Some_conv split: if_splits list.splits)

lemma holder_create [holder_dests]:
  "thread_create p nm prio body k = Some k' \<Longrightarrow> lock_holder k' = lock_holder k"
  "allocate_tid p k = Some k' \<Longrightarrow> lock_holder k' = lock_holder k"
  "start_thread p body k = Some k' \<Longrightarrow> lock_holder k' = lock_holder k"
  "kernel_thread body k = Some k' \<Longrightarrow> lock_holder k' = lock_holder k"
  by (auto simp: thread_create_def init_thread_def allocate_tid_def take_tid_def set_tid_def start_thread_def
      init_frame_def kernel_thread_def intr_enable_def upd_thread_def push_code_def Let_def
      bind_ASSERT_eq_Some bind_eq_Some_conv dest!: holder_rules split: if_splits)

lemma holder_rest [holder_dests]:
  "timer_sleep n k = Some k' \<Longrightarrow> lock_holder k' = lock_holder k"
  "idle_start s k = Some k' \<Longrightarrow> lock_holder k' = lock_holder k"
  "idle_loop k = Some k' \<Longrightarrow> lock_holder k' = lock_holder k"
  by (auto simp: timer_sleep_def timer_ticks_def idle_start_def idle_loop_def intr_disable_def push_code_def
      bind_ASSERT_eq_Some bind_eq_Some_conv dest!: holder_rules split: if_splits)

lemma exec_holder:
  assumes "exec page i k = Some k'"
  shows "lock_holder k' = (case i of Set_holder l \<Rightarrow> (lock_holder k)(l := running k)
      | Lock_release l \<Rightarrow> (lock_holder k)(l := NULL) | _ \<Rightarrow> lock_holder k)"
  using assms
  by (cases i) (auto simp: bind_eq_Some_conv after_switch_def push_code_def dest!: holder_dests holder_rules)

lemma kstep_holder:
  assumes inv: "kernel_inv K k" and step: "kstep K k k'" and h: "lock_holder k l = t" "t \<noteq> NULL" and l: "is_lock K l"
  shows "lock_holder k' l = t
    \<or> lock_holder k' l = NULL \<and> t = running k \<and> (\<exists>is. code k (running k) = Lock_release l # is)"
  using step
proof cases
  case (run i js page)
  have e: "lock_holder k' = (case i of Set_holder l \<Rightarrow> (lock_holder k)(l := running k)
      | Lock_release l \<Rightarrow> (lock_holder k)(l := NULL) | _ \<Rightarrow> lock_holder k)"
    using exec_holder [OF run(5)] by (simp add: pop_code_def cong: instr.case_cong)
  show ?thesis
  proof (cases i)
    case (Set_holder l')
    then show ?thesis using e h set_holder_free [OF inv] run(1) by auto
  next
    case (Lock_release l')
    then have "l' \<in> held K k (running k)" using kernel_inv_code(1) [OF inv run(1)] by simp
    then show ?thesis using e h Lock_release run(1) by (auto simp: held_def)
  qed (use e h in simp_all)
next
  case (tick)
  then show ?thesis using timer_irq_eq [OF inv tick(1,2)] h
    by (auto simp: sys_simps push_code_def irq_entry_fields split: if_splits)
qed (use h in \<open>simp_all add: push_code_def pop_code_def\<close>)

subsection \<open>Properties\<close>

text \<open>
  A state to evaluate the properties on: the idle thread at 4096 is blocked in its loop, the thread at 8192 is
  inside its function, and the one at 12288 is about to start. There are two locks, at 20480
  (the lock of \<^verbatim>\<open>allocate_tid\<close>) and at 24576, which the thread at 8192 holds.
\<close>

definition demo_kinds :: sema_kinds where
  "demo_kinds = (\<lambda>_. No_sema)(20488 := Lock_sema, 24584 := Lock_sema)"

definition demo_sys :: sys where
  "demo_sys = \<lparr>if_flag = True, in_external_intr = False, yield_on_return = False, port_log = [],
     running = 8192,
     threads = (\<lambda>_. (demo_thread THREAD_BLOCKED 0)\<lparr>magic := 0\<rparr>)
        (4096 := demo_thread THREAD_BLOCKED 0, 8192 := demo_thread THREAD_RUNNING 0,
         12288 := demo_thread THREAD_READY 0),
     ready_list = [12288], sleep_list = [], destruction_req = [], earliest_wake_up_tick = INT64_MAX,
     idle_thread = 4096, initial_thread = 8192, idle_ticks = 0, kernel_ticks = 0, thread_ticks = 0,
     next_tid = 5, freed_pages = [], sleep_tail = 549822922768, ticks = 4,
     semas = (\<lambda>_. \<lparr>sema_value = 1, waiters = []\<rparr>)(24584 := \<lparr>sema_value = 0, waiters = []\<rparr>),
     lock_holder = (\<lambda>_. NULL)(24576 := 8192), cond_waiters = (\<lambda>_. []),
     code = (\<lambda>_. [])(4096 := [Sti, Idle_loop], 8192 := [Body, Thread_exit], 12288 := [Kernel_thread [Body]]),
     tid_lock = 20480\<rparr>"

lemma demo_is_lock: "is_lock demo_kinds l \<longleftrightarrow> l = 20480 \<or> l = 24576"
proof -
  have "l + 8 = 20488 \<longleftrightarrow> l = 20480" "l + 8 = 24584 \<longleftrightarrow> l = 24576" for l :: ptr
    unfolding eq_diff_eq [symmetric] by simp_all
  then show ?thesis by (auto simp: is_lock_def demo_kinds_def lock_sema_def)
qed

lemmas demo_sys_defs = demo_sys_def demo_thread_def is_thread_def

lemma demo_sys_threads: "threads_ok (waiting demo_sys) demo_sys"
  by (rule threads_okI)
     (auto simp: demo_sys_defs waiting_def queues_distinct_def ready_ok_def ready_complete_def sleep_ok_def wait_ok_def
       dying_ok_def running_ok_def idle_ok_def alarms_ok_def THREAD_MAGIC_def INT64_MAX_def split: if_splits)

lemma demo_sys_held: "t \<noteq> NULL \<Longrightarrow> held demo_kinds demo_sys t = (if t = 8192 then {24576} else {})"
  by (auto simp: held_def demo_sys_def demo_is_lock)

lemma demo_sys_owner:
  "t \<noteq> NULL \<Longrightarrow> l = 20480 \<or> l = 24576 \<Longrightarrow> ownership demo_sys l t = (if l = 24576 \<and> t = 8192 then 1 else 0)"
  by (auto simp: ownership_def demo_sys_def)

lemma demo_sys_ok: "kernel_inv demo_kinds demo_sys"
proof (rule kernel_invI)
  show "threads_ok (waiting demo_sys) demo_sys" by (rule demo_sys_threads)
  show "code_inv demo_kinds demo_sys"
    unfolding code_inv_def using demo_sys_held by (simp add: demo_sys_def)
  have "(\<Sum>t \<in> UNIV - {NULL}. ownership demo_sys l t) = (\<Sum>t \<in> UNIV - {NULL}. if t = 8192 then of_bool (l = 24576) else 0)"
    if "is_lock demo_kinds l" for l using that by (intro sum.cong) (auto simp: demo_is_lock demo_sys_owner)
  then show "lock_inv demo_kinds demo_sys"
    by (auto simp: lock_inv_def demo_is_lock) (simp_all add: demo_sys_def lock_sema_def)
  show "dead_inv demo_kinds demo_sys"
    unfolding dead_inv_def using demo_sys_held by (simp add: demo_sys_defs THREAD_MAGIC_def)
  show "embryo_inv demo_kinds demo_sys" by (simp add: embryo_inv_def demo_sys_def)
qed (simp_all add: wait_lists_ok_def cond_inv_def demo_sys_def demo_is_lock)

lemma held_lock_taken:
  assumes inv: "kernel_inv K k" and l: "is_lock K l" and t: "lock_holder k l \<noteq> NULL"
  shows "sema_value (semas k (lock_sema l)) = 0"
proof -
  have "0 \<le> tokens l (code k (lock_holder k l))"
    using inv l tokens_nonneg unfolding kernel_inv_def code_inv_def by blast
  then have "1 \<le> ownership k l (lock_holder k l)" by (simp add: ownership_def)
  moreover have "(\<Sum>u \<in> {lock_holder k l}. ownership k l u) \<le> (\<Sum>u \<in> UNIV - {NULL}. ownership k l u)"
    by (rule sum_mono2) (use t ownership_nonneg [OF inv l] in auto)
  moreover have "int (sema_value (semas k (lock_sema l))) + (\<Sum>u \<in> UNIV - {NULL}. ownership k l u) = 1"
    using inv l by (simp add: kernel_inv_def lock_inv_def)
  ultimately show ?thesis by simp
qed





text \<open>C3: Mutual exclusion. While a thread is recorded as the holder of a lock, the lock's semaphore is taken,
  and the next step of the kernel either leaves the thread the holder, or is the release of
  the lock by that very thread, after which nobody is.
\<close>

theorem lock_mutual_exclusion:
  assumes "kernel_inv K k0" and "(kstep K)\<^sup>*\<^sup>* k0 k" and "kstep K k k'" and "is_lock K l"
    and "lock_holder k l = t" and "t \<noteq> NULL"
  shows "sema_value (semas k (lock_sema l)) = 0
    \<and> (lock_holder k' l = t
       \<or> lock_holder k' l = NULL \<and> t = running k \<and> (\<exists>is. code k (running k) = Lock_release l # is))"
  using kstep_holder [OF kernel_inv_steps [OF assms(2,1)] assms(3,5,6,4)]
    held_lock_taken [OF kernel_inv_steps [OF assms(2,1)] assms(4)] assms(5,6) by simp

theorem lock_mutual_exclusion_witness:
  "sema_value (semas demo_sys (lock_sema 24576)) = 0
   \<and> lock_holder (push_code 8192 [Lock_release 24576] demo_sys) 24576 = 8192"
proof -
  have "kstep demo_kinds demo_sys (push_code (running demo_sys) [Lock_release 24576] demo_sys)"
    by (rule kstep.call [of _ "[Thread_exit]"])
       (simp_all add: demo_sys_def legal_def demo_is_lock held_def)
  moreover have "running demo_sys = 8192" "lock_holder demo_sys 24576 = 8192" by (simp_all add: demo_sys_def)
  ultimately show ?thesis
    using lock_mutual_exclusion [OF demo_sys_ok rtranclp.rtrancl_refl, of _ 24576 8192]
    by (auto simp: demo_is_lock) (simp_all add: demo_sys_def)
qed

end
