(* ===== verification/C_Strings.thy ===== *)
theory C_Strings
  imports Prelude
begin

section \<open>Strings and memory blocks (\<^verbatim>\<open>lib/string.c\<close>)\<close>

text \<open>
  The functions of \<^verbatim>\<open>lib/string.c\<close> on a memory of bytes. A pointer to nothing is
  \<^term>\<open>NULL\<close>; a scan that never meets a null byte has no result. The lemmas relate them to
  operations on the lists of bytes that the memory holds.
\<close>

type_synonym mem = "ptr \<Rightarrow> 8 word"

subsection \<open>Memory blocks\<close>

primrec memcpy_loop :: "nat \<Rightarrow> ptr \<Rightarrow> ptr \<Rightarrow> mem \<Rightarrow> mem" where
  "memcpy_loop 0 dst src m = m"
| "memcpy_loop (Suc n) dst src m = memcpy_loop n (dst + 1) (src + 1) (m(dst := m src))"

definition memcpy :: "ptr \<Rightarrow> ptr \<Rightarrow> nat \<Rightarrow> mem \<Rightarrow> (ptr \<times> mem) option" where
  "memcpy dst src n m = do {
     ASSERT (dst \<noteq> NULL \<or> n = 0);
     ASSERT (src \<noteq> NULL \<or> n = 0);
     Some (dst, memcpy_loop n dst src m)
   }"

text \<open>The two loops of \<^verbatim>\<open>memmove\<close> return the final value of \<open>dst\<close> too, which is what it returns.\<close>

primrec memmove_up :: "nat \<Rightarrow> ptr \<Rightarrow> ptr \<Rightarrow> mem \<Rightarrow> ptr \<times> mem" where
  "memmove_up 0 dst src m = (dst, m)"
| "memmove_up (Suc n) dst src m = memmove_up n (dst + 1) (src + 1) (m(dst := m src))"

primrec memmove_down :: "nat \<Rightarrow> ptr \<Rightarrow> ptr \<Rightarrow> mem \<Rightarrow> ptr \<times> mem" where
  "memmove_down 0 dst src m = (dst, m)"
| "memmove_down (Suc n) dst src m = memmove_down n (dst - 1) (src - 1) (m(dst - 1 := m (src - 1)))"

definition memmove :: "ptr \<Rightarrow> ptr \<Rightarrow> nat \<Rightarrow> mem \<Rightarrow> (ptr \<times> mem) option" where
  "memmove dst src n m = do {
     ASSERT (dst \<noteq> NULL \<or> n = 0);
     ASSERT (src \<noteq> NULL \<or> n = 0);
     Some (if dst < src then memmove_up n dst src m
           else memmove_down n (dst + of_nat n) (src + of_nat n) m)
   }"

primrec memcmp_loop :: "nat \<Rightarrow> ptr \<Rightarrow> ptr \<Rightarrow> mem \<Rightarrow> int" where
  "memcmp_loop 0 a b m = 0"
| "memcmp_loop (Suc n) a b m =
     (if m a \<noteq> m b then (if m a > m b then 1 else - 1) else memcmp_loop n (a + 1) (b + 1) m)"

definition memcmp :: "ptr \<Rightarrow> ptr \<Rightarrow> nat \<Rightarrow> mem \<Rightarrow> int option" where
  "memcmp a b n m = do {
     ASSERT (a \<noteq> NULL \<or> n = 0);
     ASSERT (b \<noteq> NULL \<or> n = 0);
     Some (memcmp_loop n a b m)
   }"

primrec memchr_loop :: "nat \<Rightarrow> ptr \<Rightarrow> 8 word \<Rightarrow> mem \<Rightarrow> ptr" where
  "memchr_loop 0 block ch m = NULL"
| "memchr_loop (Suc n) block ch m = (if m block = ch then block else memchr_loop n (block + 1) ch m)"

definition memchr :: "ptr \<Rightarrow> int \<Rightarrow> nat \<Rightarrow> mem \<Rightarrow> ptr option" where
  "memchr block ch n m = do {
     ASSERT (block \<noteq> NULL \<or> n = 0);
     Some (memchr_loop n block (of_int ch) m)
   }"

primrec memset_loop :: "nat \<Rightarrow> ptr \<Rightarrow> 8 word \<Rightarrow> mem \<Rightarrow> mem" where
  "memset_loop 0 dst v m = m"
| "memset_loop (Suc n) dst v m = memset_loop n (dst + 1) v (m(dst := v))"

definition memset :: "ptr \<Rightarrow> int \<Rightarrow> nat \<Rightarrow> mem \<Rightarrow> (ptr \<times> mem) option" where
  "memset dst v n m = do {
     ASSERT (dst \<noteq> NULL \<or> n = 0);
     Some (dst, memset_loop n dst (of_int v) m)
   }"

subsection \<open>Strings\<close>

partial_function (option) strcmp_loop :: "ptr \<Rightarrow> ptr \<Rightarrow> mem \<Rightarrow> int option" where
  "strcmp_loop a b m =
     (if m a \<noteq> 0 \<and> m a = m b then strcmp_loop (a + 1) (b + 1) m
      else Some (if m a < m b then - 1 else of_bool (m a > m b)))"

definition strcmp :: "ptr \<Rightarrow> ptr \<Rightarrow> mem \<Rightarrow> int option" where
  "strcmp a b m = do { ASSERT (a \<noteq> NULL); ASSERT (b \<noteq> NULL); strcmp_loop a b m }"

partial_function (option) strchr_loop :: "ptr \<Rightarrow> 8 word \<Rightarrow> mem \<Rightarrow> ptr option" where
  "strchr_loop s c m =
     (if m s = c then Some s else if m s = 0 then Some NULL else strchr_loop (s + 1) c m)"

definition strchr :: "ptr \<Rightarrow> 8 word \<Rightarrow> mem \<Rightarrow> ptr option" where
  "strchr s c m = do { ASSERT (s \<noteq> NULL); strchr_loop s c m }"

partial_function (option) strcspn_loop :: "ptr \<Rightarrow> ptr \<Rightarrow> nat \<Rightarrow> mem \<Rightarrow> nat option" where
  "strcspn_loop s stop len m =
     (if m (s + of_nat len) \<noteq> 0 then do {
        q \<leftarrow> strchr stop (m (s + of_nat len)) m;
        if q \<noteq> NULL then Some len else strcspn_loop s stop (Suc len) m
      } else Some len)"

definition strcspn :: "ptr \<Rightarrow> ptr \<Rightarrow> mem \<Rightarrow> nat option" where
  "strcspn s stop m = strcspn_loop s stop 0 m"

partial_function (option) strpbrk :: "ptr \<Rightarrow> ptr \<Rightarrow> mem \<Rightarrow> ptr option" where
  "strpbrk s stop m =
     (if m s \<noteq> 0 then do {
        q \<leftarrow> strchr stop (m s) m;
        if q \<noteq> NULL then Some s else strpbrk (s + 1) stop m
      } else Some NULL)"

partial_function (option) strrchr_loop :: "ptr \<Rightarrow> 8 word \<Rightarrow> ptr \<Rightarrow> mem \<Rightarrow> ptr option" where
  "strrchr_loop s c p m =
     (if m s \<noteq> 0 then strrchr_loop (s + 1) c (if m s = c then s else p) m else Some p)"

definition strrchr :: "ptr \<Rightarrow> 8 word \<Rightarrow> mem \<Rightarrow> ptr option" where
  "strrchr s c m = strrchr_loop s c NULL m"

partial_function (option) strspn_loop :: "ptr \<Rightarrow> ptr \<Rightarrow> nat \<Rightarrow> mem \<Rightarrow> nat option" where
  "strspn_loop s skip len m =
     (if m (s + of_nat len) \<noteq> 0 then do {
        q \<leftarrow> strchr skip (m (s + of_nat len)) m;
        if q = NULL then Some len else strspn_loop s skip (Suc len) m
      } else Some len)"

definition strspn :: "ptr \<Rightarrow> ptr \<Rightarrow> mem \<Rightarrow> nat option" where
  "strspn s skip m = strspn_loop s skip 0 m"

partial_function (option) strlen_loop :: "ptr \<Rightarrow> mem \<Rightarrow> ptr option" where
  "strlen_loop p m = (if m p \<noteq> 0 then strlen_loop (p + 1) m else Some p)"

definition strlen :: "ptr \<Rightarrow> mem \<Rightarrow> nat option" where
  "strlen s m = do { ASSERT (s \<noteq> NULL); p \<leftarrow> strlen_loop s m; Some (unat (p - s)) }"

partial_function (option) strnlen_loop :: "ptr \<Rightarrow> nat \<Rightarrow> nat \<Rightarrow> mem \<Rightarrow> nat option" where
  "strnlen_loop s maxlen len m =
     (if m (s + of_nat len) \<noteq> 0 \<and> len < maxlen then strnlen_loop s maxlen (Suc len) m else Some len)"

definition strnlen :: "ptr \<Rightarrow> nat \<Rightarrow> mem \<Rightarrow> nat option" where
  "strnlen s maxlen m = strnlen_loop s maxlen 0 m"

text \<open>\<open>n\<close> is the number of positions left to try.\<close>

primrec strstr_loop :: "nat \<Rightarrow> ptr \<Rightarrow> ptr \<Rightarrow> nat \<Rightarrow> mem \<Rightarrow> ptr option" where
  "strstr_loop 0 h needle needle_len m = Some NULL"
| "strstr_loop (Suc n) h needle needle_len m = do {
     r \<leftarrow> memcmp h needle needle_len m;
     if r = 0 then Some h else strstr_loop n (h + 1) needle needle_len m
   }"

definition strstr :: "ptr \<Rightarrow> ptr \<Rightarrow> mem \<Rightarrow> ptr option" where
  "strstr haystack needle m = do {
     haystack_len \<leftarrow> strlen haystack m;
     needle_len \<leftarrow> strlen needle m;
     if haystack_len \<ge> needle_len
     then strstr_loop (Suc (haystack_len - needle_len)) haystack needle needle_len m
     else Some NULL
   }"

subsection \<open>Tokens\<close>

text \<open>The first loop returns \<open>None\<close> inside when the string ends before a token starts.\<close>

partial_function (option) strtok_skip :: "ptr \<Rightarrow> ptr \<Rightarrow> mem \<Rightarrow> (ptr option \<times> ptr) option" where
  "strtok_skip s delimiters m = do {
     q \<leftarrow> strchr delimiters (m s) m;
     if q \<noteq> NULL then if m s = 0 then Some (None, s) else strtok_skip (s + 1) delimiters m
     else Some (Some s, s)
   }"

partial_function (option) strtok_scan :: "ptr \<Rightarrow> ptr \<Rightarrow> mem \<Rightarrow> ptr option" where
  "strtok_scan s delimiters m = do {
     q \<leftarrow> strchr delimiters (m s) m;
     if q = NULL then strtok_scan (s + 1) delimiters m else Some s
   }"

text \<open>\<open>saved\<close> is the content of the variable that \<open>save_ptr\<close> points to; its new content is part of the result.\<close>

definition strtok_r :: "ptr \<Rightarrow> ptr \<Rightarrow> ptr \<Rightarrow> ptr \<Rightarrow> mem \<Rightarrow> (ptr \<times> ptr \<times> mem) option" where
  "strtok_r s delimiters save_ptr saved m = do {
     ASSERT (delimiters \<noteq> NULL);
     ASSERT (save_ptr \<noteq> NULL);
     let s = (if s = NULL then saved else s);
     ASSERT (s \<noteq> NULL);
     (r, s) \<leftarrow> strtok_skip s delimiters m;
     (case r of
        None \<Rightarrow> Some (NULL, s, m)
      | Some token \<Rightarrow> do {
          s \<leftarrow> strtok_scan s delimiters m;
          if m s \<noteq> 0 then Some (token, s + 1, m(s := 0)) else Some (token, s, m)
        })
   }"

subsection \<open>Bounded copies\<close>

definition strlcpy :: "ptr \<Rightarrow> ptr \<Rightarrow> nat \<Rightarrow> mem \<Rightarrow> (nat \<times> mem) option" where
  "strlcpy dst src n m = do {
     ASSERT (dst \<noteq> NULL);
     ASSERT (src \<noteq> NULL);
     src_len \<leftarrow> strlen src m;
     if n > 0 then do {
       let dst_len = (if src_len < n - 1 then src_len else n - 1);
       (_, m) \<leftarrow> memcpy dst src dst_len m;
       Some (src_len, m(dst + of_nat dst_len := 0))
     } else Some (src_len, m)
   }"

definition strlcat :: "ptr \<Rightarrow> ptr \<Rightarrow> nat \<Rightarrow> mem \<Rightarrow> (nat \<times> mem) option" where
  "strlcat dst src n m = do {
     ASSERT (dst \<noteq> NULL);
     ASSERT (src \<noteq> NULL);
     src_len \<leftarrow> strlen src m;
     dst_len \<leftarrow> strlen dst m;
     if n > 0 \<and> dst_len < n then do {
       let copy_cnt = (if src_len < n - dst_len - 1 then src_len else n - dst_len - 1);
       (_, m) \<leftarrow> memcpy (dst + of_nat dst_len) src copy_cnt m;
       Some (src_len + dst_len, m(dst + of_nat (dst_len + copy_cnt) := 0))
     } else Some (src_len + dst_len, m)
   }"

subsection \<open>What the memory holds\<close>

text \<open>
  \<open>str_at m p s\<close>: the memory holds the string \<open>s\<close> at \<open>p\<close>, with its terminator. An object of \<open>n\<close> bytes at
  \<open>p\<close> does not reach around the end of the address space (\<open>in_space\<close>).
\<close>

primrec str_at :: "mem \<Rightarrow> ptr \<Rightarrow> 8 word list \<Rightarrow> bool" where
  "str_at m p [] \<longleftrightarrow> m p = 0"
| "str_at m p (c # cs) \<longleftrightarrow> c \<noteq> 0 \<and> m p = c \<and> str_at m (p + 1) cs"

definition bytes :: "mem \<Rightarrow> ptr \<Rightarrow> nat \<Rightarrow> 8 word list" where
  "bytes m p n = map (\<lambda>i. m (p + of_nat i)) [0..<n]"

definition in_space :: "ptr \<Rightarrow> nat \<Rightarrow> bool" where
  "in_space p n \<longleftrightarrow> p \<noteq> NULL \<and> unat p + n \<le> 2 ^ 64"

definition in_range :: "ptr \<Rightarrow> nat \<Rightarrow> ptr \<Rightarrow> bool" where
  "in_range p n a \<longleftrightarrow> unat (a - p) < n"

definition disjoint :: "ptr \<Rightarrow> nat \<Rightarrow> ptr \<Rightarrow> nat \<Rightarrow> bool" where
  "disjoint p n q k \<longleftrightarrow> unat p + n \<le> unat q \<or> unat q + k \<le> unat p"

lemma length_bytes [simp]: "length (bytes m p n) = n"
  by (simp add: bytes_def)

lemma nth_bytes [simp]: "i < n \<Longrightarrow> bytes m p n ! i = m (p + of_nat i)"
  by (simp add: bytes_def)

lemma bytes_0 [simp]: "bytes m p 0 = []"
  by (simp add: bytes_def)

lemma bytes_Suc: "bytes m p (Suc n) = m p # bytes m (p + 1) n"
  by (rule nth_equalityI) (auto simp: nth_Cons split: nat.splits simp: algebra_simps)

lemma unat_of_nat_64: "n < 2 ^ 64 \<Longrightarrow> unat (of_nat n :: ptr) = n"
  by (simp add: unat_of_nat take_bit_nat_eq_self)

lemma unat_plus: "unat p + n < 2 ^ 64 \<Longrightarrow> unat (p + of_nat n :: ptr) = unat p + n"
  by (simp add: unat_word_ariths(1) unat_of_nat_64)

lemma in_space_plus:
  "in_space p n \<Longrightarrow> i < n \<Longrightarrow> unat (p + of_nat i) = unat p + i"
  "in_space p n \<Longrightarrow> i < n \<Longrightarrow> p + of_nat i \<noteq> NULL"
proof -
  show "in_space p n \<Longrightarrow> i < n \<Longrightarrow> unat (p + of_nat i) = unat p + i"
    by (rule unat_plus) (simp add: in_space_def)
  then show "in_space p n \<Longrightarrow> i < n \<Longrightarrow> p + of_nat i \<noteq> NULL"
    by (metis add_is_0 in_space_def unat_eq_zero)
qed

lemma in_space_inj: "in_space p n \<Longrightarrow> i < n \<Longrightarrow> j < n \<Longrightarrow> p + of_nat i = p + of_nat j \<longleftrightarrow> i = j"
  by (metis in_space_plus(1) add_left_cancel)

lemma in_space_later: "in_space p n \<Longrightarrow> i < n \<Longrightarrow> in_space (p + of_nat i) (n - i)"
  using in_space_plus [of p n i] by (simp add: in_space_def)

lemma str_at_iff:
  "str_at m p s \<longleftrightarrow> bytes m p (length s) = s \<and> 0 \<notin> set s \<and> m (p + of_nat (length s)) = 0"
  by (induction s arbitrary: p) (auto simp: bytes_Suc algebra_simps)

lemma str_at_append:
  "str_at m p (s @ t) \<longleftrightarrow> bytes m p (length s) = s \<and> 0 \<notin> set s \<and> str_at m (p + of_nat (length s)) t"
  by (induction s arbitrary: p) (auto simp: bytes_Suc algebra_simps)

lemma bytes_cong: "(\<And>i. i < n \<Longrightarrow> m' (p + of_nat i) = m (p + of_nat i)) \<Longrightarrow> bytes m' p n = bytes m p n"
  by (auto intro: nth_equalityI)

subsection \<open>Blocks\<close>

lemma memcpy_loop_outside:
  assumes "\<forall>i < n. a \<noteq> dst + of_nat i"
  shows "memcpy_loop n dst src m a = m a"
  using assms
proof (induction n arbitrary: dst src m)
  case (Suc n)
  have "a \<noteq> dst + 1 + of_nat i" if "i < n" for i
    using Suc.prems [rule_format, of "Suc i"] that by (simp add: algebra_simps)
  moreover have "a \<noteq> dst" using Suc.prems [rule_format, of 0] by simp
  ultimately show ?case using Suc.IH by simp
qed simp

lemma memcpy_loop_up: "memmove_up n dst src m = (dst + of_nat n, memcpy_loop n dst src m)"
  by (induction n arbitrary: dst src m) (simp_all add: algebra_simps)

text \<open>Copying upwards is right when no source byte is overwritten before it is read.\<close>

lemma memcpy_loop_inside:
  assumes "\<forall>i j. i < j \<longrightarrow> j < n \<longrightarrow> dst + of_nat i \<noteq> src + of_nat j"
    and "\<forall>i j. i < j \<longrightarrow> j < n \<longrightarrow> dst + of_nat i \<noteq> dst + of_nat j"
  shows "i < n \<Longrightarrow> memcpy_loop n dst src m (dst + of_nat i) = m (src + of_nat i)"
  using assms
proof (induction n arbitrary: dst src m i)
  case (Suc n)
  have "dst + 1 + of_nat i \<noteq> src + 1 + of_nat j" "dst + 1 + of_nat i \<noteq> dst + 1 + of_nat j" if "i < j" "j < n" for i j
    using Suc.prems(2,3) [rule_format, of "Suc i" "Suc j"] that by (simp_all add: algebra_simps)
  then have step: "\<forall>i j. i < j \<longrightarrow> j < n \<longrightarrow> dst + 1 + of_nat i \<noteq> src + 1 + of_nat j"
      "\<forall>i j. i < j \<longrightarrow> j < n \<longrightarrow> dst + 1 + of_nat i \<noteq> dst + 1 + of_nat j"
    by blast+
  show ?case
  proof (cases i)
    case 0
    have "dst \<noteq> dst + 1 + of_nat j" if "j < n" for j
      using Suc.prems(3) [rule_format, of 0 "Suc j"] that by (simp add: algebra_simps)
    then show ?thesis using 0 memcpy_loop_outside [of n dst "dst + 1"] by simp
  next
    case (Suc j)
    then have "j < n" using Suc.prems(1) by simp
    have "src + 1 + of_nat j \<noteq> dst"
      using Suc.prems(2) [rule_format, of 0 "Suc j"] \<open>j < n\<close> by (simp add: algebra_simps)
    then show ?thesis
      using Suc.IH [OF \<open>j < n\<close> step, of "m(dst := m src)"] Suc by (simp add: algebra_simps fun_upd_def)
  qed
qed simp

lemma memmove_down_step:
  "memmove_down (Suc n) (dst + of_nat (Suc n)) (src + of_nat (Suc n)) m
     = memmove_down n (dst + of_nat n) (src + of_nat n) (m(dst + of_nat n := m (src + of_nat n)))"
  by (simp add: algebra_simps)

lemma memmove_down_result: "fst (memmove_down n (dst + of_nat n) (src + of_nat n) m) = dst"
  by (induction n arbitrary: m) (simp, simp only: memmove_down_step)

lemma memmove_down_outside:
  assumes "\<forall>i < n. a \<noteq> dst + of_nat i"
  shows "snd (memmove_down n (dst + of_nat n) (src + of_nat n) m) a = m a"
  using assms
proof (induction n arbitrary: m)
  case (Suc n)
  then show ?case unfolding memmove_down_step by simp
qed simp

lemma memmove_down_inside:
  assumes "\<forall>i j. i < j \<longrightarrow> j < n \<longrightarrow> dst + of_nat j \<noteq> src + of_nat i"
    and "\<forall>i j. i < j \<longrightarrow> j < n \<longrightarrow> dst + of_nat i \<noteq> dst + of_nat j"
  shows "i < n \<Longrightarrow> snd (memmove_down n (dst + of_nat n) (src + of_nat n) m) (dst + of_nat i) = m (src + of_nat i)"
  using assms
proof (induction n arbitrary: m i)
  case (Suc n)
  let ?m = "m(dst + of_nat n := m (src + of_nat n))"
  show ?case
  proof (cases "i = n")
    case True
    have "dst + of_nat n \<noteq> dst + of_nat j" if "j < n" for j
      using Suc.prems(3) [rule_format, of j n] that by auto
    then show ?thesis unfolding memmove_down_step using True by (subst memmove_down_outside) auto
  next
    case False
    then have i: "i < n" using Suc.prems(1) by simp
    have "dst + of_nat n \<noteq> src + of_nat i" using Suc.prems(2) [rule_format, of i n] i by simp
    then show ?thesis unfolding memmove_down_step using Suc.IH [OF i, of ?m] Suc.prems(2,3)
      by (simp add: less_SucI fun_upd_def)
  qed
qed simp

lemma in_space_offset_eq:
  assumes "in_space p n" and "in_space q n" and "i < n" and "j < n" and "p + of_nat i = q + of_nat j"
  shows "unat p + i = unat q + j"
  using in_space_plus(1) [OF assms(1,3)] in_space_plus(1) [OF assms(2,4)] assms(5) by simp

lemma memmove_inside:
  assumes d: "in_space dst n" and s: "in_space src n"
  shows "\<exists>m'. memmove dst src n m = Some (if dst < src then dst + of_nat n else dst, m')
    \<and> bytes m' dst n = bytes m src n \<and> (\<forall>a. (\<forall>i < n. a \<noteq> dst + of_nat i) \<longrightarrow> m' a = m a)"
proof -
  have nn: "dst \<noteq> NULL" "src \<noteq> NULL" using d s by (simp_all add: in_space_def)
  have dd: "\<forall>i j. i < j \<longrightarrow> j < n \<longrightarrow> dst + of_nat i \<noteq> dst + of_nat j"
    using in_space_inj [OF d] by (metis less_trans nat_neq_iff)
  show ?thesis
  proof (cases "dst < src")
    case True
    then have "dst + of_nat i \<noteq> src + of_nat j" if "i < j" "j < n" for i j
      using in_space_offset_eq [OF d s, of i j] that by (auto simp: word_less_nat_alt)
    then show ?thesis
      using True nn memcpy_loop_inside [OF _ dd, of src _ m] memcpy_loop_outside [of n _ dst src m]
      by (auto simp: memmove_def memcpy_loop_up intro!: nth_equalityI)
  next
    case False
    then have "dst + of_nat j \<noteq> src + of_nat i" if "i < j" "j < n" for i j
      using in_space_offset_eq [OF d s, of j i] that by (auto simp: word_less_nat_alt)
    then show ?thesis
      using False nn memmove_down_inside [OF _ dd, of src _ m] memmove_down_outside [of n _ dst src m]
        memmove_down_result [of n dst src m]
      by (intro exI [of _ "snd (memmove_down n (dst + of_nat n) (src + of_nat n) m)"])
         (auto simp: memmove_def prod_eq_iff intro!: nth_equalityI)
  qed
qed

subsection \<open>Scans\<close>

lemma strlen_loop_at: "str_at m p s \<Longrightarrow> strlen_loop p m = Some (p + of_nat (length s))"
  by (induction s arbitrary: p) (simp_all add: strlen_loop.simps algebra_simps)

lemma strlen_at:
  assumes "str_at m p s" and "in_space p (Suc (length s))"
  shows "strlen p m = Some (length s)"
  using assms unat_of_nat_64 [of "length s"]
  by (simp add: strlen_def strlen_loop_at in_space_def unat_gt_0 [symmetric])

lemma strchr_loop_at:
  "str_at m p s \<Longrightarrow> strchr_loop p c m = Some (if c \<in> set s \<or> c = 0
     then p + of_nat (length (takeWhile (\<lambda>x. x \<noteq> c) s)) else NULL)"
proof (induction s arbitrary: p)
  case Nil
  then show ?case by (simp add: strchr_loop.simps)
next
  case (Cons x s)
  then show ?case by (subst strchr_loop.simps) (auto simp: algebra_simps)
qed

text \<open>A test for membership: the terminator counts as an element of every string.\<close>

lemma strchr_member:
  assumes "str_at m p s" and "in_space p (Suc (length s))"
  shows "\<exists>q. strchr p c m = Some q \<and> (q = NULL \<longleftrightarrow> c \<notin> set s \<and> c \<noteq> 0)"
proof -
  have "length (takeWhile (\<lambda>x. x \<noteq> c) s) < Suc (length s)" by (simp add: length_takeWhile_le le_imp_less_Suc)
  then have "p + of_nat (length (takeWhile (\<lambda>x. x \<noteq> c) s)) \<noteq> NULL" using in_space_plus(2) [OF assms(2)] by blast
  then show ?thesis using assms by (simp add: strchr_def strchr_loop_at in_space_def)
qed

lemma str_at_nth: "str_at m p s \<Longrightarrow> i < length s \<Longrightarrow> m (p + of_nat i) = s ! i \<and> s ! i \<noteq> 0"
  unfolding str_at_iff by (metis nth_bytes nth_mem)

lemma str_at_end: "str_at m p s \<Longrightarrow> m (p + of_nat (length s)) = 0"
  by (simp add: str_at_iff)

lemma str_at_drop: "str_at m p s \<Longrightarrow> i \<le> length s \<Longrightarrow> str_at m (p + of_nat i) (drop i s)"
  using str_at_append [of m p "take i s" "drop i s"] by simp

lemma strcspn_loop_at:
  assumes s: "str_at m p s" and t: "str_at m q t" "in_space q (Suc (length t))"
  shows "i \<le> length s \<Longrightarrow> strcspn_loop p q i m = Some (i + length (takeWhile (\<lambda>c. c \<notin> set t) (drop i s)))"
proof (induction "length s - i" arbitrary: i)
  case 0
  then show ?case using str_at_end [OF s] by (simp add: strcspn_loop.simps)
next
  case (Suc n)
  then have i: "i < length s" by simp
  obtain r where r: "strchr q (s ! i) m = Some r" "r = NULL \<longleftrightarrow> s ! i \<notin> set t"
    using strchr_member [OF t, of "s ! i"] str_at_nth [OF s i] by auto
  show ?case
    using Suc r str_at_nth [OF s i] i
    by (subst strcspn_loop.simps) (simp add: Cons_nth_drop_Suc [symmetric])
qed

lemma strspn_loop_at:
  assumes s: "str_at m p s" and t: "str_at m q t" "in_space q (Suc (length t))"
  shows "i \<le> length s \<Longrightarrow> strspn_loop p q i m = Some (i + length (takeWhile (\<lambda>c. c \<in> set t) (drop i s)))"
proof (induction "length s - i" arbitrary: i)
  case 0
  then show ?case using str_at_end [OF s] by (simp add: strspn_loop.simps)
next
  case (Suc n)
  then have i: "i < length s" by simp
  obtain r where r: "strchr q (s ! i) m = Some r" "r = NULL \<longleftrightarrow> s ! i \<notin> set t"
    using strchr_member [OF t, of "s ! i"] str_at_nth [OF s i] by auto
  show ?case
    using Suc r str_at_nth [OF s i] i
    by (subst strspn_loop.simps) (simp add: Cons_nth_drop_Suc [symmetric])
qed

text \<open>The byte-wise lexicographic comparison of two strings, as unsigned values.\<close>

fun str_compare :: "8 word list \<Rightarrow> 8 word list \<Rightarrow> int" where
  "str_compare [] [] = 0"
| "str_compare [] (y # ys) = - 1"
| "str_compare (x # xs) [] = 1"
| "str_compare (x # xs) (y # ys) = (if x < y then - 1 else if y < x then 1 else str_compare xs ys)"

lemma strcmp_loop_at: "str_at m p s \<Longrightarrow> str_at m q t \<Longrightarrow> strcmp_loop p q m = Some (str_compare s t)"
proof (induction s t arbitrary: p q rule: str_compare.induct)
  case 1
  then show ?case by (simp add: strcmp_loop.simps)
next
  case (2 y ys)
  then show ?case by (subst strcmp_loop.simps) (auto simp: word_neq_0_conv)
next
  case (3 x xs)
  then show ?case by (subst strcmp_loop.simps) (auto simp: word_neq_0_conv)
next
  case (4 x xs y ys)
  then show ?case by (subst strcmp_loop.simps) auto
qed

lemma str_compare_eq: "str_compare s t = 0 \<longleftrightarrow> s = t"
  by (induction s t rule: str_compare.induct) auto

lemma memcmp_loop_eq: "memcmp_loop n a b m = 0 \<longleftrightarrow> bytes m a n = bytes m b n"
  by (induction n arbitrary: a b) (auto simp: bytes_Suc)

lemma memchr_loop_at:
  "memchr_loop n p c m = (if c \<in> set (bytes m p n)
     then p + of_nat (length (takeWhile (\<lambda>x. x \<noteq> c) (bytes m p n))) else NULL)"
  by (induction n arbitrary: p) (auto simp: bytes_Suc algebra_simps)

lemma memset_loop_at: "memset_loop n p v m a = (if \<exists>i < n. a = p + of_nat i then v else m a)"
proof (induction n arbitrary: p m)
  case (Suc n)
  have "(\<exists>i < Suc n. a = p + of_nat i) \<longleftrightarrow> a = p \<or> (\<exists>i < n. a = p + 1 + of_nat i)"
    by (auto simp: less_Suc_eq_0_disj algebra_simps)
  then show ?case using Suc by auto
qed simp

subsection \<open>Tokens\<close>

lemma strtok_skip_at:
  assumes t: "str_at m q t" "in_space q (Suc (length t))" and s: "str_at m p s"
  shows "strtok_skip p q m = Some
    (let n = length (takeWhile (\<lambda>c. c \<in> set t) s)
     in (if n = length s then None else Some (p + of_nat n), p + of_nat n))"
  using s
proof (induction s arbitrary: p)
  case Nil
  then show ?case using strchr_member [OF t, of 0] by (subst strtok_skip.simps) auto
next
  case (Cons c s)
  obtain r where r: "strchr q c m = Some r" "r = NULL \<longleftrightarrow> c \<notin> set t"
    using strchr_member [OF t, of c] Cons.prems by auto
  show ?case using Cons r by (subst strtok_skip.simps) (auto simp: Let_def algebra_simps)
qed

lemma strtok_scan_at:
  assumes t: "str_at m q t" "in_space q (Suc (length t))" and s: "str_at m p s"
  shows "strtok_scan p q m = Some (p + of_nat (length (takeWhile (\<lambda>c. c \<notin> set t) s)))"
  using s
proof (induction s arbitrary: p)
  case Nil
  then show ?case using strchr_member [OF t, of 0] by (subst strtok_scan.simps) auto
next
  case (Cons c s)
  obtain r where r: "strchr q c m = Some r" "r = NULL \<longleftrightarrow> c \<notin> set t"
    using strchr_member [OF t, of c] Cons.prems by auto
  show ?case using Cons r by (subst strtok_scan.simps) (auto simp: algebra_simps)
qed

text \<open>One call, on a string \<open>ds @ tok @ rest\<close> of delimiters, a token, and either nothing or a delimiter and more.\<close>

lemma strtok_r_token:
  assumes t: "str_at m q t" "in_space q (Suc (length t))" and sp: "save_ptr \<noteq> NULL"
    and s: "str_at m p (ds @ tok @ rest)" and p: "p \<noteq> NULL" and o: "s0 = p \<or> s0 = NULL \<and> saved = p"
    and d: "set ds \<subseteq> set t" and tok: "set tok \<inter> set t = {}" "tok \<noteq> []"
    and rest: "rest \<noteq> [] \<Longrightarrow> hd rest \<in> set t"
  shows "strtok_r s0 q save_ptr saved m = Some
    (let b = p + of_nat (length ds); e = b + of_nat (length tok)
     in if rest = [] then (b, e, m) else (b, e + 1, m(e := 0)))"
proof -
  have q: "q \<noteq> NULL" using t by (simp add: in_space_def)
  have 1: "takeWhile (\<lambda>c. c \<in> set t) (ds @ tok @ rest) = ds"
    using d tok by (subst takeWhile_append2) (auto simp: neq_Nil_conv)
  have "takeWhile (\<lambda>c. c \<notin> set t) rest = []" using rest by (cases rest) auto
  then have 2: "takeWhile (\<lambda>c. c \<notin> set t) (tok @ rest) = tok"
    using tok by (subst takeWhile_append2) auto
  let ?b = "p + of_nat (length ds)"
  have b: "str_at m ?b (tok @ rest)" using s by (simp add: str_at_append)
  have e: "str_at m (?b + of_nat (length tok)) rest" using b by (simp add: str_at_append)
  have skip: "strtok_skip p q m = Some (Some ?b, ?b)"
    using strtok_skip_at [OF t s] 1 tok(2) by (simp add: Let_def)
  have scan: "strtok_scan ?b q m = Some (?b + of_nat (length tok))"
    using strtok_scan_at [OF t b] 2 by simp
  have "m (?b + of_nat (length tok)) = 0 \<longleftrightarrow> rest = []" using e by (cases rest) auto
  then show ?thesis using q sp p o skip scan by (auto simp: strtok_r_def Let_def)
qed

text \<open>The loop of the comment on \<^verbatim>\<open>strtok_r\<close>: the tokens it returns until it returns a null pointer.\<close>

partial_function (option) strtok_all :: "ptr \<Rightarrow> ptr \<Rightarrow> ptr \<Rightarrow> ptr \<Rightarrow> mem \<Rightarrow> (ptr list \<times> mem) option" where
  "strtok_all s delimiters save_ptr saved m = do {
     (token, saved, m) \<leftarrow> strtok_r s delimiters save_ptr saved m;
     if token = NULL then Some ([], m)
     else do {
       (tokens, m) \<leftarrow> strtok_all NULL delimiters save_ptr saved m;
       Some (token # tokens, m)
     }
   }"

text \<open>The reference: the maximal blocks of characters that are not delimiters.\<close>

function split_tokens :: "8 word list \<Rightarrow> 8 word list \<Rightarrow> 8 word list list" where
  "split_tokens t s =
     (let s' = dropWhile (\<lambda>c. c \<in> set t) s
      in if s' = [] then []
         else takeWhile (\<lambda>c. c \<notin> set t) s' # split_tokens t (dropWhile (\<lambda>c. c \<notin> set t) s'))"
  by pat_completeness auto

lemma drop_token_shorter:
  assumes "dropWhile (\<lambda>c. c \<in> set t) s \<noteq> []"
  shows "length (dropWhile (\<lambda>c. c \<notin> set t) (dropWhile (\<lambda>c. c \<in> set t) s)) < length s"
proof -
  obtain c cs where c: "dropWhile (\<lambda>c. c \<in> set t) s = c # cs" using assms by (cases "dropWhile (\<lambda>c. c \<in> set t) s") auto
  then have "c \<notin> set t" by (metis hd_dropWhile list.sel(1) assms)
  then show ?thesis
    using c length_dropWhile_le [of "\<lambda>c. c \<notin> set t" cs] length_dropWhile_le [of "\<lambda>c. c \<in> set t" s] by simp
qed

termination split_tokens
  by (relation "measure (length \<circ> snd)") (auto simp: drop_token_shorter)

declare split_tokens.simps [simp del]

lemma split_tokens_all: "set s \<subseteq> set t \<Longrightarrow> split_tokens t s = []"
  by (subst split_tokens.simps) (auto simp: Let_def)

lemma split_tokens_Cons: "c \<in> set t \<Longrightarrow> split_tokens t (c # s) = split_tokens t s"
  by (subst (1 2) split_tokens.simps) simp

text \<open>A string is delimiters only, or delimiters, a token, and the end or a delimiter.\<close>

lemma token_split:
  obtains "set s \<subseteq> set t" "split_tokens t s = []"
  | ds tok where "s = ds @ tok" "set ds \<subseteq> set t" "set tok \<inter> set t = {}" "tok \<noteq> []" "split_tokens t s = [tok]"
  | ds tok d rest where "s = ds @ tok @ d # rest" "set ds \<subseteq> set t" "set tok \<inter> set t = {}" "tok \<noteq> []" "d \<in> set t"
      "split_tokens t s = tok # split_tokens t rest"
proof -
  let ?ds = "takeWhile (\<lambda>c. c \<in> set t) s" and ?s = "dropWhile (\<lambda>c. c \<in> set t) s"
  let ?tok = "takeWhile (\<lambda>c. c \<notin> set t) ?s" and ?r = "dropWhile (\<lambda>c. c \<notin> set t) ?s"
  have ds: "set ?ds \<subseteq> set t" "set ?tok \<inter> set t = {}" by (auto dest: set_takeWhileD)
  have e: "s = ?ds @ ?tok @ ?r" by simp
  show thesis
  proof (cases "?s = []")
    case True
    then have "set s \<subseteq> set t" by (simp add: dropWhile_eq_Nil_conv subset_iff)
    then show ?thesis using that(1) split_tokens_all by blast
  next
    case False
    have st: "split_tokens t s = ?tok # split_tokens t ?r"
      using False by (subst split_tokens.simps) (simp add: Let_def)
    have tn: "?tok \<noteq> []" using hd_dropWhile [OF False] False by (simp add: takeWhile_eq_Nil_iff)
    show ?thesis
    proof (cases ?r)
      case Nil
      have "s = ?ds @ ?tok" using e unfolding Nil append_Nil2 .
      moreover have "split_tokens t s = [?tok]" unfolding st Nil using split_tokens_all [of "[]" t] by simp
      ultimately show ?thesis by (rule that(2) [OF _ ds tn])
    next
      case (Cons d rest)
      then have d: "d \<in> set t" using hd_dropWhile [of "\<lambda>c. c \<notin> set t" ?s] by simp
      have "s = ?ds @ ?tok @ d # rest" using e unfolding Cons .
      moreover have "split_tokens t s = ?tok # split_tokens t rest" unfolding st Cons split_tokens_Cons [OF d] ..
      ultimately show ?thesis by (rule that(3) [OF _ ds tn d])
    qed
  qed
qed

lemma strtok_r_none:
  assumes t: "str_at m q t" "in_space q (Suc (length t))" and sp: "save_ptr \<noteq> NULL"
    and s: "str_at m p s" and p: "p \<noteq> NULL" and o: "s0 = p \<or> s0 = NULL \<and> saved = p" and d: "set s \<subseteq> set t"
  shows "strtok_r s0 q save_ptr saved m = Some (NULL, p + of_nat (length s), m)"
proof -
  have "takeWhile (\<lambda>c. c \<in> set t) s = s" using d by (simp add: takeWhile_eq_all_conv subset_iff)
  then have "strtok_skip p q m = Some (None, p + of_nat (length s))"
    using strtok_skip_at [OF t s] unfolding Let_def by (simp only: simp_thms if_True)
  then show ?thesis using t sp p o by (auto simp: strtok_r_def Let_def in_space_def)
qed

lemma str_at_cong: "(\<And>i. i \<le> length s \<Longrightarrow> m' (p + of_nat i) = m (p + of_nat i)) \<Longrightarrow> str_at m' p s = str_at m p s"
  unfolding str_at_iff using bytes_cong [of "length s" m' p m] by auto

lemma strtok_all_at:
  assumes t: "in_space q (Suc (length t))" and sp: "save_ptr \<noteq> NULL"
  shows "str_at m q t \<Longrightarrow> str_at m p s \<Longrightarrow> in_space p (Suc (length s)) \<Longrightarrow>
    (\<forall>i j. i \<le> length s \<longrightarrow> j \<le> length t \<longrightarrow> p + of_nat i \<noteq> q + of_nat j) \<Longrightarrow> s0 = p \<or> s0 = NULL \<and> saved = p \<Longrightarrow>
    \<exists>ps m'. strtok_all s0 q save_ptr saved m = Some (ps, m') \<and> list_all2 (str_at m') ps (split_tokens t s)
      \<and> (\<forall>a. (\<forall>i < length s. a \<noteq> p + of_nat i) \<longrightarrow> m' a = m a)"
proof (induction "length s" arbitrary: m p s s0 saved rule: less_induct)
  case less
  note tm = less.prems(1) and sm = less.prems(2) and ip = less.prems(3) and dj = less.prems(4) and o = less.prems(5)
  have p: "p \<noteq> NULL" using ip by (simp add: in_space_def)
  show ?case
  proof (cases rule: token_split [of s t])
    case 1
    then show ?thesis
      using strtok_r_none [OF tm t sp sm p o 1(1)] by (subst strtok_all.simps) simp
  next
    case (2 ds tok)
    let ?b = "p + of_nat (length ds)" and ?e = "p + of_nat (length s)"
    have b: "?b \<noteq> NULL" using in_space_plus(2) [OF ip, of "length ds"] 2 by simp
    have "strtok_r s0 q save_ptr saved m = Some (?b, ?e, m)"
      using strtok_r_token [OF tm t sp _ p o 2(2-4), of "[]"] sm 2(1) by (simp add: Let_def add.assoc)
    moreover have "strtok_r NULL q save_ptr ?e m = Some (NULL, ?e, m)"
      using strtok_r_none [OF tm t sp, of ?e "[]" NULL ?e] str_at_end [OF sm] in_space_plus(2) [OF ip, of "length s"] by simp
    ultimately have "strtok_all s0 q save_ptr saved m = Some ([?b], m)"
      using b by (simp add: strtok_all.simps)
    moreover have "str_at m ?b tok" using sm 2(1) by (simp add: str_at_append)
    ultimately show ?thesis using 2(5) by simp
  next
    case (3 ds tok d rest)
    define n where n: "n = length ds + length tok"
    let ?b = "p + of_nat (length ds)" and ?e = "p + of_nat n" and ?p = "p + of_nat (Suc n)"
    let ?m = "m(?e := 0)"
    have len: "length s = Suc (n + length rest)" using 3(1) n by simp
    have be: "?e = ?b + of_nat (length tok)" by (simp add: n algebra_simps)
    have b: "?b \<noteq> NULL" using in_space_plus(2) [OF ip, of "length ds"] 3(1) by simp
    have later: "?p + of_nat i = p + of_nat (Suc n + i)" for i by (simp add: algebra_simps)
    have inj: "p + of_nat i = p + of_nat j \<longleftrightarrow> i = j" if "i \<le> length s" "j \<le> length s" for i j
      using in_space_inj [OF ip, of i j] that by (simp add: less_Suc_eq_le)
    have r: "strtok_r s0 q save_ptr saved m = Some (?b, ?p, ?m)"
      using strtok_r_token [OF tm t sp _ p o 3(2-4), of "d # rest"] sm 3(1,5) be by (simp add: Let_def algebra_simps)
    have "q + of_nat j \<noteq> ?e" if "j \<le> length t" for j using dj [rule_format, of n j] that len by auto
    then have tm': "str_at ?m q t" using tm by (subst str_at_cong [of _ _ _ m]) auto
    have "str_at m ?e (d # rest)" using sm 3(1) by (simp add: str_at_append n algebra_simps)
    then have "str_at m ?p rest" by (simp add: algebra_simps)
    moreover have "?p + of_nat i \<noteq> ?e" if "i \<le> length rest" for i
      unfolding later using inj [of "Suc n + i" n] that len by simp
    ultimately have sm': "str_at ?m ?p rest" by (subst str_at_cong [of _ _ _ m]) auto
    have ip': "in_space ?p (Suc (length rest))" using in_space_later [OF ip, of "Suc n"] len by simp
    have dj': "\<forall>i j. i \<le> length rest \<longrightarrow> j \<le> length t \<longrightarrow> ?p + of_nat i \<noteq> q + of_nat j"
      unfolding later using dj len by (intro allI impI) (simp del: of_nat_Suc of_nat_add)
    obtain ps m' where IH: "strtok_all NULL q save_ptr ?p ?m = Some (ps, m')"
        "list_all2 (str_at m') ps (split_tokens t rest)" "\<forall>a. (\<forall>i < length rest. a \<noteq> ?p + of_nat i) \<longrightarrow> m' a = ?m a"
      using less.hyps [OF _ tm' sm' ip' dj', of NULL ?p] len by auto
    have "m' (?b + of_nat i) = ?m (?b + of_nat i)" if "i \<le> length tok" for i
    proof -
      have "?b + of_nat i \<noteq> ?p + of_nat j" if "j < length rest" for j
        unfolding later using inj [of "length ds + i" "Suc n + j"] that \<open>i \<le> length tok\<close> len n by (simp add: algebra_simps)
      then show ?thesis using IH(3) by blast
    qed
    moreover have "str_at ?m ?b tok"
    proof -
      have "?m (?b + of_nat i) = m (?b + of_nat i)" if "i < length tok" for i
        using inj [of "length ds + i" n] that len n by (simp add: algebra_simps)
      then have "bytes ?m ?b (length tok) = bytes m ?b (length tok)" by (rule bytes_cong)
      moreover have "bytes m ?b (length tok) = tok \<and> 0 \<notin> set tok" using sm 3(1) by (simp add: str_at_append)
      moreover have "?m (?b + of_nat (length tok)) = 0" unfolding be by simp
      ultimately show ?thesis unfolding str_at_iff by (intro conjI) simp_all
    qed
    ultimately have tok: "str_at m' ?b tok" by (subst str_at_cong [of _ _ _ ?m]) auto
    have "strtok_all s0 q save_ptr saved m = Some (?b # ps, m')"
      using r IH(1) b by (subst strtok_all.simps) simp
    moreover have "m' a = m a" if "\<forall>i < length s. a \<noteq> p + of_nat i" for a
    proof -
      have "\<forall>i < length rest. a \<noteq> ?p + of_nat i"
        unfolding later using that len by (intro allI impI) (simp del: of_nat_Suc of_nat_add)
      moreover have "a \<noteq> ?e" using that len by auto
      ultimately show ?thesis using IH(3) by auto
    qed
    ultimately show ?thesis using 3(6) tok IH(2) by auto
  qed
qed

subsection \<open>Copies of strings\<close>

definition no_overlap :: "ptr \<Rightarrow> nat \<Rightarrow> ptr \<Rightarrow> nat \<Rightarrow> bool" where
  "no_overlap p n q k \<longleftrightarrow> (\<forall>i j. i < n \<longrightarrow> j < k \<longrightarrow> p + of_nat i \<noteq> q + of_nat j)"

lemma memcpy_at:
  assumes d: "in_space dst n" and "src \<noteq> NULL" and ov: "no_overlap dst n src n"
  shows "\<exists>m'. memcpy dst src n m = Some (dst, m') \<and> bytes m' dst n = bytes m src n
    \<and> (\<forall>a. (\<forall>i < n. a \<noteq> dst + of_nat i) \<longrightarrow> m' a = m a)"
proof -
  have "\<forall>i j. i < j \<longrightarrow> j < n \<longrightarrow> dst + of_nat i \<noteq> src + of_nat j"
    using ov by (auto simp: no_overlap_def)
  moreover have "\<forall>i j. i < j \<longrightarrow> j < n \<longrightarrow> dst + of_nat i \<noteq> dst + of_nat j"
    using in_space_inj [OF d] by (metis less_trans nat_neq_iff)
  ultimately have "bytes (memcpy_loop n dst src m) dst n = bytes m src n"
    using memcpy_loop_inside [of n dst src _ m] by (auto intro: nth_equalityI)
  then show ?thesis
    using assms memcpy_loop_outside [of n _ dst src m] by (auto simp: memcpy_def in_space_def)
qed

lemma str_at_take: "str_at m p s \<Longrightarrow> n \<le> length s \<Longrightarrow> bytes m p n = take n s"
  using str_at_append [of m p "take n s" "drop n s"] by simp

lemma notin_set_take: "x \<notin> set s \<Longrightarrow> x \<notin> set (take n s)"
  by (meson in_set_takeD)

text \<open>Copy \<open>n\<close> characters and write the terminator.\<close>

lemma copy_terminated:
  assumes s: "str_at m src s" "src \<noteq> NULL" and n: "n \<le> length s" and d: "in_space dst (Suc n)"
    and ov: "no_overlap dst (Suc n) src (Suc (length s))"
  shows "\<exists>m'. memcpy dst src n m = Some (dst, m') \<and> str_at (m'(dst + of_nat n := 0)) dst (take n s)
    \<and> (\<forall>a. (\<forall>i \<le> n. a \<noteq> dst + of_nat i) \<longrightarrow> (m'(dst + of_nat n := 0)) a = m a)"
proof -
  have d': "in_space dst n" using d by (simp add: in_space_def)
  have "no_overlap dst n src n" using ov n by (simp add: no_overlap_def)
  then obtain m' where m': "memcpy dst src n m = Some (dst, m')" "bytes m' dst n = bytes m src n"
      "\<forall>a. (\<forall>i < n. a \<noteq> dst + of_nat i) \<longrightarrow> m' a = m a"
    using memcpy_at [OF d' s(2)] by blast
  have "dst + of_nat i \<noteq> dst + of_nat n" if "i < n" for i using in_space_inj [OF d, of i n] that by simp
  then have "bytes (m'(dst + of_nat n := 0)) dst n = bytes m' dst n" by (intro bytes_cong) auto
  then have "str_at (m'(dst + of_nat n := 0)) dst (take n s)"
    using m'(2) str_at_take [OF s(1) n] s(1) n by (simp add: str_at_iff notin_set_take min_absorb2)
  then show ?thesis using m' by (intro exI [of _ m']) auto
qed

lemma strlcpy_at:
  assumes s: "str_at m src s" "in_space src (Suc (length s))" and n: "0 < n" and d: "in_space dst n"
    and ov: "no_overlap dst n src (Suc (length s))"
  shows "\<exists>m'. strlcpy dst src n m = Some (length s, m') \<and> str_at m' dst (take (n - 1) s)
    \<and> (\<forall>a. (\<forall>i < n. a \<noteq> dst + of_nat i) \<longrightarrow> m' a = m a)"
proof -
  let ?n = "if length s < n - 1 then length s else n - 1"
  have k: "?n \<le> length s" "?n < n" "take ?n s = take (n - 1) s" using n by auto
  have nn: "src \<noteq> NULL" "dst \<noteq> NULL" using s(2) d by (simp_all add: in_space_def)
  have d': "in_space dst (Suc ?n)" using d k(2) by (auto simp: in_space_def)
  have "no_overlap dst (Suc ?n) src (Suc (length s))" using ov k(2) by (auto simp: no_overlap_def)
  then obtain m' where m': "memcpy dst src ?n m = Some (dst, m')" "str_at (m'(dst + of_nat ?n := 0)) dst (take ?n s)"
      "\<forall>a. (\<forall>i \<le> ?n. a \<noteq> dst + of_nat i) \<longrightarrow> (m'(dst + of_nat ?n := 0)) a = m a"
    using copy_terminated [OF s(1) nn(1) k(1) d'] by blast
  have "strlcpy dst src n m = Some (length s, m'(dst + of_nat ?n := 0))"
    using nn n m'(1) strlen_at [OF s] unfolding strlcpy_def Let_def by simp
  moreover have "\<forall>a. (\<forall>i < n. a \<noteq> dst + of_nat i) \<longrightarrow> (m'(dst + of_nat ?n := 0)) a = m a"
    using m'(3) k(2) by (meson le_less_trans)
  ultimately show ?thesis using m'(2) unfolding k(3) by blast
qed

lemma strlcat_at:
  assumes s: "str_at m src s" "in_space src (Suc (length s))" and t: "str_at m dst t" and n: "length t < n"
    and d: "in_space dst n" and ov: "no_overlap dst n src (Suc (length s))"
  shows "\<exists>m'. strlcat dst src n m = Some (length s + length t, m') \<and> str_at m' dst (t @ take (n - length t - 1) s)
    \<and> (\<forall>a. (\<forall>i < n. a \<noteq> dst + of_nat i) \<longrightarrow> m' a = m a)"
proof -
  let ?k = "n - length t - 1" and ?e = "dst + of_nat (length t)"
  let ?n = "if length s < ?k then length s else ?k"
  have k: "?n \<le> length s" "length t + ?n < n" "take ?n s = take ?k s" using n by auto
  have nn: "src \<noteq> NULL" "dst \<noteq> NULL" using s(2) d by (simp_all add: in_space_def)
  have later: "?e + of_nat i = dst + of_nat (length t + i)" for i by (simp add: add.assoc)
  have e: "in_space ?e (Suc ?n)" using in_space_later [OF d n] k(2) n by (auto simp: in_space_def)
  have ov': "no_overlap ?e (Suc ?n) src (Suc (length s))"
    using ov k(2) unfolding no_overlap_def later by (auto simp del: of_nat_add)
  obtain m' where m': "memcpy ?e src ?n m = Some (?e, m')" "str_at (m'(?e + of_nat ?n := 0)) ?e (take ?n s)"
      "\<forall>a. (\<forall>i \<le> ?n. a \<noteq> ?e + of_nat i) \<longrightarrow> (m'(?e + of_nat ?n := 0)) a = m a"
    using copy_terminated [OF s(1) nn(1) k(1) e ov'] by blast
  let ?m = "m'(?e + of_nat ?n := 0)"
  have "in_space dst (Suc (length t))" using d n by (simp add: in_space_def)
  then have "strlcat dst src n m = Some (length s + length t, ?m)"
    using nn n m'(1) strlen_at [OF s] strlen_at [OF t] unfolding strlcat_def Let_def
    by (simp add: later del: of_nat_add)
  moreover have "bytes ?m dst (length t) = t"
  proof -
    have "?m (dst + of_nat i) = m (dst + of_nat i)" if "i < length t" for i
    proof -
      have "dst + of_nat i \<noteq> ?e + of_nat j" if "j \<le> ?n" for j
        unfolding later using in_space_inj [OF d, of i "length t + j"] \<open>i < length t\<close> that k(2) n by simp
      then show ?thesis using m'(3) by blast
    qed
    then have "bytes ?m dst (length t) = bytes m dst (length t)" by (rule bytes_cong)
    then show ?thesis using t by (simp add: str_at_iff)
  qed
  then have "str_at ?m dst (t @ take ?k s)"
    using m'(2) t unfolding k(3) by (simp add: str_at_append str_at_iff [of m])
  moreover have "?m a = m a" if "\<forall>i < n. a \<noteq> dst + of_nat i" for a
  proof -
    have "\<forall>i \<le> ?n. a \<noteq> ?e + of_nat i"
      unfolding later using that k(2) by (intro allI impI) (simp del: of_nat_add split: if_splits)
    then show ?thesis using m'(3) by blast
  qed
  ultimately show ?thesis by blast
qed

lemma strstr_loop_at:
  assumes "needle \<noteq> NULL" and "\<And>i. i < n \<Longrightarrow> h + of_nat i \<noteq> NULL"
  shows "\<exists>r. strstr_loop n h needle k m = Some r
    \<and> (if \<exists>i < n. bytes m (h + of_nat i) k = bytes m needle k
       then \<exists>i < n. r = h + of_nat i \<and> bytes m (h + of_nat i) k = bytes m needle k
              \<and> (\<forall>j < i. bytes m (h + of_nat j) k \<noteq> bytes m needle k)
       else r = NULL)"
  using assms
proof (induction n arbitrary: h)
  case (Suc n)
  have h: "h \<noteq> NULL" using Suc.prems(2) [of 0] by simp
  have nx: "h + 1 + of_nat i = h + of_nat (Suc i)" for i by (simp add: algebra_simps)
  have ex: "(\<exists>i < Suc n. P i) \<longleftrightarrow> P 0 \<or> (\<exists>i < n. P (Suc i))" for P by (auto simp: less_Suc_eq_0_disj)
  have all: "(\<forall>j < Suc i. P j) \<longleftrightarrow> P 0 \<and> (\<forall>j < i. P (Suc j))" for P i by (auto simp: less_Suc_eq_0_disj)
  show ?case
  proof (cases "bytes m h k = bytes m needle k")
    case True
    then show ?thesis using h Suc.prems(1) by (auto simp: memcmp_def memcmp_loop_eq intro!: exI [of _ 0])
  next
    case False
    have "\<And>i. i < n \<Longrightarrow> h + 1 + of_nat i \<noteq> NULL" using Suc.prems(2) [of "Suc _"] unfolding nx by blast
    from Suc.IH [OF Suc.prems(1) this] obtain r where "strstr_loop n (h + 1) needle k m = Some r"
      "if \<exists>i < n. bytes m (h + of_nat (Suc i)) k = bytes m needle k
       then \<exists>i < n. r = h + of_nat (Suc i) \<and> bytes m (h + of_nat (Suc i)) k = bytes m needle k
              \<and> (\<forall>j < i. bytes m (h + of_nat (Suc j)) k \<noteq> bytes m needle k)
       else r = NULL" unfolding nx by blast
    then show ?thesis using False h Suc.prems(1) unfolding ex
      by (intro exI [of _ r]) (auto simp: memcmp_def memcmp_loop_eq all simp del: of_nat_Suc split: if_splits)
  qed
qed simp

lemma bytes_drop: "str_at m p s \<Longrightarrow> i + k \<le> length s \<Longrightarrow> bytes m (p + of_nat i) k = take k (drop i s)"
  using str_at_take [OF str_at_drop [of m p s i]] by simp

definition occurs_at :: "8 word list \<Rightarrow> 8 word list \<Rightarrow> nat \<Rightarrow> bool" where
  "occurs_at t s i \<longleftrightarrow> i + length t \<le> length s \<and> take (length t) (drop i s) = t"

lemma strstr_at:
  assumes s: "str_at m p s" "in_space p (Suc (length s))" and t: "str_at m q t" "in_space q (Suc (length t))"
  shows "\<exists>r. strstr p q m = Some r
    \<and> (if \<exists>i. occurs_at t s i then \<exists>i. occurs_at t s i \<and> (\<forall>j < i. \<not> occurs_at t s j) \<and> r = p + of_nat i else r = NULL)"
proof (cases "length t \<le> length s")
  case False
  then show ?thesis using strlen_at [OF s] strlen_at [OF t] by (simp add: strstr_def occurs_at_def)
next
  case True
  define n where n: "n = Suc (length s - length t)"
  have nn: "q \<noteq> NULL" "\<And>i. i < n \<Longrightarrow> p + of_nat i \<noteq> NULL"
    using t(2) in_space_plus(2) [OF s(2)] n by (simp_all add: in_space_def)
  have oc: "occurs_at t s i \<longleftrightarrow> i < n \<and> bytes m (p + of_nat i) (length t) = bytes m q (length t)" for i
    using True bytes_drop [OF s(1), of i "length t"] str_at_take [OF t(1), of "length t"]
    by (auto simp: occurs_at_def less_Suc_eq_le n)
  have "strstr p q m = strstr_loop n p q (length t) m"
    using True strlen_at [OF s] strlen_at [OF t] by (simp add: strstr_def n)
  moreover obtain r where "strstr_loop n p q (length t) m = Some r"
    "if \<exists>i < n. bytes m (p + of_nat i) (length t) = bytes m q (length t)
     then \<exists>i < n. r = p + of_nat i \<and> bytes m (p + of_nat i) (length t) = bytes m q (length t)
            \<and> (\<forall>j < i. bytes m (p + of_nat j) (length t) \<noteq> bytes m q (length t))
     else r = NULL"
    using strstr_loop_at [of q n p "length t" m, OF nn] by blast
  ultimately show ?thesis unfolding oc by (intro exI [of _ r]) (auto intro: less_trans split: if_splits)
qed

subsection \<open>Properties\<close>

text \<open>A memory to evaluate the properties on: a string at 100 (" ab c"), one at 200 (" "), and one at 300 ("c").\<close>

definition demo_mem :: mem where
  "demo_mem = (\<lambda>_. 0)(100 := 32, 101 := 97, 102 := 98, 103 := 32, 104 := 99, 200 := 32, 300 := 99)"

lemma demo_mem_at: "str_at demo_mem 100 [32, 97, 98, 32, 99]" "str_at demo_mem 200 [32]" "str_at demo_mem 300 [99]"
  by (simp_all add: demo_mem_def)

lemma demo_in_space:
  "in_space 100 (Suc (length [32, 97, 98, 32, 99 :: 8 word]))" "in_space 200 (Suc (length [32 :: 8 word]))"
  "in_space 300 (Suc (length [99 :: 8 word]))" "in_space 400 3"
  by (simp_all add: in_space_def)

lemma no_overlapI:
  assumes "in_space p n" "in_space q k" "unat p + n \<le> unat q \<or> unat q + k \<le> unat p"
  shows "no_overlap p n q k"
  unfolding no_overlap_def
proof (intro allI impI notI)
  fix i j assume ij: "i < n" "j < k" and eq: "p + of_nat i = q + of_nat j"
  have "unat p + i = unat q + j"
    using in_space_plus(1) [OF assms(1) ij(1)] in_space_plus(1) [OF assms(2) ij(2)] eq by simp
  then show False using assms(3) ij by auto
qed

lemma demo_no_overlap:
  "no_overlap 400 3 100 (Suc (length [32, 97, 98, 32, 99 :: 8 word]))"
  "no_overlap 100 (Suc (length [32, 97, 98, 32, 99 :: 8 word])) 200 (Suc (length [32 :: 8 word]))"
  by (rule no_overlapI; simp add: demo_in_space [simplified])+

text \<open>C15: \<open>memmove\<close> copies a block to any destination, overlapping or not: the destination holds what the
  source held, and nothing else changes. It returns the end of the destination, not its start,
  when the destination is below the source.\<close>

theorem memmove_copies:
  assumes "in_space dst n" and "in_space src n"
  shows "\<exists>m'. memmove dst src n m = Some (if dst < src then dst + of_nat n else dst, m')
    \<and> bytes m' dst n = bytes m src n \<and> (\<forall>a. (\<forall>i < n. a \<noteq> dst + of_nat i) \<longrightarrow> m' a = m a)"
  by (rule memmove_inside [OF assms])

theorem memmove_copies_witness:
  "\<exists>m'. memmove 100 101 5 demo_mem = Some (105, m') \<and> bytes m' 100 5 = [97, 98, 32, 99, 0]"
  using memmove_copies [of 100 5 101 demo_mem] by (auto simp: in_space_def demo_mem_def bytes_def upt_rec)



text \<open>C14: Calling \<open>strtok_r\<close> on a string and then with a null pointer until it returns one yields
  exactly the maximal blocks of characters that are not delimiters, in order, each as a terminated string; memory
  outside the string is not touched.\<close>

theorem strtok_r_tokens:
  assumes "str_at m q t" and "in_space q (Suc (length t))" and "str_at m p s" and "in_space p (Suc (length s))"
    and "no_overlap p (Suc (length s)) q (Suc (length t))" and "save_ptr \<noteq> NULL"
  shows "\<exists>ps m'. strtok_all p q save_ptr saved m = Some (ps, m') \<and> list_all2 (str_at m') ps (split_tokens t s)
    \<and> (\<forall>a. (\<forall>i < length s. a \<noteq> p + of_nat i) \<longrightarrow> m' a = m a)"
  using strtok_all_at [OF assms(2,6,1,3,4), of p saved] assms(5) by (simp add: no_overlap_def less_Suc_eq_le)

theorem strtok_r_tokens_witness:
  "\<exists>p1 p2 m'. strtok_all 100 200 8 0 demo_mem = Some ([p1, p2], m') \<and> str_at m' p1 [97, 98] \<and> str_at m' p2 [99]"
proof -
  have "split_tokens [32] [32, 97, 98, 32, 99] = [[97, 98], [99 :: 8 word]]" by (simp add: split_tokens.simps)
  then show ?thesis
    using strtok_r_tokens [OF demo_mem_at(2) _ demo_mem_at(1), of 8 0] demo_in_space demo_no_overlap
    by (auto simp: list_all2_Cons2)
qed

text \<open>C17: \<open>strcmp\<close> on terminated strings returns the sign of their lexicographic comparison as
  unsigned bytes, zero exactly when they are equal, and \<open>strstr\<close> returns the first
  position at which the second string occurs in the first, or a null pointer when there is none.\<close>

theorem strcmp_strstr_correct:
  assumes "str_at m p s" and "in_space p (Suc (length s))" and "str_at m q t" and "in_space q (Suc (length t))"
  shows "strcmp p q m = Some (str_compare s t) \<and> (str_compare s t = 0 \<longleftrightarrow> s = t)
    \<and> (\<exists>r. strstr p q m = Some r
       \<and> (if \<exists>i. occurs_at t s i then \<exists>i. occurs_at t s i \<and> (\<forall>j < i. \<not> occurs_at t s j) \<and> r = p + of_nat i
          else r = NULL))"
  using strcmp_loop_at [OF assms(1,3)] str_compare_eq strstr_at [OF assms] assms(2,4)
  by (simp add: strcmp_def in_space_def)

theorem strcmp_strstr_correct_witness:
  "strcmp 100 300 demo_mem = Some (- 1) \<and> (\<exists>r. strstr 100 300 demo_mem = Some r \<and> r \<noteq> NULL)"
proof -
  have "occurs_at [99] [32, 97, 98, 32, 99 :: 8 word] 4" by (simp add: occurs_at_def)
  then have ex: "\<exists>i. occurs_at [99] [32, 97, 98, 32, 99 :: 8 word] i" by blast
  have nz: "100 + of_nat i \<noteq> (NULL :: ptr)" if "occurs_at [99] [32, 97, 98, 32, 99 :: 8 word] i" for i
    using in_space_plus(2) [OF demo_in_space(1), of i] that by (simp add: occurs_at_def)
  show ?thesis
    using strcmp_strstr_correct [OF demo_mem_at(1) _ demo_mem_at(3)] demo_in_space ex nz by auto
qed

end
