(* ===== verification/Hash_Tables.thy ===== *)
theory Hash_Tables
  imports C_Strings "HOL-Library.Multiset"
begin

section \<open>Hash tables (\<^verbatim>\<open>lib/kernel/hash.c\<close>)\<close>

text \<open>
  A hash table with its buckets as the lists that theory \<open>List_Interface\<close> shows the linked lists to
  implement. The hash and comparison functions are fields of the table, as in the code; an element is the address of its
  \<^verbatim>\<open>struct hash_elem\<close>. Whether \<^verbatim>\<open>malloc\<close> finds memory for a new bucket array is the
  argument \<open>alloc\<close> of the operations that call it.
\<close>

record hash =
  elem_cnt :: nat
  bucket_cnt :: nat
  buckets :: "ptr list list"
  hash_fun :: "ptr \<Rightarrow> 32 word"
  less_fun :: "ptr \<Rightarrow> ptr \<Rightarrow> bool"

definition MIN_ELEMS_PER_BUCKET :: nat where "MIN_ELEMS_PER_BUCKET = 1"
definition BEST_ELEMS_PER_BUCKET :: nat where "BEST_ELEMS_PER_BUCKET = 2"
definition MAX_ELEMS_PER_BUCKET :: nat where "MAX_ELEMS_PER_BUCKET = 4"

subsection \<open>Buckets\<close>

definition find_bucket :: "hash \<Rightarrow> ptr \<Rightarrow> nat" where
  "find_bucket h e = unat (hash_fun h e) AND (bucket_cnt h - 1)"

primrec find_elem :: "hash \<Rightarrow> ptr list \<Rightarrow> ptr \<Rightarrow> ptr" where
  "find_elem h [] e = NULL"
| "find_elem h (hi # bucket) e =
     (if \<not> less_fun h hi e \<and> \<not> less_fun h e hi then hi else find_elem h bucket e)"

definition turn_off_least_1bit :: "nat \<Rightarrow> nat" where
  "turn_off_least_1bit x = x AND (x - 1)"

definition is_power_of_2 :: "nat \<Rightarrow> bool" where
  "is_power_of_2 x \<longleftrightarrow> x \<noteq> 0 \<and> turn_off_least_1bit x = 0"

lemma turn_off_less: "0 < x \<Longrightarrow> turn_off_least_1bit x < x"
proof -
  assume "0 < x"
  have "x AND (x - 1) \<le> x - 1" by (simp add: and_nat_def)
     (metis AND_upper2 nat_int of_nat_0_le_iff nat_mono)
  then show ?thesis using \<open>0 < x\<close> by (simp add: turn_off_least_1bit_def)
qed

text \<open>The loop that rounds the number of buckets down to a power of two; a positive count stays positive.\<close>

function round_buckets :: "nat \<Rightarrow> nat" where
  "round_buckets n = (if n = 0 \<or> is_power_of_2 n then n else round_buckets (turn_off_least_1bit n))"
  by pat_completeness auto
termination by (relation "measure id") (auto simp: turn_off_less)

declare round_buckets.simps [simp del]

definition insert_elem :: "nat \<Rightarrow> ptr \<Rightarrow> hash \<Rightarrow> hash" where
  "insert_elem b e h = h\<lparr>elem_cnt := elem_cnt h + 1, buckets := (buckets h)[b := e # buckets h ! b]\<rparr>"

definition remove_elem :: "ptr \<Rightarrow> hash \<Rightarrow> hash" where
  "remove_elem e h = h\<lparr>elem_cnt := elem_cnt h - 1, buckets := map (removeAll e) (buckets h)\<rparr>"

text \<open>The two nested loops of \<^verbatim>\<open>rehash\<close> visit the old elements bucket by bucket.\<close>

definition move_elem :: "ptr \<Rightarrow> hash \<Rightarrow> hash" where
  "move_elem e h = (let b = find_bucket h e in h\<lparr>buckets := (buckets h)[b := e # buckets h ! b]\<rparr>)"

definition rehash :: "bool \<Rightarrow> hash \<Rightarrow> hash" where
  "rehash alloc h =
     (let old_buckets = buckets h;
          new_bucket_cnt = elem_cnt h div BEST_ELEMS_PER_BUCKET;
          new_bucket_cnt = (if new_bucket_cnt < 4 then 4 else new_bucket_cnt);
          new_bucket_cnt = round_buckets new_bucket_cnt
      in if new_bucket_cnt = bucket_cnt h then h
         else if \<not> alloc then h
         else fold (fold move_elem) old_buckets
                (h\<lparr>buckets := replicate new_bucket_cnt [], bucket_cnt := new_bucket_cnt\<rparr>))"

subsection \<open>Life cycle\<close>

text \<open>The elements that the destructor is called for, in order, are part of the result.\<close>

definition hash_clear :: "bool \<Rightarrow> hash \<Rightarrow> ptr list \<times> hash" where
  "hash_clear destructor h =
     (if destructor then concat (buckets h) else [],
      h\<lparr>buckets := replicate (bucket_cnt h) [], elem_cnt := 0\<rparr>)"

definition hash_init :: "bool \<Rightarrow> (ptr \<Rightarrow> 32 word) \<Rightarrow> (ptr \<Rightarrow> ptr \<Rightarrow> bool) \<Rightarrow> hash option" where
  "hash_init alloc hf lf =
     (if alloc
      then Some (snd (hash_clear False \<lparr>elem_cnt = 0, bucket_cnt = 4, buckets = [], hash_fun = hf, less_fun = lf\<rparr>))
      else None)"

definition hash_destroy :: "bool \<Rightarrow> hash \<Rightarrow> ptr list" where
  "hash_destroy destructor h = (if destructor then fst (hash_clear True h) else [])"

subsection \<open>Search, insertion, deletion\<close>

definition hash_find :: "hash \<Rightarrow> ptr \<Rightarrow> ptr" where
  "hash_find h e = find_elem h (buckets h ! find_bucket h e) e"

definition hash_insert :: "bool \<Rightarrow> ptr \<Rightarrow> hash \<Rightarrow> ptr \<times> hash" where
  "hash_insert alloc e h =
     (let bucket = find_bucket h e;
          old = find_elem h (buckets h ! bucket) e;
          h = (if old = NULL then insert_elem bucket e h else h)
      in (old, rehash alloc h))"

definition hash_replace :: "bool \<Rightarrow> ptr \<Rightarrow> hash \<Rightarrow> ptr \<times> hash" where
  "hash_replace alloc e h =
     (let bucket = find_bucket h e;
          old = find_elem h (buckets h ! bucket) e;
          h = (if old \<noteq> NULL then remove_elem old h else h);
          h = insert_elem bucket e h
      in (old, rehash alloc h))"

definition hash_delete :: "bool \<Rightarrow> ptr \<Rightarrow> hash \<Rightarrow> ptr \<times> hash" where
  "hash_delete alloc e h =
     (let found = find_elem h (buckets h ! find_bucket h e) e
      in if found \<noteq> NULL then (found, rehash alloc (remove_elem found h)) else (found, h))"

definition hash_size :: "hash \<Rightarrow> nat" where
  "hash_size h = elem_cnt h"

definition hash_empty :: "hash \<Rightarrow> bool" where
  "hash_empty h \<longleftrightarrow> elem_cnt h = 0"

subsection \<open>Iteration\<close>

definition hash_apply :: "(ptr \<Rightarrow> 's \<Rightarrow> 's) \<Rightarrow> hash \<Rightarrow> 's \<Rightarrow> 's" where
  "hash_apply action h = fold (fold action) (buckets h)"

text \<open>
  The position of an iterator in its bucket: 0 is the head of the list, then the elements, then the tail;
  \<open>it_end\<close> says that the current element is the null pointer.
\<close>

record hash_iterator =
  it_bucket :: nat
  it_pos :: nat
  it_end :: bool

definition hash_first :: hash_iterator where
  "hash_first = \<lparr>it_bucket = 0, it_pos = 0, it_end = False\<rparr>"

function hash_next_loop :: "hash \<Rightarrow> hash_iterator \<Rightarrow> hash_iterator" where
  "hash_next_loop h i =
     (if it_pos i = length (buckets h ! it_bucket i) + 1
      then let i = i\<lparr>it_bucket := it_bucket i + 1\<rparr>
           in if it_bucket i \<ge> bucket_cnt h then i\<lparr>it_end := True\<rparr>
              else hash_next_loop h (i\<lparr>it_pos := 1\<rparr>)
      else i)"
  by pat_completeness auto
termination by (relation "measure (\<lambda>(h, i). bucket_cnt h - it_bucket i)") auto

declare hash_next_loop.simps [simp del]

definition hash_cur :: "hash \<Rightarrow> hash_iterator \<Rightarrow> ptr" where
  "hash_cur h i = (if it_end i then NULL else buckets h ! it_bucket i ! (it_pos i - 1))"

definition hash_next :: "hash \<Rightarrow> hash_iterator \<Rightarrow> ptr \<times> hash_iterator" where
  "hash_next h i = (let i = hash_next_loop h (i\<lparr>it_pos := it_pos i + 1\<rparr>) in (hash_cur h i, i))"

subsection \<open>Hash functions\<close>

definition FNV_32_PRIME :: "32 word" where "FNV_32_PRIME = 16777619"
definition FNV_32_BASIS :: "32 word" where "FNV_32_BASIS = 2166136261"

primrec hash_bytes_loop :: "nat \<Rightarrow> ptr \<Rightarrow> 32 word \<Rightarrow> mem \<Rightarrow> 32 word" where
  "hash_bytes_loop 0 buf hash m = hash"
| "hash_bytes_loop (Suc n) buf hash m =
     hash_bytes_loop n (buf + 1) ((hash * FNV_32_PRIME) XOR ucast (m buf)) m"

definition hash_bytes :: "ptr \<Rightarrow> nat \<Rightarrow> mem \<Rightarrow> 32 word option" where
  "hash_bytes buf n m = do { ASSERT (buf \<noteq> NULL); Some (hash_bytes_loop n buf FNV_32_BASIS m) }"

partial_function (option) hash_string_loop :: "ptr \<Rightarrow> 32 word \<Rightarrow> mem \<Rightarrow> 32 word option" where
  "hash_string_loop s hash m =
     (if m s \<noteq> 0 then hash_string_loop (s + 1) ((hash * FNV_32_PRIME) XOR ucast (m s)) m else Some hash)"

definition hash_string :: "ptr \<Rightarrow> mem \<Rightarrow> 32 word option" where
  "hash_string s m = do { ASSERT (s \<noteq> NULL); hash_string_loop s FNV_32_BASIS m }"

text \<open>The four bytes of the argument, least significant first, are at the address \<open>p\<close> of the parameter.\<close>

definition hash_int :: "ptr \<Rightarrow> 32 word \<Rightarrow> mem \<Rightarrow> 32 word option" where
  "hash_int p i m = hash_bytes p 4
     (m(p := ucast i, p + 1 := ucast (drop_bit 8 i), p + 2 := ucast (drop_bit 16 i), p + 3 := ucast (drop_bit 24 i)))"

subsection \<open>Powers of two\<close>

lemma and_minus_1_even: "0 < m \<Longrightarrow> (2 * m) AND (2 * m - 1) = 2 * (m AND (m - 1 :: nat))"
proof -
  assume "0 < m"
  then have "(2 * m - 1) div 2 = m - 1" "odd (2 * m - 1)" by presburger+
  then show ?thesis by (subst and_rec) simp
qed

lemma and_minus_1_odd: "(2 * m + 1) AND (2 * m) = (2 * m :: nat)"
  by (subst and_rec) simp

lemma is_power_of_2_pow: "is_power_of_2 n \<Longrightarrow> \<exists>k. n = 2 ^ k"
proof (induction n rule: less_induct)
  case (less n)
  have n: "n \<noteq> 0" "n AND (n - 1) = 0" using less.prems by (simp_all add: is_power_of_2_def turn_off_least_1bit_def)
  show ?case
  proof (cases "even n")
    case True
    then obtain m where m: "n = 2 * m" by (elim evenE)
    then have "0 < m" "m AND (m - 1) = 0" using n and_minus_1_even [of m] by auto
    then have "is_power_of_2 m" by (simp add: is_power_of_2_def turn_off_least_1bit_def)
    then obtain k where "m = 2 ^ k" using less.IH [of m] m \<open>0 < m\<close> by auto
    then have "n = 2 ^ Suc k" using m by simp
    then show ?thesis by blast
  next
    case False
    then obtain m where m: "n = 2 * m + 1" by (elim oddE)
    then have "m = 0" using n(2) and_minus_1_odd [of m] by simp
    then show ?thesis using m by (intro exI [of _ 0]) simp
  qed
qed

lemma bit_top: "2 ^ k \<le> n \<Longrightarrow> n < 2 ^ Suc k \<Longrightarrow> bit (n :: nat) k"
proof -
  assume "2 ^ k \<le> n" and "n < 2 ^ Suc k"
  then have "n div 2 ^ k = 1" by (intro div_nat_eqI) simp_all
  then show ?thesis by (simp add: bit_iff_odd)
qed

lemma bit_le: "bit (n :: nat) k \<Longrightarrow> 2 ^ k \<le> n"
  by (metis bit_iff_odd div_less even_zero linorder_not_less)

lemma turn_off_top:
  assumes "2 ^ k < n" and "n < 2 ^ Suc k"
  shows "2 ^ k \<le> turn_off_least_1bit n"
proof -
  have "bit n k" "bit (n - 1) k" using assms by (auto intro: bit_top)
  then have "bit (turn_off_least_1bit n) k" by (simp add: turn_off_least_1bit_def bit_and_iff)
  then show ?thesis by (rule bit_le)
qed

lemma is_power_of_2_iff: "is_power_of_2 (2 ^ k)"
proof -
  have "(2 ^ k - 1 :: nat) = mask k" by (simp add: mask_eq_exp_minus_1)
  moreover have "(2 ^ k) AND (mask k :: nat) = 0" by (rule bit_eqI) (auto simp: bit_and_iff bit_exp_iff bit_mask_iff)
  ultimately have "(2 ^ k) AND (2 ^ k - 1 :: nat) = 0" by (simp only:)
  then show ?thesis by (simp add: is_power_of_2_def turn_off_least_1bit_def)
qed

text \<open>Rounding stops at the largest power of two that is not above the count.\<close>

lemma round_buckets_pow:
  assumes "2 ^ k \<le> n" and "n < 2 ^ Suc k"
  shows "round_buckets n = 2 ^ k"
  using assms
proof (induction n rule: less_induct)
  case (less n)
  show ?case
  proof (cases "is_power_of_2 n")
    case True
    then obtain j where "n = 2 ^ j" using is_power_of_2_pow by blast
    then have "j = k" using less.prems by (metis less_Suc_eq_le antisym nat_power_less_imp_less one_less_numeral_iff
          power_increasing_iff power_strict_increasing_iff semiring_norm(76))
    then show ?thesis using True \<open>n = 2 ^ j\<close> by (subst round_buckets.simps) simp
  next
    case False
    have "n \<noteq> 2 ^ k" using False is_power_of_2_iff by metis
    then have "2 ^ k < n" using less.prems(1) by simp
    then have "2 ^ k \<le> turn_off_least_1bit n" "turn_off_least_1bit n < n"
      using turn_off_top less.prems(2) turn_off_less [of n] by simp_all
    then have "round_buckets (turn_off_least_1bit n) = 2 ^ k" using less.IH less.prems(2) by simp
    then show ?thesis using False \<open>2 ^ k < n\<close> by (subst round_buckets.simps) simp
  qed
qed

lemma log2_exists: "0 < n \<Longrightarrow> \<exists>k. 2 ^ k \<le> n \<and> n < (2 :: nat) ^ Suc k"
  using ex_power_ivl1 [of 2 n] by simp

lemma round_buckets_bounds:
  assumes "0 < n"
  shows "\<exists>k. round_buckets n = 2 ^ k" and "round_buckets n \<le> n" and "n < 2 * round_buckets n"
proof -
  obtain k where "2 ^ k \<le> n" "n < 2 ^ Suc k" using log2_exists [OF assms] by blast
  then show "\<exists>k. round_buckets n = 2 ^ k" "round_buckets n \<le> n" "n < 2 * round_buckets n"
    using round_buckets_pow [of k n] by auto
qed

subsection \<open>The invariant\<close>

text \<open>
  Two elements are equal for the table when neither is less than the other. The laws are what the documentation of the
  table asks of the functions: the comparison is a strict weak order, and equal elements have equal hash values.
\<close>

definition eqv :: "hash \<Rightarrow> ptr \<Rightarrow> ptr \<Rightarrow> bool" where
  "eqv h a b \<longleftrightarrow> \<not> less_fun h a b \<and> \<not> less_fun h b a"

definition hash_laws :: "hash \<Rightarrow> bool" where
  "hash_laws h \<longleftrightarrow> (\<forall>a. \<not> less_fun h a a) \<and> (\<forall>a b c. eqv h a b \<and> eqv h b c \<longrightarrow> eqv h a c)
     \<and> (\<forall>a b. eqv h a b \<longrightarrow> hash_fun h a = hash_fun h b)"

definition elems :: "hash \<Rightarrow> ptr list" where
  "elems h = concat (buckets h)"

definition pow2 :: "nat \<Rightarrow> bool" where
  "pow2 n \<longleftrightarrow> (\<exists>k. n = 2 ^ k)"

definition placed :: "hash \<Rightarrow> bool" where
  "placed h \<longleftrightarrow> bucket_cnt h = length (buckets h) \<and> pow2 (bucket_cnt h)
     \<and> (\<forall>i < bucket_cnt h. \<forall>e \<in> set (buckets h ! i). find_bucket h e = i)"

definition unique_in :: "hash \<Rightarrow> ptr set \<Rightarrow> bool" where
  "unique_in h S \<longleftrightarrow> (\<forall>a \<in> S. \<forall>b \<in> S. eqv h a b \<longrightarrow> a = b)"

definition hash_ok :: "hash \<Rightarrow> bool" where
  "hash_ok h \<longleftrightarrow> placed h \<and> elem_cnt h = length (elems h) \<and> distinct (elems h) \<and> NULL \<notin> set (elems h)
     \<and> unique_in h (set (elems h))"

lemma eqv_sym: "eqv h a b \<longleftrightarrow> eqv h b a"
  by (auto simp: eqv_def)

lemma hash_laws_trans: "hash_laws h \<Longrightarrow> eqv h a b \<Longrightarrow> eqv h b c \<Longrightarrow> eqv h a c"
  unfolding hash_laws_def by (drule conjunct2, drule conjunct1) blast

lemma hash_laws_hash: "hash_laws h \<Longrightarrow> eqv h a b \<Longrightarrow> hash_fun h a = hash_fun h b"
  unfolding hash_laws_def by (drule conjunct2, drule conjunct2) blast

lemma unique_inD: "unique_in h S \<Longrightarrow> a \<in> S \<Longrightarrow> b \<in> S \<Longrightarrow> eqv h a b \<Longrightarrow> a = b"
  by (simp add: unique_in_def)

lemma find_bucket_less: "pow2 (bucket_cnt h) \<Longrightarrow> find_bucket h e < bucket_cnt h"
proof -
  assume "pow2 (bucket_cnt h)"
  then obtain k where k: "bucket_cnt h = 2 ^ k" by (auto simp: pow2_def)
  then have "bucket_cnt h - 1 = mask k" by (simp add: mask_eq_exp_minus_1)
  then have "find_bucket h e = take_bit k (unat (hash_fun h e))"
    unfolding find_bucket_def by (simp only: take_bit_eq_mask)
  then show ?thesis using k by simp
qed

lemma placed_bucket: "placed h \<Longrightarrow> find_bucket h e < length (buckets h)"
  by (metis find_bucket_less placed_def)

lemma in_elems: "e \<in> set (elems h) \<longleftrightarrow> (\<exists>i < length (buckets h). e \<in> set (buckets h ! i))"
  by (auto simp: elems_def set_conv_nth [of "buckets h"])

lemma placed_in_bucket: "placed h \<Longrightarrow> e \<in> set (elems h) \<Longrightarrow> e \<in> set (buckets h ! find_bucket h e)"
  by (auto simp: in_elems placed_def)

lemma find_elem_cases:
  "NULL \<notin> set b \<Longrightarrow> (find_elem h b e = NULL \<and> (\<forall>x \<in> set b. \<not> eqv h x e))
     \<or> (find_elem h b e \<in> set b \<and> eqv h (find_elem h b e) e)"
  by (induction b) (auto simp: eqv_def)

lemma hash_find_cases:
  assumes ok: "hash_ok h" and laws: "hash_laws h"
  obtains "hash_find h e = NULL" "\<forall>x \<in> set (elems h). \<not> eqv h x e"
  | "hash_find h e \<noteq> NULL" "hash_find h e \<in> set (elems h)" "eqv h (hash_find h e) e"
      "\<forall>x \<in> set (elems h). eqv h x e \<longrightarrow> x = hash_find h e"
proof -
  let ?b = "buckets h ! find_bucket h e"
  have p: "placed h" and null: "NULL \<notin> set (elems h)" and uq: "unique_in h (set (elems h))"
    using ok by (simp_all add: hash_ok_def)
  have sub: "set ?b \<subseteq> set (elems h)" using placed_bucket [OF p, of e] by (auto simp: in_elems)
  have fb: "find_bucket h x = find_bucket h e" if "eqv h x e" for x
  proof -
    have "hash_fun h x = hash_fun h e" by (rule hash_laws_hash [OF laws that])
    then show ?thesis by (simp add: find_bucket_def)
  qed
  have inb: "x \<in> set ?b" if "x \<in> set (elems h)" "eqv h x e" for x
    using placed_in_bucket [OF p that(1)] fb [OF that(2)] by simp
  have "NULL \<notin> set ?b" using sub null by blast
  then consider "find_elem h ?b e = NULL" "\<forall>x \<in> set ?b. \<not> eqv h x e"
    | "find_elem h ?b e \<in> set ?b" "eqv h (find_elem h ?b e) e"
    using find_elem_cases [of ?b h e] by blast
  then show thesis
  proof cases
    case 1
    then have "\<forall>x \<in> set (elems h). \<not> eqv h x e" using inb by blast
    with 1(1) show ?thesis using that(1) by (simp add: hash_find_def)
  next
    case 2
    have "x = find_elem h ?b e" if x: "x \<in> set (elems h)" "eqv h x e" for x
    proof -
      have "eqv h e (find_elem h ?b e)" using 2(2) by (simp add: eqv_sym)
      then have "eqv h x (find_elem h ?b e)" by (rule hash_laws_trans [OF laws x(2)])
      then show ?thesis by (rule unique_inD [OF uq x(1) subsetD [OF sub 2(1)]])
    qed
    then have un: "\<forall>x \<in> set (elems h). eqv h x e \<longrightarrow> x = find_elem h ?b e" by blast
    have el: "find_elem h ?b e \<in> set (elems h)" by (rule subsetD [OF sub 2(1)])
    then have "find_elem h ?b e \<noteq> NULL" using null by metis
    then show ?thesis by (rule that(2) [unfolded hash_find_def, OF _ el 2(2) un])
  qed
qed

subsection \<open>The parts of an operation\<close>

lemma mset_concat_push: "i < length bs \<Longrightarrow> mset (concat (bs[i := x # bs ! i])) = add_mset x (mset (concat bs))"
  by (induction bs arbitrary: i) (auto simp: nth_Cons split: nat.splits)

lemma placed_push:
  assumes p: "placed h" and h': "buckets h' = (buckets h)[find_bucket h e := e # buckets h ! find_bucket h e]"
      "bucket_cnt h' = bucket_cnt h" "hash_fun h' = hash_fun h"
  shows "placed h'" and "mset (elems h') = add_mset e (mset (elems h))"
proof -
  have fb: "find_bucket h' = find_bucket h" by (simp add: find_bucket_def h' fun_eq_iff)
  have b: "find_bucket h e < length (buckets h)" by (rule placed_bucket [OF p])
  show "placed h'" using p b unfolding placed_def h' fb
    by (auto simp: nth_list_update split: if_splits)
  show "mset (elems h') = add_mset e (mset (elems h))" unfolding elems_def h' by (rule mset_concat_push [OF b])
qed

lemma fold_concat: "fold (fold f) xss s = fold f (concat xss) s"
  by (induction xss arbitrary: s) simp_all

lemma fold_move:
  "placed h \<Longrightarrow> placed (fold move_elem es h) \<and> mset (elems (fold move_elem es h)) = mset es + mset (elems h)
     \<and> elem_cnt (fold move_elem es h) = elem_cnt h \<and> hash_fun (fold move_elem es h) = hash_fun h
     \<and> less_fun (fold move_elem es h) = less_fun h \<and> bucket_cnt (fold move_elem es h) = bucket_cnt h"
proof (induction es arbitrary: h)
  case (Cons e es)
  have "placed (move_elem e h)" "mset (elems (move_elem e h)) = add_mset e (mset (elems h))"
    using placed_push [OF Cons.prems, of "move_elem e h" e] by (simp_all add: move_elem_def Let_def)
  then show ?case using Cons.IH [of "move_elem e h"] by (simp add: move_elem_def Let_def)
qed simp

lemma rehash_keeps:
  assumes p: "placed h"
  shows "placed (rehash alloc h)" and "mset (elems (rehash alloc h)) = mset (elems h)"
    and "elem_cnt (rehash alloc h) = elem_cnt h" and "hash_fun (rehash alloc h) = hash_fun h"
    and "less_fun (rehash alloc h) = less_fun h"
proof -
  let ?n = "round_buckets (if elem_cnt h div 2 < 4 then 4 else elem_cnt h div 2)"
  let ?h = "h\<lparr>buckets := replicate ?n [], bucket_cnt := ?n\<rparr>"
  have "pow2 ?n" unfolding pow2_def by (rule round_buckets_bounds) simp
  then have pl: "placed ?h" by (simp add: placed_def)
  have e: "elems ?h = []" by (simp add: elems_def)
  note f = fold_move [OF pl, of "elems h"]
  have r: "rehash alloc h = (if ?n = bucket_cnt h \<or> \<not> alloc then h else fold move_elem (elems h) ?h)"
    by (simp add: rehash_def BEST_ELEMS_PER_BUCKET_def Let_def fold_concat elems_def)
  show "placed (rehash alloc h)" "mset (elems (rehash alloc h)) = mset (elems h)"
    "elem_cnt (rehash alloc h) = elem_cnt h" "hash_fun (rehash alloc h) = hash_fun h"
    "less_fun (rehash alloc h) = less_fun h"
    using p f e unfolding r by auto
qed

lemma eqv_cong: "less_fun h' = less_fun h \<Longrightarrow> eqv h' = eqv h"
  by (simp add: eqv_def fun_eq_iff)

lemma hash_laws_cong: "less_fun h' = less_fun h \<Longrightarrow> hash_fun h' = hash_fun h \<Longrightarrow> hash_laws h' = hash_laws h"
  by (simp add: hash_laws_def eqv_def)

lemma hash_ok_rehash: "hash_ok h \<Longrightarrow> hash_ok (rehash alloc h) \<and> set (elems (rehash alloc h)) = set (elems h)"
proof -
  assume ok: "hash_ok h"
  then have p: "placed h" by (simp add: hash_ok_def)
  note k = rehash_keeps [OF p, of alloc]
  have s: "set (elems (rehash alloc h)) = set (elems h)" using k(2) by (metis set_mset_mset)
  have "length (elems (rehash alloc h)) = length (elems h)" using k(2) by (metis size_mset)
  moreover have "distinct (elems (rehash alloc h)) = distinct (elems h)" using k(2) by (rule mset_eq_imp_distinct_iff)
  moreover have "unique_in (rehash alloc h) = unique_in h" by (simp add: unique_in_def eqv_cong [OF k(5)] fun_eq_iff)
  ultimately have "hash_ok (rehash alloc h)" using ok k(1,3) s by (simp add: hash_ok_def)
  then show ?thesis using s ..
qed

lemma elems_remove: "elems (remove_elem e h) = removeAll e (elems h)"
proof -
  have "concat (map (removeAll e) bs) = removeAll e (concat bs)" for bs by (induction bs) simp_all
  then show ?thesis by (simp add: elems_def remove_elem_def)
qed

lemma hash_ok_remove:
  assumes ok: "hash_ok h" and e: "e \<in> set (elems h)"
  shows "hash_ok (remove_elem e h)" and "set (elems (remove_elem e h)) = set (elems h) - {e}"
proof -
  note c = ok [unfolded hash_ok_def]
  have fb: "find_bucket (remove_elem e h) = find_bucket h" by (simp add: find_bucket_def remove_elem_def fun_eq_iff)
  have p: "placed (remove_elem e h)"
    using c unfolding placed_def fb by (auto simp: remove_elem_def)
  show s: "set (elems (remove_elem e h)) = set (elems h) - {e}" by (simp add: elems_remove)
  have u: "unique_in (remove_elem e h) (set (elems h) - {e})"
    using c by (simp add: unique_in_def eqv_def remove_elem_def)
  have l: "length (elems (remove_elem e h)) = length (elems h) - 1"
    using c e by (simp add: elems_remove distinct_remove1_removeAll [symmetric] length_remove1)
  have cnt: "elem_cnt (remove_elem e h) = elem_cnt h - 1" by (simp add: remove_elem_def)
  have dn: "distinct (elems (remove_elem e h))" "NULL \<notin> set (elems (remove_elem e h))"
    using c by (simp_all add: elems_remove distinct_removeAll)
  show "hash_ok (remove_elem e h)" unfolding hash_ok_def using c p u l cnt dn s by (simp only: simp_thms)
qed

lemma hash_ok_insert:
  assumes ok: "hash_ok h" and new: "\<forall>x \<in> set (elems h). \<not> eqv h x e" and e: "e \<noteq> NULL" and laws: "hash_laws h"
  shows "hash_ok (insert_elem (find_bucket h e) e h)"
    and "set (elems (insert_elem (find_bucket h e) e h)) = insert e (set (elems h))"
proof -
  let ?h = "insert_elem (find_bucket h e) e h"
  note c = ok [unfolded hash_ok_def]
  have p: "placed ?h" and m: "mset (elems ?h) = add_mset e (mset (elems h))"
    using placed_push [of h ?h e] c by (simp_all add: insert_elem_def)
  show s: "set (elems ?h) = insert e (set (elems h))" using m by (metis set_mset_add_mset_insert set_mset_mset)
  have l: "length (elems ?h) = length (elems h) + 1" using m by (metis Suc_eq_plus1 size_add_mset size_mset)
  have "eqv h e e" using laws by (simp add: hash_laws_def eqv_def)
  then have "e \<notin> set (elems h)" using new by blast
  then have "distinct (e # elems h)" using c by simp
  then have d: "distinct (elems ?h)" using m by (metis mset.simps(2) mset_eq_imp_distinct_iff)
  have "unique_in h (insert e (set (elems h)))"
    using c new eqv_sym by (metis (no_types, lifting) insert_iff unique_in_def)
  then have u: "unique_in ?h (set (elems ?h))" unfolding s by (simp add: unique_in_def eqv_def insert_elem_def)
  have cnt: "elem_cnt ?h = elem_cnt h + 1" by (simp add: insert_elem_def)
  have n: "NULL \<notin> set (elems ?h)" using c e by (simp add: s)
  show "hash_ok ?h" unfolding hash_ok_def using c p u l cnt d n by (simp only: simp_thms)
qed

subsection \<open>The operations\<close>

lemma hash_insert_ok:
  assumes ok: "hash_ok h" and laws: "hash_laws h" and e: "e \<noteq> NULL"
  shows "fst (hash_insert alloc e h) = hash_find h e" and "hash_ok (snd (hash_insert alloc e h))"
    and "set (elems (snd (hash_insert alloc e h))) =
           (if hash_find h e = NULL then insert e (set (elems h)) else set (elems h))"
proof -
  let ?i = "insert_elem (find_bucket h e) e h"
  have r: "hash_insert alloc e h = (hash_find h e, rehash alloc (if hash_find h e = NULL then ?i else h))"
    by (simp add: hash_insert_def hash_find_def Let_def)
  then show "fst (hash_insert alloc e h) = hash_find h e" by simp
  have "hash_ok (snd (hash_insert alloc e h)) \<and> set (elems (snd (hash_insert alloc e h))) =
       (if hash_find h e = NULL then insert e (set (elems h)) else set (elems h))"
  proof (cases rule: hash_find_cases [OF ok laws, of e])
    case 1
    then show ?thesis
      using hash_ok_insert [OF ok 1(2) e laws] hash_ok_rehash [of ?i alloc] by (simp add: r)
  next
    case 2
    show ?thesis using 2(1) hash_ok_rehash [OF ok, of alloc] by (simp add: r)
  qed
  then show "hash_ok (snd (hash_insert alloc e h))"
    "set (elems (snd (hash_insert alloc e h))) =
       (if hash_find h e = NULL then insert e (set (elems h)) else set (elems h))"
    by blast+
qed

lemma hash_delete_ok:
  assumes ok: "hash_ok h" and laws: "hash_laws h"
  shows "fst (hash_delete alloc e h) = hash_find h e" and "hash_ok (snd (hash_delete alloc e h))"
    and "set (elems (snd (hash_delete alloc e h))) = set (elems h) - {hash_find h e}"
proof -
  let ?f = "hash_find h e"
  have r: "hash_delete alloc e h = (?f, if ?f \<noteq> NULL then rehash alloc (remove_elem ?f h) else h)"
    by (simp add: hash_delete_def hash_find_def Let_def)
  then show "fst (hash_delete alloc e h) = ?f" by simp
  have n: "NULL \<notin> set (elems h)" using ok by (simp add: hash_ok_def)
  have "hash_ok (snd (hash_delete alloc e h)) \<and> set (elems (snd (hash_delete alloc e h))) = set (elems h) - {?f}"
  proof (cases rule: hash_find_cases [OF ok laws, of e])
    case 1
    then show ?thesis using ok n by (simp add: r)
  next
    case 2
    show ?thesis
      using 2(1) hash_ok_rehash [of "remove_elem ?f h" alloc] hash_ok_remove [OF ok 2(2)] by (simp add: r)
  qed
  then show "hash_ok (snd (hash_delete alloc e h))"
    "set (elems (snd (hash_delete alloc e h))) = set (elems h) - {?f}" by blast+
qed

lemma hash_replace_ok:
  assumes ok: "hash_ok h" and laws: "hash_laws h" and e: "e \<noteq> NULL"
  shows "fst (hash_replace alloc e h) = hash_find h e" and "hash_ok (snd (hash_replace alloc e h))"
    and "set (elems (snd (hash_replace alloc e h))) = insert e (set (elems h) - {hash_find h e})"
proof -
  let ?f = "hash_find h e"
  let ?h = "if ?f \<noteq> NULL then remove_elem ?f h else h"
  have fb: "find_bucket ?h = find_bucket h" by (simp add: find_bucket_def remove_elem_def fun_eq_iff)
  have r: "hash_replace alloc e h = (?f, rehash alloc (insert_elem (find_bucket ?h e) e ?h))"
    unfolding fb by (simp add: hash_replace_def hash_find_def Let_def)
  show "fst (hash_replace alloc e h) = ?f" by (simp add: r)
  have n: "NULL \<notin> set (elems h)" using ok by (simp add: hash_ok_def)
  have "hash_ok ?h \<and> set (elems ?h) = set (elems h) - {?f} \<and> (\<forall>x \<in> set (elems h) - {?f}. \<not> eqv h x e)"
  proof (cases rule: hash_find_cases [OF ok laws, of e])
    case 1
    then show ?thesis using ok n by simp
  next
    case 2
    have "\<forall>x \<in> set (elems h) - {?f}. \<not> eqv h x e" using 2(4) by blast
    then show ?thesis using 2(1) hash_ok_remove [OF ok 2(2)] by simp
  qed
  then have h: "hash_ok ?h" "set (elems ?h) = set (elems h) - {?f}" "\<forall>x \<in> set (elems h) - {?f}. \<not> eqv h x e"
    by blast+
  have lf: "less_fun ?h = less_fun h" "hash_fun ?h = hash_fun h" by (simp_all add: remove_elem_def)
  have lw: "hash_laws ?h" using laws hash_laws_cong [OF lf] by (simp only:)
  have nw: "\<forall>x \<in> set (elems ?h). \<not> eqv ?h x e" unfolding h(2) eqv_cong [OF lf(1)] by (rule h(3))
  have i: "hash_ok (insert_elem (find_bucket ?h e) e ?h)"
      "set (elems (insert_elem (find_bucket ?h e) e ?h)) = insert e (set (elems h) - {?f})"
    using hash_ok_insert [OF h(1) nw e lw] h(2) by (simp_all only:)
  then show "hash_ok (snd (hash_replace alloc e h))"
    "set (elems (snd (hash_replace alloc e h))) = insert e (set (elems h) - {?f})"
    using hash_ok_rehash [OF i(1), of alloc] unfolding r by (simp_all only: snd_conv)
qed

lemma hash_ops_functions:
  assumes "hash_ok h"
  shows "less_fun (snd (hash_insert alloc e h)) = less_fun h" "hash_fun (snd (hash_insert alloc e h)) = hash_fun h"
    and "less_fun (snd (hash_delete alloc e h)) = less_fun h" "hash_fun (snd (hash_delete alloc e h)) = hash_fun h"
    and "less_fun (snd (hash_replace alloc e h)) = less_fun h" "hash_fun (snd (hash_replace alloc e h)) = hash_fun h"
proof -
  have f: "less_fun (fold move_elem es h) = less_fun h \<and> hash_fun (fold move_elem es h) = hash_fun h" for es h
    by (induction es arbitrary: h) (simp_all add: move_elem_def Let_def)
  have "less_fun (rehash alloc h) = less_fun h \<and> hash_fun (rehash alloc h) = hash_fun h" for h
    unfolding rehash_def Let_def fold_concat by (simp add: f)
  then show "less_fun (snd (hash_insert alloc e h)) = less_fun h" "hash_fun (snd (hash_insert alloc e h)) = hash_fun h"
    "less_fun (snd (hash_delete alloc e h)) = less_fun h" "hash_fun (snd (hash_delete alloc e h)) = hash_fun h"
    "less_fun (snd (hash_replace alloc e h)) = less_fun h" "hash_fun (snd (hash_replace alloc e h)) = hash_fun h"
    by (simp_all add: hash_insert_def hash_delete_def hash_replace_def Let_def insert_elem_def remove_elem_def)
qed

subsection \<open>The contract for the clients\<close>

text \<open>
  What a client of a hash table relies on: the table is a set of elements, at most one for every class of
  equal ones, with the element found, inserted, replaced or deleted by the class.
\<close>

locale keyed_set =
  fixes invar :: "'h \<Rightarrow> bool"
    and content :: "'h \<Rightarrow> ptr set"
    and same :: "'h \<Rightarrow> ptr \<Rightarrow> ptr \<Rightarrow> bool"
    and find :: "'h \<Rightarrow> ptr \<Rightarrow> ptr"
    and ins :: "ptr \<Rightarrow> 'h \<Rightarrow> ptr \<times> 'h"
    and rep :: "ptr \<Rightarrow> 'h \<Rightarrow> ptr \<times> 'h"
    and del :: "ptr \<Rightarrow> 'h \<Rightarrow> ptr \<times> 'h"
  assumes same_refl: "invar h \<Longrightarrow> same h e e"
    and same_sym: "same h x y \<Longrightarrow> same h y x"
    and same_trans: "invar h \<Longrightarrow> same h x y \<Longrightarrow> same h y z \<Longrightarrow> same h x z"
    and find_NULL: "invar h \<Longrightarrow> find h e = NULL \<Longrightarrow> x \<in> content h \<Longrightarrow> \<not> same h x e"
    and find_in: "invar h \<Longrightarrow> find h e \<noteq> NULL \<Longrightarrow> find h e \<in> content h \<and> same h (find h e) e"
    and no_NULL: "invar h \<Longrightarrow> NULL \<notin> content h"
    and unique: "invar h \<Longrightarrow> x \<in> content h \<Longrightarrow> y \<in> content h \<Longrightarrow> same h x y \<Longrightarrow> x = y"
    and ins_same: "invar h \<Longrightarrow> e \<noteq> NULL \<Longrightarrow> invar (snd (ins e h)) \<and> same (snd (ins e h)) = same h"
    and ins_content: "invar h \<Longrightarrow> e \<noteq> NULL \<Longrightarrow>
          content (snd (ins e h)) = (if find h e = NULL then insert e (content h) else content h)"
    and rep_same: "invar h \<Longrightarrow> e \<noteq> NULL \<Longrightarrow> invar (snd (rep e h)) \<and> same (snd (rep e h)) = same h"
    and rep_content: "invar h \<Longrightarrow> e \<noteq> NULL \<Longrightarrow> content (snd (rep e h)) = insert e (content h - {find h e})"
    and del_same: "invar h \<Longrightarrow> invar (snd (del e h)) \<and> same (snd (del e h)) = same h"
    and del_content: "invar h \<Longrightarrow> content (snd (del e h)) = content h - {find h e}"
begin

lemma find_is: "invar h \<Longrightarrow> x \<in> content h \<Longrightarrow> same h x e \<Longrightarrow> find h e = x"
  by (metis find_NULL find_in same_sym same_trans unique)

lemma find_none: "invar h \<Longrightarrow> (\<And>x. x \<in> content h \<Longrightarrow> \<not> same h x e) \<Longrightarrow> find h e = NULL"
  using find_in by blast

lemma find_other:
  assumes "invar h" and "invar h'" and "same h' = same h"
    and "\<And>x. same h x e \<Longrightarrow> x \<in> content h' \<longleftrightarrow> x \<in> content h"
  shows "find h' e = find h e"
proof (cases "find h e = NULL")
  case True
  then show ?thesis using find_none [OF assms(2)] find_NULL [OF assms(1)] assms(3,4) by metis
next
  case False
  then show ?thesis using find_in [OF assms(1) False] find_is [OF assms(2)] assms(3,4) by metis
qed

lemma find_after_insert:
  assumes "invar h" and "e \<noteq> NULL"
  shows "find (snd (ins e h)) x = (if same h e x \<and> find h e = NULL then e else find h x)"
proof (cases "same h e x \<and> find h e = NULL")
  case True
  then show ?thesis using find_is [of "snd (ins e h)" e x] ins_same [OF assms] ins_content [OF assms] by simp
next
  case False
  have "find (snd (ins e h)) x = find h x"
  proof (rule find_other [OF assms(1)])
    show "y \<in> content (snd (ins e h)) \<longleftrightarrow> y \<in> content h" if "same h y x" for y
      using False that ins_content [OF assms] by auto
  qed (use ins_same [OF assms] in simp_all)
  then show ?thesis using False by auto
qed

lemma find_after_replace:
  assumes "invar h" and "e \<noteq> NULL"
  shows "find (snd (rep e h)) x = (if same h e x then e else find h x)"
proof (cases "same h e x")
  case True
  then show ?thesis using find_is [of "snd (rep e h)" e x] rep_same [OF assms] rep_content [OF assms] by simp
next
  case False
  have "find (snd (rep e h)) x = find h x"
  proof (rule find_other [OF assms(1)])
    show "y \<in> content (snd (rep e h)) \<longleftrightarrow> y \<in> content h" if "same h y x" for y
    proof -
      have "y \<noteq> e" using False that by blast
      moreover have "y \<noteq> find h e" if "y \<in> content h"
        using find_in [OF assms(1), of e] no_NULL [OF assms(1)] that \<open>same h y x\<close> False same_sym same_trans [OF assms(1)]
        by metis
      ultimately show ?thesis using rep_content [OF assms] by auto
    qed
  qed (use rep_same [OF assms] in simp_all)
  then show ?thesis using False by simp
qed

lemma find_after_delete:
  assumes "invar h"
  shows "find (snd (del e h)) x = (if same h e x then NULL else find h x)"
proof (cases "same h e x")
  case True
  have "find (snd (del e h)) x = NULL"
  proof (rule find_none)
    show "\<not> same (snd (del e h)) y x" if "y \<in> content (snd (del e h))" for y
      using that del_content [OF assms] del_same [OF assms] find_is [OF assms, of y e] True same_sym same_trans [OF assms]
      by (metis Diff_iff insertI1)
  qed (use del_same [OF assms] in simp)
  then show ?thesis using True by simp
next
  case False
  have "find (snd (del e h)) x = find h x"
  proof (rule find_other [OF assms])
    show "y \<in> content (snd (del e h)) \<longleftrightarrow> y \<in> content h" if "same h y x" for y
    proof -
      have "y \<noteq> find h e" if "y \<in> content h"
        using find_in [OF assms, of e] no_NULL [OF assms] that \<open>same h y x\<close> False same_sym same_trans [OF assms]
        by metis
      then show ?thesis using del_content [OF assms] by auto
    qed
  qed (use del_same [OF assms] in simp_all)
  then show ?thesis using False by simp
qed

end

lemma hash_find_spec:
  assumes "hash_ok h" and "hash_laws h"
  shows "hash_find h e = NULL \<and> (\<forall>x \<in> set (elems h). \<not> eqv h x e)
    \<or> hash_find h e \<noteq> NULL \<and> hash_find h e \<in> set (elems h) \<and> eqv h (hash_find h e) e"
  by (rule hash_find_cases [OF assms, of e]) blast+

interpretation htab: keyed_set "\<lambda>h. hash_ok h \<and> hash_laws h" "\<lambda>h. set (elems h)" eqv hash_find
    "hash_insert alloc" "hash_replace alloc" "hash_delete alloc" for alloc
proof unfold_locales
  fix h e assume h: "hash_ok h \<and> hash_laws h"
  show "eqv h e e" using h by (auto simp: hash_laws_def eqv_def)
  show "NULL \<notin> set (elems h)" using h by (simp add: hash_ok_def)
  show "eqv h x z" if "eqv h x y" "eqv h y z" for x y z using hash_laws_trans h that by blast
  show "x = y" if "x \<in> set (elems h)" "y \<in> set (elems h)" "eqv h x y" for x y
    using h that unique_inD by (metis hash_ok_def)
  show "\<not> eqv h x e" if "hash_find h e = NULL" "x \<in> set (elems h)" for x
    using hash_find_spec [of h e] h that by blast
  show "hash_find h e \<in> set (elems h) \<and> eqv h (hash_find h e) e" if "hash_find h e \<noteq> NULL"
    using hash_find_spec [of h e] h that by blast
  show "(hash_ok (snd (hash_delete alloc e h)) \<and> hash_laws (snd (hash_delete alloc e h)))
      \<and> eqv (snd (hash_delete alloc e h)) = eqv h"
    using h hash_delete_ok [of h alloc e] hash_ops_functions [of h alloc e] hash_laws_cong eqv_cong by metis
  show "set (elems (snd (hash_delete alloc e h))) = set (elems h) - {hash_find h e}"
    using h hash_delete_ok by blast
  assume e: "e \<noteq> NULL"
  show "(hash_ok (snd (hash_insert alloc e h)) \<and> hash_laws (snd (hash_insert alloc e h)))
      \<and> eqv (snd (hash_insert alloc e h)) = eqv h"
    using h e hash_insert_ok [of h e alloc] hash_ops_functions [of h alloc e] hash_laws_cong eqv_cong by metis
  show "set (elems (snd (hash_insert alloc e h))) = (if hash_find h e = NULL then insert e (set (elems h)) else set (elems h))"
    using h e hash_insert_ok by blast
  show "(hash_ok (snd (hash_replace alloc e h)) \<and> hash_laws (snd (hash_replace alloc e h)))
      \<and> eqv (snd (hash_replace alloc e h)) = eqv h"
    using h e hash_replace_ok [of h e alloc] hash_ops_functions [of h alloc e] hash_laws_cong eqv_cong by metis
  show "set (elems (snd (hash_replace alloc e h))) = insert e (set (elems h) - {hash_find h e})"
    using h e hash_replace_ok by blast
qed (simp add: eqv_sym)

subsection \<open>Iteration\<close>

text \<open>The elements that an iterator has not returned yet.\<close>

definition pending :: "hash \<Rightarrow> hash_iterator \<Rightarrow> ptr list" where
  "pending h i = drop (it_pos i) (buckets h ! it_bucket i) @ concat (drop (Suc (it_bucket i)) (buckets h))"

definition it_ok :: "hash \<Rightarrow> hash_iterator \<Rightarrow> bool" where
  "it_ok h i \<longleftrightarrow> \<not> it_end i \<and> it_bucket i < bucket_cnt h \<and> it_pos i \<le> length (buckets h ! it_bucket i)"

lemma hash_next_loop_pending:
  assumes "bucket_cnt h = length (buckets h)" and "it_ok h j" and "i = j\<lparr>it_pos := Suc (it_pos j)\<rparr>"
  shows "(pending h j = [] \<and> it_end (hash_next_loop h i))
    \<or> (pending h j \<noteq> [] \<and> it_ok h (hash_next_loop h i) \<and> hash_cur h (hash_next_loop h i) = hd (pending h j)
       \<and> pending h (hash_next_loop h i) = tl (pending h j))"
  using assms
proof (induction h i arbitrary: j rule: hash_next_loop.induct)
  case (1 h i)
  let ?b = "buckets h ! it_bucket j"
  show ?case
  proof (cases "it_pos j = length ?b")
    case True
    show ?thesis
    proof (cases "Suc (it_bucket j) < bucket_cnt h")
      case more: True
      let ?j = "j\<lparr>it_bucket := Suc (it_bucket j), it_pos := 0\<rparr>"
      have d: "drop (Suc (it_bucket j)) (buckets h) = buckets h ! Suc (it_bucket j) # drop (Suc (Suc (it_bucket j))) (buckets h)"
        using more 1(2) by (simp add: Cons_nth_drop_Suc)
      have "pending h ?j = pending h j" using True d by (simp add: pending_def)
      moreover have "it_ok h ?j" using 1(3) more by (simp add: it_ok_def)
      moreover have "hash_next_loop h i = hash_next_loop h (?j\<lparr>it_pos := Suc (it_pos ?j)\<rparr>)"
        using True more 1(4) by (subst hash_next_loop.simps) (simp add: Let_def)
      ultimately show ?thesis
        using 1(1) [of "i\<lparr>it_bucket := it_bucket i + 1\<rparr>" ?j] 1(2,4) True more by simp
    next
      case False
      then have "pending h j = []" using True 1(2) by (simp add: pending_def)
      moreover have "it_end (hash_next_loop h i)" using True False 1(4) by (subst hash_next_loop.simps) (simp add: Let_def)
      ultimately show ?thesis by blast
    qed
  next
    case False
    then have p: "it_pos j < length ?b" using 1(3) by (simp add: it_ok_def)
    have "hash_next_loop h i = i" using False 1(4) by (subst hash_next_loop.simps) simp
    moreover have "drop (it_pos j) ?b = ?b ! it_pos j # drop (Suc (it_pos j)) ?b" using p by (simp add: Cons_nth_drop_Suc)
    ultimately show ?thesis using p 1(3,4) by (simp add: pending_def it_ok_def hash_cur_def)
  qed
qed

text \<open>The first \<open>n\<close> results of \<^verbatim>\<open>hash_next\<close>.\<close>

primrec hash_nexts :: "nat \<Rightarrow> hash \<Rightarrow> hash_iterator \<Rightarrow> ptr list" where
  "hash_nexts 0 h i = []"
| "hash_nexts (Suc n) h i = (let (e, i) = hash_next h i in e # hash_nexts n h i)"

lemma hash_nexts_pending:
  assumes "bucket_cnt h = length (buckets h)"
  shows "it_ok h i \<Longrightarrow> hash_nexts (Suc (length (pending h i))) h i = pending h i @ [NULL]"
proof (induction "pending h i" arbitrary: i)
  case Nil
  then show ?case
    using hash_next_loop_pending [OF assms Nil(2) refl] by (simp add: hash_next_def Let_def hash_cur_def)
next
  case (Cons e es)
  let ?i = "hash_next_loop h (i\<lparr>it_pos := Suc (it_pos i)\<rparr>)"
  have n: "it_ok h ?i" "hash_cur h ?i = e" "pending h ?i = es"
    using hash_next_loop_pending [OF assms Cons.prems refl] Cons.hyps(2) [symmetric] by simp_all
  have "hash_nexts (Suc (length es)) h ?i = es @ [NULL]" using Cons.hyps(1) [of ?i] n by simp
  then show ?case using n(2) Cons.hyps(2) [symmetric] by (simp add: hash_next_def Let_def del: hash_nexts.simps(2))
      (simp add: hash_next_def Let_def)
qed

lemma pending_first: "bucket_cnt h = length (buckets h) \<Longrightarrow> 0 < bucket_cnt h \<Longrightarrow> pending h hash_first = elems h"
  by (cases "buckets h") (simp_all add: pending_def hash_first_def elems_def)

subsection \<open>Load factor and hash values\<close>

lemma rehash_load:
  shows "4 \<le> bucket_cnt (rehash True h)" and "elem_cnt (rehash True h) < MAX_ELEMS_PER_BUCKET * bucket_cnt (rehash True h)"
proof -
  define b where b: "b = (if elem_cnt h div 2 < 4 then 4 else elem_cnt h div 2)"
  have f: "bucket_cnt (fold move_elem es h) = bucket_cnt h \<and> elem_cnt (fold move_elem es h) = elem_cnt h" for es h
    by (induction es arbitrary: h) (simp_all add: move_elem_def Let_def)
  have r: "bucket_cnt (rehash True h) = round_buckets b" "elem_cnt (rehash True h) = elem_cnt h"
    by (simp_all add: rehash_def BEST_ELEMS_PER_BUCKET_def Let_def fold_concat f b)
  have b4: "4 \<le> b" "elem_cnt h < 2 * b + 2" unfolding b by auto
  then obtain k where k: "round_buckets b = 2 ^ k" using round_buckets_bounds(1) [of b] by auto
  have lt: "b < 2 * round_buckets b" using b4(1) by (intro round_buckets_bounds) simp
  have "2 \<le> k"
  proof (rule ccontr)
    assume "\<not> 2 \<le> k"
    then have "k = 0 \<or> k = 1" by auto
    then show False using k lt b4 by auto
  qed
  then have "(2 :: nat) ^ 2 \<le> round_buckets b" unfolding k by (rule power_increasing) simp
  then show "4 \<le> bucket_cnt (rehash True h)"
    "elem_cnt (rehash True h) < MAX_ELEMS_PER_BUCKET * bucket_cnt (rehash True h)"
    using b4 lt by (simp_all add: r MAX_ELEMS_PER_BUCKET_def)
qed

lemma hash_string_loop_at:
  "str_at m p s \<Longrightarrow> hash_string_loop p v m = Some (hash_bytes_loop (length s) p v m)"
  by (induction s arbitrary: p v) (simp_all add: hash_string_loop.simps)

lemma hash_init_ok:
  assumes "hash_init alloc hf lf = Some h"
  shows "hash_ok h" and "elems h = []" and "hash_fun h = hf" and "less_fun h = lf" and "alloc"
proof -
  have h: "h = \<lparr>elem_cnt = 0, bucket_cnt = 4, buckets = replicate 4 [], hash_fun = hf, less_fun = lf\<rparr>" "alloc"
    using assms by (auto simp: hash_init_def hash_clear_def split: if_splits)
  have "pow2 4" unfolding pow2_def by (rule exI [of _ 2]) simp
  then show "hash_ok h" "elems h = []" "hash_fun h = hf" "less_fun h = lf" "alloc"
    using h by (auto simp: hash_ok_def placed_def elems_def unique_in_def)
qed

lemma hash_string_bytes:
  "str_at m p s \<Longrightarrow> p \<noteq> NULL \<Longrightarrow> hash_string p m = hash_bytes p (length s) m"
  by (simp add: hash_string_loop_at hash_string_def hash_bytes_def)

subsection \<open>Properties\<close>

text \<open>A table to evaluate the properties on: elements are their own keys, ordered by address.\<close>

definition demo_hash :: hash where
  "demo_hash = \<lparr>elem_cnt = 0, bucket_cnt = 4, buckets = replicate 4 [], hash_fun = ucast, less_fun = (<)\<rparr>"

lemma demo_hash_ok: "hash_ok demo_hash" "hash_laws demo_hash" "elems demo_hash = []"
proof -
  have i: "hash_init True ucast (<) = Some demo_hash" by (simp add: hash_init_def hash_clear_def demo_hash_def)
  show "hash_ok demo_hash" "elems demo_hash = []" by (rule hash_init_ok [OF i])+
  show "hash_laws demo_hash" by (auto simp: hash_laws_def eqv_def demo_hash_def)
qed

text \<open>C18: A hash table implements a set with at most one element of every class of equal elements. For every element
  \<open>e\<close>, \<open>hash_find\<close> returns the element equal to \<open>e\<close> or a null pointer; \<open>hash_insert\<close> adds \<open>e\<close> unless
  there is an equal element, \<open>hash_replace\<close> puts \<open>e\<close> in the place of the equal element, \<open>hash_delete\<close> removes
  it, all three return what was there, and none, whether or not there is memory for another bucket array, loses or
  duplicates an element or breaks the invariant.\<close>

theorem hash_refines_set:
  assumes "hash_ok h" and "hash_laws h" and "e \<noteq> NULL"
  shows "(hash_find h e = NULL \<and> (\<forall>x \<in> set (elems h). \<not> eqv h x e)
        \<or> hash_find h e \<in> set (elems h) \<and> eqv h (hash_find h e) e)
    \<and> (case hash_insert alloc e h of (old, h') \<Rightarrow> old = hash_find h e \<and> hash_ok h'
         \<and> set (elems h') = (if old = NULL then insert e (set (elems h)) else set (elems h)))
    \<and> (case hash_replace alloc e h of (old, h') \<Rightarrow> old = hash_find h e \<and> hash_ok h'
         \<and> set (elems h') = insert e (set (elems h) - {old}))
    \<and> (case hash_delete alloc e h of (old, h') \<Rightarrow> old = hash_find h e \<and> hash_ok h' \<and> set (elems h') = set (elems h) - {old})"
  using hash_find_spec [OF assms(1,2), of e] hash_insert_ok [OF assms, of alloc] hash_replace_ok [OF assms, of alloc]
    hash_delete_ok [OF assms(1,2), of alloc e]
  by (simp add: case_prod_beta) blast

theorem hash_refines_set_witness:
  "hash_find demo_hash 8 = NULL \<and> set (elems (snd (hash_insert True 8 demo_hash))) = {8}"
  using hash_refines_set [OF demo_hash_ok(1,2), of 8 True] demo_hash_ok(3) by (auto simp: case_prod_beta)

text \<open>C19: Round trips. Behind an insertion that found no equal element, a replacement or a deletion, a search for any
  element finds the new one when it is equal to it (nothing, behind a deletion), and what it
  found before otherwise.\<close>

theorem hash_find_after_update:
  assumes "hash_ok h" and "hash_laws h" and "e \<noteq> NULL"
  shows "hash_find (snd (hash_insert alloc e h)) x = (if eqv h e x \<and> hash_find h e = NULL then e else hash_find h x)
    \<and> hash_find (snd (hash_replace alloc e h)) x = (if eqv h e x then e else hash_find h x)
    \<and> hash_find (snd (hash_delete alloc e h)) x = (if eqv h e x then NULL else hash_find h x)"
  using htab.find_after_insert [of h e alloc x] htab.find_after_replace [of h e alloc x]
    htab.find_after_delete [of h alloc e x] assms by blast

theorem hash_find_after_update_witness:
  "hash_find (snd (hash_insert True 8 demo_hash)) 8 = 8 \<and> hash_find (snd (hash_delete True 8 demo_hash)) 8 = NULL"
proof -
  have "eqv demo_hash 8 8" by (simp add: eqv_def demo_hash_def)
  moreover have "hash_find demo_hash 8 = NULL" by (simp add: hash_find_def demo_hash_def find_bucket_def)
  ultimately show ?thesis using hash_find_after_update [OF demo_hash_ok(1,2), of 8 True 8] by auto
qed

text \<open>C21: An iteration over a table returns every element exactly once, bucket by bucket, and then a null pointer.\<close>

theorem hash_iteration_complete:
  assumes "hash_ok h"
  shows "hash_nexts (Suc (hash_size h)) h hash_first = elems h @ [NULL] \<and> distinct (elems h)"
proof -
  have ok: "bucket_cnt h = length (buckets h)" "0 < bucket_cnt h" "elem_cnt h = length (elems h)" "distinct (elems h)"
    using assms by (auto simp: hash_ok_def placed_def pow2_def)
  have "it_ok h hash_first" using ok by (simp add: it_ok_def hash_first_def)
  from hash_nexts_pending [OF ok(1) this] show ?thesis
    using ok pending_first [OF ok(1,2)] by (simp add: hash_size_def)
qed

theorem hash_iteration_complete_witness:
  "hash_nexts 1 demo_hash hash_first = [NULL]"
  using hash_iteration_complete [OF demo_hash_ok(1)] demo_hash_ok(3) by (simp add: demo_hash_def hash_size_def)

text \<open>C20: Whenever memory for the bucket array is available, an insertion, a replacement and a deletion that finds its element leave
  at least four buckets, their number a power of two, and fewer elements than the maximum load of four
  per bucket.\<close>

theorem hash_load_bounded:
  assumes "hash_ok h" and "hash_laws h" and "e \<noteq> NULL"
    and "h' = snd (hash_insert True e h) \<or> h' = snd (hash_replace True e h)
         \<or> hash_find h e \<noteq> NULL \<and> h' = snd (hash_delete True e h)"
  shows "4 \<le> bucket_cnt h' \<and> pow2 (bucket_cnt h') \<and> elem_cnt h' < MAX_ELEMS_PER_BUCKET * bucket_cnt h'"
proof -
  obtain g where g: "h' = rehash True g"
    using assms(4) by (auto simp: hash_insert_def hash_replace_def hash_delete_def Let_def hash_find_def)
  have "hash_ok h'" using assms(4) hash_insert_ok(2) [OF assms(1-3)] hash_replace_ok(2) [OF assms(1-3)]
      hash_delete_ok(2) [OF assms(1,2)] by auto
  then have "pow2 (bucket_cnt h')" unfolding hash_ok_def placed_def by blast
  then show ?thesis using rehash_load [of g] g by simp
qed

theorem hash_load_bounded_witness:
  "4 \<le> bucket_cnt (snd (hash_insert True 8 demo_hash))"
  using hash_load_bounded [OF demo_hash_ok(1,2), of 8 "snd (hash_insert True 8 demo_hash)"] by simp

end
