(* ===== verification/Division64.thy ===== *)
theory Division64
  imports Prelude "HOL-Library.Signed_Division"
begin

section \<open>64-bit division (\<^verbatim>\<open>lib/arithmetic.c\<close>)\<close>

text \<open>
  The division routines that the compiler calls, down to the \<^verbatim>\<open>divl\<close> instruction, which
  divides 64 bits by 32 bits and traps when the quotient does not fit: then the result is
  \<^term>\<open>None\<close>.
\<close>

definition divl :: "64 word \<Rightarrow> 32 word \<Rightarrow> 32 word option" where
  "divl n d = (if d = 0 \<or> unat n div unat d \<ge> 2 ^ 32 then None else Some (of_nat (unat n div unat d)))"

definition nlz :: "32 word \<Rightarrow> nat" where
  "nlz x =
     (let n = 0;
          (n, x) = (if x \<le> 0x0000FFFF then (n + 16, push_bit 16 x) else (n, x));
          (n, x) = (if x \<le> 0x00FFFFFF then (n + 8, push_bit 8 x) else (n, x));
          (n, x) = (if x \<le> 0x0FFFFFFF then (n + 4, push_bit 4 x) else (n, x));
          (n, x) = (if x \<le> 0x3FFFFFFF then (n + 2, push_bit 2 x) else (n, x))
      in if x \<le> 0x7FFFFFFF then n + 1 else n)"

definition udiv64 :: "64 word \<Rightarrow> 64 word \<Rightarrow> 64 word option" where
  "udiv64 n d =
     (if drop_bit 32 d = 0 then do {
        let b = 2 ^ 32;
        let n1 = (ucast (drop_bit 32 n) :: 32 word);
        let n0 = (ucast n :: 32 word);
        let d0 = (ucast d :: 32 word);
        ASSERT (d0 \<noteq> 0);
        q \<leftarrow> divl (b * ucast (n1 mod d0) + ucast n0) d0;
        Some (ucast q + b * ucast (n1 div d0))
      } else if n < d then Some 0
      else do {
        let d1 = (ucast (drop_bit 32 d) :: 32 word);
        let s = nlz d1;
        q0 \<leftarrow> divl (drop_bit 1 n) (ucast (drop_bit 32 (push_bit s d)));
        let q = (ucast (drop_bit (31 - s) q0) :: 64 word);
        Some (if n - (q - 1) * d < d then q - 1 else q)
      })"

definition umod64 :: "64 word \<Rightarrow> 64 word \<Rightarrow> 32 word option" where
  "umod64 n d = do { q \<leftarrow> udiv64 n d; Some (ucast (n - d * q)) }"

definition sdiv64 :: "64 word \<Rightarrow> 64 word \<Rightarrow> 64 word option" where
  "sdiv64 n d = do {
     let n_abs = (if 0 \<le> sint n then n else - n);
     let d_abs = (if 0 \<le> sint d then d else - d);
     q_abs \<leftarrow> udiv64 n_abs d_abs;
     Some (if (sint n < 0) = (sint d < 0) then q_abs else - q_abs)
   }"

definition smod64 :: "64 word \<Rightarrow> 64 word \<Rightarrow> 32 word option" where
  "smod64 n d = do { q \<leftarrow> sdiv64 n d; Some (ucast (n - d * q)) }"

definition divdi3 :: "64 word \<Rightarrow> 64 word \<Rightarrow> 64 word option" where
  "divdi3 n d = sdiv64 n d"

definition moddi3 :: "64 word \<Rightarrow> 64 word \<Rightarrow> 64 word option" where
  "moddi3 n d = do { r \<leftarrow> smod64 n d; Some (scast r) }"

definition udivdi3 :: "64 word \<Rightarrow> 64 word \<Rightarrow> 64 word option" where
  "udivdi3 n d = udiv64 n d"

definition umoddi3 :: "64 word \<Rightarrow> 64 word \<Rightarrow> 64 word option" where
  "umoddi3 n d = do { r \<leftarrow> umod64 n d; Some (ucast r) }"

subsection \<open>The arithmetic\<close>

text \<open>Leading zeros: shifting by that many places brings the highest bit to the top.\<close>

lemma unat32_less: "unat (x :: 32 word) < 2 ^ 32"
  by (rule order_less_le_trans [OF unsigned_less]) simp

lemma unat64_less: "unat (x :: 64 word) < 2 ^ 64"
  by (rule order_less_le_trans [OF unsigned_less]) simp

lemma unat_push_bit32:
  assumes "unat (x :: 32 word) * 2 ^ k < 2 ^ 32"
  shows "unat (push_bit k x) = unat x * 2 ^ k"
proof (cases "k < 32")
  case True
  then have "(2 :: nat) ^ k < 2 ^ 32"
    by (intro power_strict_increasing) simp_all
  then have "unat ((2 :: 32 word) ^ k) = 2 ^ k"
    using unat_of_nat [of "2 ^ k", where ?'a = 32] by simp
  then show ?thesis
    using assms by (simp add: push_bit_eq_mult unat_word_ariths(2))
next
  case False
  then have "(2 :: nat) ^ 32 \<le> 2 ^ k"
    by (intro power_increasing) simp_all
  then have "unat x = 0"
    using assms by (cases "unat x") (simp_all del: unat_eq_zero)
  then show ?thesis
    by (simp add: unat_eq_zero)
qed

lemma nlz_step:
  fixes x :: "32 word"
  assumes step: "(m, y) = (if x \<le> b then (n + k, push_bit k x) else (n, x))"
    and x: "2 ^ a \<le> unat x" "unat z * 2 ^ n = unat x"
    and b: "Suc (unat b) = 2 ^ (32 - k)" and k: "k \<le> 32" "c \<le> a + k" "c \<le> 32 - k"
  shows "2 ^ c \<le> unat y \<and> unat z * 2 ^ m = unat y"
proof (cases "x \<le> b")
  case True
  then have "unat x < Suc (unat b)"
    by (simp add: word_le_nat_alt)
  then have "unat x * 2 ^ k < 2 ^ (32 - k) * 2 ^ k"
    unfolding b by simp
  also have "\<dots> = 2 ^ 32"
    using k(1) by (simp flip: power_add)
  finally have "unat y = unat x * 2 ^ k"
    using True step by (simp add: unat_push_bit32)
  moreover have "2 ^ c \<le> (2 :: nat) ^ (a + k)"
    using k(2) by (simp add: power_increasing)
  moreover have "2 ^ (a + k) \<le> unat x * 2 ^ k"
    using x(1) by (simp add: power_add)
  ultimately show ?thesis
    using True step x(2) by (auto simp: power_add intro: order_trans)
next
  case False
  then have "2 ^ (32 - k) \<le> unat x"
    by (simp add: word_le_nat_alt flip: b)
  moreover have "2 ^ c \<le> (2 :: nat) ^ (32 - k)"
    using k(3) by (intro power_increasing) simp_all
  ultimately have "2 ^ c \<le> unat x"
    by (rule order_trans [rotated])
  then show ?thesis
    using False step x(2) by simp
qed

lemma nlz_shifts:
  assumes "x \<noteq> 0"
  shows "2 ^ 31 \<le> unat x * 2 ^ nlz x \<and> unat x * 2 ^ nlz x < 2 ^ 32"
proof -
  obtain n1 x1 where s1: "(n1, x1) = (if x \<le> 0x0000FFFF then (0 + 16 :: nat, push_bit 16 x) else (0, x))"
    by (metis surj_pair)
  obtain n2 x2 where s2: "(n2, x2) = (if x1 \<le> 0x00FFFFFF then (n1 + 8, push_bit 8 x1) else (n1, x1))"
    by (metis surj_pair)
  obtain n3 x3 where s3: "(n3, x3) = (if x2 \<le> 0x0FFFFFFF then (n2 + 4, push_bit 4 x2) else (n2, x2))"
    by (metis surj_pair)
  obtain n4 x4 where s4: "(n4, x4) = (if x3 \<le> 0x3FFFFFFF then (n3 + 2, push_bit 2 x3) else (n3, x3))"
    by (metis surj_pair)
  obtain n5 x5 where s5: "(n5, x5) = (if x4 \<le> 0x7FFFFFFF then (n4 + 1, push_bit 1 x4) else (n4, x4))"
    by (metis surj_pair)
  have "2 ^ 0 \<le> unat x" "unat x * 2 ^ 0 = unat x"
    using assms by (simp_all add: Suc_le_eq unat_gt_0)
  from nlz_step [OF s1 this, of 16] have h1: "2 ^ 16 \<le> unat x1 \<and> unat x * 2 ^ n1 = unat x1"
    by simp
  from nlz_step [OF s2 conjunct1 [OF h1] conjunct2 [OF h1], of 24]
  have h2: "2 ^ 24 \<le> unat x2 \<and> unat x * 2 ^ n2 = unat x2"
    by simp
  from nlz_step [OF s3 conjunct1 [OF h2] conjunct2 [OF h2], of 28]
  have h3: "2 ^ 28 \<le> unat x3 \<and> unat x * 2 ^ n3 = unat x3"
    by simp
  from nlz_step [OF s4 conjunct1 [OF h3] conjunct2 [OF h3], of 30]
  have h4: "2 ^ 30 \<le> unat x4 \<and> unat x * 2 ^ n4 = unat x4"
    by simp
  from nlz_step [OF s5 conjunct1 [OF h4] conjunct2 [OF h4], of 31]
  have h5: "2 ^ 31 \<le> unat x5 \<and> unat x * 2 ^ n5 = unat x5"
    by simp
  have "nlz x = n5"
    unfolding nlz_def Let_def using s1 s2 s3 s4 s5
    by (auto simp flip: s1 s2 s3 s4 split: if_splits)
  then show ?thesis
    using h5 unat32_less [of x5] by simp
qed

lemma unat_power64: "k < 64 \<Longrightarrow> unat ((2 :: 64 word) ^ k) = 2 ^ k"
  using unat_of_nat [of "2 ^ k", where ?'a = 64] power_strict_increasing [of k 64 "2 :: nat"] by simp

text \<open>The estimate of the quotient from the upper half of the shifted divisor is off by at most one.\<close>

lemma quotient_estimate:
  fixes n d v k :: nat
  assumes n: "n < 2 ^ 64" and v: "2 ^ 31 \<le> v" and d: "v * 2 ^ (k + 1) \<le> d" "d < (v + 1) * 2 ^ (k + 1)"
  shows "n div d \<le> n div (v * 2 ^ (k + 1)) \<and> n div (v * 2 ^ (k + 1)) \<le> n div d + 1"
proof
  let ?D = "v * 2 ^ (k + 1)" and ?Q = "n div d"
  have D: "0 < ?D" "2 ^ (k + 32) \<le> ?D"
    using v mult_le_mono1 [OF v, of "2 ^ (k + 1)"] by (simp_all add: power_add)
  show "?Q \<le> n div ?D"
    using d(1) D by (intro div_le_mono2)
  show "n div ?D \<le> ?Q + 1"
  proof (rule ccontr)
    define q where "q = n div ?D"
    assume "\<not> n div ?D \<le> ?Q + 1"
    then have q: "?Q + 2 \<le> q"
      by (simp add: q_def)
    have d_le: "d \<le> ?D + (2 ^ (k + 1) - 1)"
      using d(2) by (simp add: algebra_simps)
    have "q * ?D \<le> n"
      by (simp add: q_def)
    also have "n < (?Q + 1) * d"
      using D d(1) by (metis Suc_eq_plus1 div_less_iff_less_mult less_le_trans lessI)
    also have "\<dots> \<le> (q - 1) * d"
      using q by (intro mult_le_mono1) simp
    also have "\<dots> \<le> (q - 1) * (?D + (2 ^ (k + 1) - 1))"
      using d_le by (rule mult_le_mono2)
    finally have "q * ?D < (q - 1) * ?D + (q - 1) * (2 ^ (k + 1) - 1)"
      by (simp only: distrib_left)
    moreover have "q * ?D = (q - 1) * ?D + ?D"
      using q by (cases q) simp_all
    ultimately have 1: "?D < (q - 1) * (2 ^ (k + 1) - 1)"
      by linarith
    have "q * 2 ^ (k + 32) \<le> q * ?D"
      using D(2) by (rule mult_le_mono2)
    with \<open>q * ?D \<le> n\<close> n have 2: "q * 2 ^ (k + 32) < 2 ^ 64"
      by linarith
    have k: "k < 32"
    proof (rule ccontr)
      assume "\<not> k < 32"
      then have "(2 :: nat) ^ 64 \<le> 2 ^ (k + 32)"
        by (intro power_increasing) simp_all
      then have "(2 :: nat) ^ 64 \<le> q * 2 ^ (k + 32)"
        using q by (cases q) (simp_all only:, simp_all)
      with 2 show False
        by linarith
    qed
    have "2 ^ (32 - k) * 2 ^ (k + 32) = (2 :: nat) ^ 64"
      using k by (simp flip: power_add)
    with 2 have q2: "q < 2 ^ (32 - k)"
      by (metis mult_less_cancel2)
    show False
    proof (cases k)
      case 0
      with 1 q2 D(2) show False
        by simp
    next
      case (Suc k')
      have "(q - 1) * (2 ^ (k + 1) - 1) \<le> 2 ^ (32 - k) * 2 ^ (k + 1)"
        using q2 by (intro mult_le_mono) simp_all
      also have "\<dots> = 2 ^ 33"
        using k by (simp flip: power_add)
      also have "\<dots> \<le> 2 ^ (k + 32)"
        using Suc by (intro power_increasing) simp_all
      finally show False
        using 1 D(2) by linarith
    qed
  qed
qed

subsection \<open>Unsigned division\<close>

lemmas unat_parts = unat_drop_bit_eq drop_bit_eq_div [where ?'a = nat] unsigned_ucast_eq take_bit_eq_mod unat_div_distrib unat_mod_distrib

lemma udiv64_narrow:
  assumes d: "d \<noteq> 0" "unat d < 2 ^ 32"
  shows "\<exists>q. udiv64 n d = Some q \<and> unat q = unat n div unat d"
proof -
  define N D where "N = unat n" and "D = unat d"
  have ND: "N < 2 ^ 64" "0 < D" "D < 2 ^ 32"
    using d unat64_less [of n] by (simp_all add: N_def D_def unat_gt_0)
  define a where "a = 2 ^ 32 * (N div 2 ^ 32 mod D) + N mod 2 ^ 32"
  have "a < 2 ^ 32 * D"
  proof -
    have "N div 2 ^ 32 mod D \<le> D - 1"
      using mod_less_divisor [OF ND(2), of "N div 2 ^ 32"] by linarith
    then have "2 ^ 32 * (N div 2 ^ 32 mod D) \<le> 2 ^ 32 * (D - 1)"
      by (rule mult_le_mono2)
    moreover have "N mod 2 ^ 32 < 2 ^ 32"
      by simp
    ultimately show ?thesis
      using ND(2) by (simp add: a_def algebra_simps)
  qed
  moreover have "2 ^ 32 * D < 2 ^ 64"
    using ND(3) by simp
  ultimately have a: "a < 2 ^ 64" "a div D < 2 ^ 32"
    using ND(2) by (simp_all add: div_less_iff_less_mult)
  define n1 n0 d0 :: "32 word" where "n1 = ucast (drop_bit 32 n)" and "n0 = ucast n" and "d0 = ucast d"
  have parts: "unat n1 = N div 2 ^ 32" "unat n0 = N mod 2 ^ 32" "unat d0 = D"
    using ND by (simp_all add: n1_def n0_def d0_def unat_parts N_def D_def)
  have N: "N div D = a div D + 2 ^ 32 * (N div 2 ^ 32 div D)"
  proof -
    have "N = 2 ^ 32 * (D * (N div 2 ^ 32 div D) + N div 2 ^ 32 mod D) + N mod 2 ^ 32"
      by simp
    also have "\<dots> = a + D * (2 ^ 32 * (N div 2 ^ 32 div D))"
      by (simp only: a_def distrib_left mult.assoc mult.left_commute add.assoc add.commute add.left_commute)
    finally have "N div D = (a + D * (2 ^ 32 * (N div 2 ^ 32 div D))) div D"
      by (rule arg_cong)
    then show ?thesis
      using ND(2) by simp
  qed
  have "N div D \<le> N"
    by (rule div_le_dividend)
  with N ND(1) have small: "a div D + 2 ^ 32 * (N div 2 ^ 32 div D) < 2 ^ 64"
    by linarith
  define w :: "64 word" where "w = 2 ^ 32 * ucast (n1 mod d0) + ucast n0"
  have "N div 2 ^ 32 mod D < 2 ^ 32"
    using mod_less_divisor [OF ND(2), of "N div 2 ^ 32"] ND(3) by linarith
  then have w: "unat w = a"
    using a(1) by (simp add: w_def a_def unat_word_ariths unat_parts parts)
  have q: "divl w d0 = Some (of_nat (a div D))"
    using a(2) ND(2) by (simp add: divl_def w parts) (auto simp flip: parts)
  define r :: "64 word" where "r = ucast (of_nat (a div D) :: 32 word) + 2 ^ 32 * ucast (n1 div d0)"
  have "N div 2 ^ 32 div D < 2 ^ 32"
    by (rule order_le_less_trans [OF div_le_dividend]) (use ND(1) in \<open>simp add: less_mult_imp_div_less\<close>)
  then have "unat r = a div D + 2 ^ 32 * (N div 2 ^ 32 div D)"
    using a(2) small by (simp add: r_def unat_word_ariths unat_parts parts unat_of_nat)
  then have "unat r = N div D"
    by (simp only: N)
  moreover have "udiv64 n d = Some r"
  proof -
    have "drop_bit 32 d = 0" "d0 \<noteq> 0"
      using ND by (auto simp: word_unat_eq_iff unat_parts parts simp flip: D_def)
    then show ?thesis
      using q unfolding udiv64_def Let_def by (simp add: r_def w_def flip: n1_def n0_def d0_def)
  qed
  ultimately show ?thesis
    by (simp add: N_def D_def)
qed

lemma shifted_divisor:
  assumes "2 ^ 32 \<le> unat (d :: 64 word)" and s: "s = nlz (ucast (drop_bit 32 d))" and v: "v = drop_bit 32 (push_bit s d)"
  shows "s \<le> 31 \<and> 2 ^ 31 \<le> unat v \<and> unat v < 2 ^ 32 \<and> unat v * 2 ^ (31 - s + 1) \<le> unat d
    \<and> unat d < (unat v + 1) * 2 ^ (31 - s + 1)"
proof -
  define D where "D = unat d"
  define X where "X = D div 2 ^ 32"
  have D: "2 ^ 32 \<le> D" "D < 2 ^ 64" and X: "1 \<le> X" "X < 2 ^ 32"
    using assms(1) unat64_less [of d] by (simp_all add: D_def X_def div_greater_zero_iff less_mult_imp_div_less Suc_le_eq)
  have "unat (ucast (drop_bit 32 d) :: 32 word) = X"
    using X by (simp add: unat_parts X_def D_def)
  moreover from this X(1) have "(ucast (drop_bit 32 d) :: 32 word) \<noteq> 0"
    by (auto simp: word_unat_eq_iff)
  ultimately have Xs: "2 ^ 31 \<le> X * 2 ^ s" "X * 2 ^ s < 2 ^ 32"
    using nlz_shifts s by metis+
  have s31: "s \<le> 31"
  proof (rule ccontr)
    assume "\<not> s \<le> 31"
    then have "(2 :: nat) ^ 32 \<le> 2 ^ s"
      by (intro power_increasing) simp_all
    also have "\<dots> \<le> X * 2 ^ s"
      using X(1) by simp
    finally show False
      using Xs(2) by simp
  qed
  have split: "(2 :: nat) ^ 32 = 2 ^ (31 - s + 1) * 2 ^ s" "(2 :: nat) ^ 64 = 2 ^ 32 * 2 ^ 32"
    using s31 by (simp_all flip: power_add)
  have "X < 2 ^ (31 - s + 1)"
    using Xs(2) unfolding split(1) by (simp only: mult_less_cancel2)
  then have "(X + 1) * 2 ^ 32 \<le> 2 ^ (31 - s + 1) * 2 ^ 32"
    by (intro mult_le_mono1) simp
  moreover have "D < (X + 1) * 2 ^ 32"
    by (simp add: X_def)
  ultimately have "D < 2 ^ (31 - s + 1) * 2 ^ 32"
    by linarith
  then have "D * 2 ^ s < 2 ^ (31 - s + 1) * 2 ^ 32 * 2 ^ s"
    by simp
  also have "\<dots> = 2 ^ 64"
    unfolding split(2) by (subst (2) split(1)) (simp only: ac_simps)
  finally have Ds: "D * 2 ^ s < 2 ^ 64" .
  have "unat (push_bit s d) = D * 2 ^ s"
    using Ds s31 by (simp add: push_bit_eq_mult unat_word_ariths(2) unat_power64 D_def)
  then have v: "unat v = D * 2 ^ s div 2 ^ 32"
    by (simp add: v unat_parts)
  have "unat v * 2 ^ (31 - s + 1) * 2 ^ s \<le> D * 2 ^ s"
    unfolding v mult.assoc split(1) [symmetric] by (rule div_times_less_eq_dividend)
  moreover have "D * 2 ^ s < (unat v + 1) * 2 ^ (31 - s + 1) * 2 ^ s"
    unfolding v mult.assoc split(1) [symmetric] by simp
  moreover have "X * 2 ^ s * 2 ^ 32 \<le> D * 2 ^ s"
    by (simp add: X_def)
  then have "X * 2 ^ s \<le> unat v"
    unfolding v by (simp add: less_eq_div_iff_mult_less_eq)
  moreover have "unat v < 2 ^ 32"
    using Ds unfolding v by (simp add: less_mult_imp_div_less)
  ultimately show ?thesis
    using s31 Xs(1) unfolding D_def by (simp only: mult_less_cancel2 mult_le_cancel2) simp
qed

lemma udiv64_wide:
  assumes d: "2 ^ 32 \<le> unat d"
  shows "\<exists>q. udiv64 n d = Some q \<and> unat q = unat n div unat d"
proof (cases "n < d")
  case True
  moreover have "drop_bit 32 d \<noteq> 0"
    using d by (auto simp: word_unat_eq_iff unat_parts div_eq_0_iff)
  ultimately show ?thesis
    by (simp add: udiv64_def word_less_nat_alt)
next
  case False
  define N D where "N = unat n" and "D = unat d"
  define s where "s = nlz (ucast (drop_bit 32 d))"
  define v where "v = drop_bit 32 (push_bit s d)"
  define V k where "V = unat v" and "k = 31 - s"
  have V: "2 ^ 31 \<le> V" "V < 2 ^ 32" "V * 2 ^ (k + 1) \<le> D" "D < (V + 1) * 2 ^ (k + 1)"
    using shifted_divisor [OF d s_def v_def] by (simp_all add: V_def D_def k_def)
  have N: "N < 2 ^ 64" "D \<le> N"
    using False unat64_less [of n] by (simp_all add: N_def D_def word_less_nat_alt)
  define p where "p = N div (V * 2 ^ (k + 1))"
  have p: "N div D \<le> p" "p \<le> N div D + 1"
    using quotient_estimate [OF N(1) V(1,3,4)] by (simp_all add: p_def)
  have Q: "1 \<le> N div D"
    using N(2) V d by (simp add: div_greater_zero_iff Suc_le_eq D_def)
  have "N div 2 < 2 ^ 32 * 2 ^ 31"
    using N(1) by simp
  also have "\<dots> \<le> 2 ^ 32 * V"
    using V(1) by (rule mult_le_mono2)
  finally have p0: "N div 2 div V < 2 ^ 32"
    using V(1) by (simp add: div_less_iff_less_mult)
  have vV: "unat (ucast v :: 32 word) = V"
    using V(2) by (simp add: unat_parts V_def)
  then have v0: "(ucast v :: 32 word) \<noteq> 0"
    using V(1) by (auto simp: word_unat_eq_iff)
  have q0: "divl (drop_bit 1 n) (ucast v) = Some (of_nat (N div 2 div V))"
    using p0 v0 unfolding divl_def vV by (simp add: unat_parts flip: N_def)
  define q where "q = (ucast (drop_bit k (of_nat (N div 2 div V) :: 32 word)) :: 64 word)"
  have "N div 2 div V div 2 ^ k = p"
    by (simp add: p_def ac_simps flip: div_mult2_eq)
  moreover have "N div 2 div V div 2 ^ k < 2 ^ 32"
    using p0 div_le_dividend order_le_less_trans by blast
  ultimately have q: "unat q = p"
    using p0 by (simp add: q_def unat_parts unat_of_nat)
  have q1: "unat (q - 1) = p - 1"
    using q p Q by (simp add: unat_sub word_le_nat_alt)
  have le: "(p - 1) * D \<le> N"
    using p(2) by (intro order_trans [OF mult_le_mono1 div_times_less_eq_dividend [of N D]]) simp
  have q2: "unat ((q - 1) * d) = (p - 1) * D"
    using le N(1) by (simp add: unat_word_ariths(2) q1 flip: D_def)
  have q3: "unat (n - (q - 1) * d) = N - (p - 1) * D"
    using le by (simp add: unat_sub word_le_nat_alt q2 flip: N_def)
  have "N - (p - 1) * D < D \<longleftrightarrow> p - 1 = N div D"
  proof
    assume "N - (p - 1) * D < D"
    then have "N < (p - 1) * D + D"
      using le by linarith
    then have "N < p * D"
      using p(1) Q by (cases p) simp_all
    then have "N div D < p"
      using d by (simp add: div_less_iff_less_mult D_def)
    with p(2) show "p - 1 = N div D"
      by linarith
  next
    assume "p - 1 = N div D"
    then show "N - (p - 1) * D < D"
      using d by (simp add: minus_div_mult_eq_mod D_def)
  qed
  then have "unat (if n - (q - 1) * d < d then q - 1 else q) = N div D"
    using p q q1 by (auto simp: word_less_nat_alt q3 simp flip: D_def)
  moreover have "udiv64 n d = Some (if n - (q - 1) * d < d then q - 1 else q)"
  proof -
    have "drop_bit 32 d \<noteq> 0"
      using d by (auto simp: word_unat_eq_iff unat_parts div_eq_0_iff)
    then show ?thesis
      using False q0 unfolding udiv64_def Let_def
      by (simp flip: s_def v_def q_def k_def)
  qed
  ultimately show ?thesis
    by (simp add: N_def D_def)
qed

lemma udiv64_eq:
  assumes d: "d \<noteq> 0"
  shows "udiv64 n d = Some (n div d)"
proof -
  obtain q where "udiv64 n d = Some q" "unat q = unat n div unat d"
    using udiv64_narrow [of d n] udiv64_wide [of d n] d by (cases "unat d < 2 ^ 32") auto
  then show ?thesis
    by (simp add: word_unat_eq_iff unat_div_distrib)
qed

lemma udiv64_zero: "udiv64 n 0 = None"
  by (simp add: udiv64_def)

lemma umod64_eq: "d \<noteq> 0 \<Longrightarrow> umod64 n d = Some (ucast (n mod d))"
  by (simp add: umod64_def udiv64_eq minus_mult_div_eq_mod)

subsection \<open>Signed division\<close>

lemma sint64_bounds: "- (2 ^ 63) \<le> sint (x :: 64 word)" "sint (x :: 64 word) < 2 ^ 63"
  using sint_ge [of x] sint_lt [of x] by simp_all

lemma uint_abs64: "uint (if 0 \<le> sint x then x else - x :: 64 word) = \<bar>sint x\<bar>"
proof -
  have "(if 0 \<le> sint x then x else - x) = word_of_int \<bar>sint x\<bar>"
    by (simp add: abs_if)
  moreover have "\<bar>sint x\<bar> mod 2 ^ 64 = \<bar>sint x\<bar>"
    using sint64_bounds [of x] by (intro mod_pos_pos_trivial) simp_all
  ultimately show ?thesis
    by (simp add: uint_word_of_int)
qed

lemma sdiv64_eq:
  assumes "d \<noteq> 0"
  shows "sdiv64 n d = Some (word_of_int (sint n sdiv sint d))"
proof -
  define n' d' where "n' = (if 0 \<le> sint n then n else - n)" and "d' = (if 0 \<le> sint d then d else - d)"
  have abs: "uint n' = \<bar>sint n\<bar>" "uint d' = \<bar>sint d\<bar>"
    by (simp_all only: n'_def d'_def uint_abs64)
  have "d' \<noteq> 0"
    using assms by (auto simp: d'_def)
  have "n' div d' = word_of_int (uint (n' div d'))"
    by simp
  also have "\<dots> = word_of_int (\<bar>sint n\<bar> div \<bar>sint d\<bar>)"
    by (simp only: uint_div_distrib abs)
  finally have "udiv64 n' d' = Some (word_of_int (\<bar>sint n\<bar> div \<bar>sint d\<bar>))"
    using \<open>d' \<noteq> 0\<close> by (simp add: udiv64_eq)
  then show ?thesis
    using assms
    by (auto simp: sdiv64_def signed_divide_int_def sgn_if Let_def simp flip: n'_def d'_def)
qed

lemma sdiv64_zero: "sdiv64 n 0 = None"
  by (simp add: sdiv64_def udiv64_zero)

lemma ucast_word_of_int: "(ucast (word_of_int x :: 64 word) :: 32 word) = word_of_int x"
  by (rule bit_word_eqI) (simp add: bit_simps)

lemma scast_word_of_int: "(scast (word_of_int x :: 32 word) :: 64 word) = word_of_int (signed_take_bit 31 x)"
  by (rule bit_word_eqI) (simp add: bit_simps min_def)

lemma ucast_ucast_take_bit: "(ucast (ucast (x :: 64 word) :: 32 word) :: 64 word) = take_bit 32 x"
  by (simp add: word_unat_eq_iff unsigned_ucast_eq unsigned_take_bit_eq)

lemma smod64_eq:
  assumes "d \<noteq> 0"
  shows "smod64 n d = Some (word_of_int (sint n smod sint d))"
proof -
  have "n - d * word_of_int (sint n sdiv sint d) = word_of_int (sint n - sint d * (sint n sdiv sint d))"
    by simp
  also have "sint n - sint d * (sint n sdiv sint d) = sint n smod sint d"
    using sdiv_mult_smod_eq [of "sint n" "sint d"] by (simp add: algebra_simps)
  finally show ?thesis
    using assms by (simp add: smod64_def sdiv64_eq ucast_word_of_int)
qed

subsection \<open>The routines the compiler calls\<close>

text \<open>C22: Unsigned and signed 64-bit division compute the exact quotient (for signed operands truncated
  towards zero, modulo the one overflow of the smallest integer by -1), for every dividend and every
  non-zero divisor, so the 64-by-32-bit divide instruction never traps on an overflowing
  quotient; a zero divisor traps.\<close>

theorem division_correct:
  "udivdi3 n d = (if d = 0 then None else Some (n div d))
   \<and> divdi3 n d = (if d = 0 then None else Some (word_of_int (sint n sdiv sint d)))"
  by (simp add: udivdi3_def divdi3_def udiv64_eq udiv64_zero sdiv64_eq sdiv64_zero)

text \<open>C23: The remainder routines return the remainder truncated to 32 bits, zero-extended for unsigned
  and sign-extended for signed operands, so \<^verbatim>\<open>__umoddi3\<close> is the remainder exactly when
  that is below \<open>2 ^ 32\<close>, and \<^verbatim>\<open>__moddi3\<close> exactly when it fits in 32 bits signed.\<close>

theorem remainder_truncated:
  "umoddi3 n d = (if d = 0 then None else Some (take_bit 32 (n mod d)))
   \<and> moddi3 n d = (if d = 0 then None else Some (word_of_int (signed_take_bit 31 (sint n smod sint d))))
   \<and> (umoddi3 n d = Some (n mod d) \<longleftrightarrow> d \<noteq> 0 \<and> n mod d < 2 ^ 32)"
proof -
  have um: "umoddi3 n d = (if d = 0 then None else Some (take_bit 32 (n mod d)))"
    by (simp add: umoddi3_def umod64_eq umod64_def [of n 0] udiv64_zero ucast_ucast_take_bit)
  moreover have "take_bit 32 (n mod d) = n mod d \<longleftrightarrow> n mod d < 2 ^ 32"
    by (simp add: word_unat_eq_iff word_less_nat_alt unsigned_take_bit_eq take_bit_nat_eq_self_iff)
  ultimately show ?thesis
    by (simp add: moddi3_def smod64_eq smod64_def [of n 0] sdiv64_zero scast_word_of_int)
qed

end
