(* ===== verification/Rc4_Random.thy ===== *)
theory Rc4_Random
  imports C_Strings "HOL-Library.Multiset"
begin

section \<open>The pseudo-random number generator (\<^verbatim>\<open>lib/random.c\<close>)\<close>

text \<open>
  RC4: the static variables of the file are a record; the array \<^verbatim>\<open>s\<close> of 256 bytes is a
  list, indexed by bytes, and the seed and the produced \<^verbatim>\<open>unsigned long\<close> are read
  byte by byte, least significant first.
\<close>

record rng =
  rng_s :: "8 word list"
  rng_i :: "8 word"
  rng_j :: "8 word"
  inited :: bool

definition swap_byte :: "8 word list \<Rightarrow> nat \<Rightarrow> nat \<Rightarrow> 8 word list" where
  "swap_byte xs a b = (let t = xs ! a; xs = xs[a := xs ! b] in xs[b := t])"

definition seedp :: "32 word \<Rightarrow> nat \<Rightarrow> 8 word" where
  "seedp seed i = ucast (drop_bit (8 * i) seed)"

definition random_mix :: "32 word \<Rightarrow> nat \<Rightarrow> 8 word list \<times> 8 word \<Rightarrow> 8 word list \<times> 8 word" where
  "random_mix seed i sj =
     (let j = snd sj + (fst sj ! i + seedp seed (i mod 4))
      in (swap_byte (fst sj) i (unat j), j))"

definition random_init :: "32 word \<Rightarrow> rng \<Rightarrow> rng" where
  "random_init seed r =
     (let s = fold (\<lambda>i s. s[i := of_nat i]) [0..<256] (rng_s r);
          sj = fold (random_mix seed) [0..<256] (s, 0)
      in r\<lparr>rng_s := fst sj, rng_i := 0, rng_j := 0, inited := True\<rparr>)"

definition random_byte :: "rng \<Rightarrow> 8 word \<times> rng" where
  "random_byte r =
     (let i = rng_i r + 1;
          j = rng_j r + rng_s r ! unat i;
          s = swap_byte (rng_s r) (unat i) (unat j);
          k = s ! unat i + s ! unat j
      in (s ! unat k, r\<lparr>rng_s := s, rng_i := i, rng_j := j\<rparr>))"

fun random_loop :: "nat \<Rightarrow> ptr \<Rightarrow> mem \<times> rng \<Rightarrow> mem \<times> rng" where
  "random_loop 0 buf mr = mr"
| "random_loop (Suc n) buf (m, r) =
     (let (b, r) = random_byte r in random_loop n (buf + 1) (m(buf := b), r))"

definition random_bytes :: "ptr \<Rightarrow> nat \<Rightarrow> mem \<times> rng \<Rightarrow> mem \<times> rng" where
  "random_bytes buf n mr =
     (let (m, r) = mr; r = (if \<not> inited r then random_init 0 r else r)
      in random_loop n buf (m, r))"

text \<open>The variable \<^verbatim>\<open>ul\<close> lives on the stack, at the address \<open>ul\<close>.\<close>

definition random_ulong :: "ptr \<Rightarrow> mem \<times> rng \<Rightarrow> 64 word \<times> (mem \<times> rng)" where
  "random_ulong ul mr =
     (let mr = random_bytes ul 8 mr
      in (foldr (\<lambda>i w. push_bit 8 w OR ucast (fst mr (ul + of_nat i))) [0..<8] 0, mr))"

subsection \<open>The array stays a permutation of the bytes\<close>

definition perm_bytes :: "8 word list \<Rightarrow> bool" where
  "perm_bytes xs \<longleftrightarrow> length xs = 256 \<and> distinct xs"

definition rng_ok :: "rng \<Rightarrow> bool" where
  "rng_ok r \<longleftrightarrow> length (rng_s r) = 256 \<and> (inited r \<longrightarrow> perm_bytes (rng_s r))"

lemma perm_bytes_length: "perm_bytes xs \<Longrightarrow> length xs = 256"
  by (simp add: perm_bytes_def)

lemma unat8_less: "unat (x :: 8 word) < 256"
  by (rule order_less_le_trans [OF unsigned_less]) simp

lemma unat_of_nat_byte: "n < 256 \<Longrightarrow> unat (of_nat n :: 8 word) = n"
  by (simp add: unat_of_nat)

lemma perm_bytes_all: "perm_bytes xs \<Longrightarrow> set xs = UNIV"
  by (rule card_subset_eq) (simp_all add: perm_bytes_def distinct_card card_word)

lemma swap_byte_perm:
  assumes "perm_bytes xs" "a < 256" "b < 256"
  shows "perm_bytes (swap_byte xs a b)"
proof -
  have "swap_byte xs a b = xs[a := xs ! b, b := xs ! a]"
    by (simp add: swap_byte_def)
  then show ?thesis
    using assms by (simp add: perm_bytes_def distinct_swap)
qed

lemma random_mix_perm: "perm_bytes (fst sj) \<Longrightarrow> i < 256 \<Longrightarrow> perm_bytes (fst (random_mix seed i sj))"
  by (simp add: random_mix_def Let_def swap_byte_perm unat8_less)

lemma random_mixes_perm:
  "perm_bytes (fst sj) \<Longrightarrow> \<forall>i \<in> set is. i < 256 \<Longrightarrow> perm_bytes (fst (fold (random_mix seed) is sj))"
  by (induction "is" arbitrary: sj) (simp_all add: random_mix_perm)

lemma fold_upd: "n \<le> length xs \<Longrightarrow> fold (\<lambda>i s. s[i := f i]) [0..<n] xs = map f [0..<n] @ drop n xs"
  by (induction n) (simp_all add: list_update_append nth_append Cons_nth_drop_Suc [symmetric])

lemma random_init_perm:
  assumes "length (rng_s r) = 256"
  shows "perm_bytes (rng_s (random_init seed r)) \<and> inited (random_init seed r)"
proof -
  have "inj_on (of_nat :: nat \<Rightarrow> 8 word) {0..<256}"
    by (rule inj_onI) (metis (full_types) atLeastLessThan_iff unat_of_nat_byte)
  then have "perm_bytes (map of_nat [0..<256])"
    by (simp add: perm_bytes_def distinct_map del: upt_rec_numeral)
  then show ?thesis
    using assms by (simp add: random_init_def Let_def fold_upd random_mixes_perm del: upt_rec_numeral)
qed

lemma random_byte_perm: "perm_bytes (rng_s r) \<Longrightarrow> perm_bytes (rng_s (snd (random_byte r)))"
  by (simp add: random_byte_def Let_def swap_byte_perm unat8_less)

lemma random_byte_inited: "inited (snd (random_byte r)) = inited r"
  by (simp add: random_byte_def Let_def)

lemma random_loop_perm:
  "perm_bytes (rng_s r) \<Longrightarrow>
   perm_bytes (rng_s (snd (random_loop n buf (m, r)))) \<and> inited (snd (random_loop n buf (m, r))) = inited r"
proof (induction n arbitrary: buf m r)
  case (Suc n)
  obtain b r' where r': "random_byte r = (b, r')"
    by force
  with random_byte_perm [OF Suc.prems] random_byte_inited [of r] Suc.IH [of r'] show ?case
    by simp
qed simp

lemma random_loop_add:
  "random_loop (n + k) buf (m, r) = random_loop k (buf + of_nat n) (random_loop n buf (m, r))"
  by (induction n arbitrary: buf m r) (simp_all add: case_prod_beta Let_def algebra_simps)

lemma random_loop_frame:
  "(\<forall>i<n. p \<noteq> buf + of_nat i) \<Longrightarrow> fst (random_loop n buf (m, r)) p = m p"
proof (induction n arbitrary: buf m r)
  case (Suc n)
  have "p \<noteq> buf + 1 + of_nat i" if "i < n" for i
    using Suc.prems [rule_format, of "Suc i"] that by (simp add: ac_simps)
  then have "fst (random_loop n (buf + 1) (m', r')) p = m' p" for m' r'
    by (intro Suc.IH) simp
  moreover have "p \<noteq> buf"
    using Suc.prems [rule_format, of 0] by simp
  ultimately show ?case
    by (simp add: case_prod_beta)
qed simp

text \<open>C24: The state array of the generator is a permutation of the 256 bytes from the first request on,
  however it is seeded. A request for \<open>n + k\<close> bytes produces the same bytes
  and the same state as a request for \<open>n\<close> bytes followed by one for the next \<open>k\<close>, and no byte
  outside the buffer changes.\<close>

theorem random_bytes_stream:
  assumes "rng_ok r"
  shows "perm_bytes (rng_s (random_init seed r))
    \<and> (let r' = snd (random_bytes buf n (m, r))
       in rng_ok r' \<and> inited r' \<and> perm_bytes (rng_s r') \<and> set (rng_s r') = UNIV)
    \<and> random_bytes buf (n + k) (m, r) = random_bytes (buf + of_nat n) k (random_bytes buf n (m, r))
    \<and> ((\<forall>i<n. p \<noteq> buf + of_nat i) \<longrightarrow> fst (random_bytes buf n (m, r)) p = m p)"
proof -
  define r0 where "r0 = (if \<not> inited r then random_init 0 r else r)"
  have r0: "perm_bytes (rng_s r0)" "inited r0"
    using assms by (auto simp: r0_def rng_ok_def random_init_perm)
  have rb: "random_bytes buf n (m, r) = random_loop n buf (m, r0)" for n
    by (simp add: random_bytes_def r0_def)
  define r' where "r' = snd (random_loop n buf (m, r0))"
  have r': "perm_bytes (rng_s r')" "inited r'"
    using random_loop_perm [OF r0(1)] r0(2) by (simp_all add: r'_def)
  have "random_bytes (buf + of_nat n) k (random_loop n buf (m, r0)) = random_loop (n + k) buf (m, r0)"
    using r'(2) by (simp add: random_loop_add random_bytes_def r'_def case_prod_beta)
  with r' show ?thesis
    using assms
    by (simp add: rb random_init_perm rng_ok_def perm_bytes_all perm_bytes_length random_loop_frame flip: r'_def)
qed

definition fresh_rng :: rng where
  "fresh_rng = \<lparr>rng_s = replicate 256 0, rng_i = 0, rng_j = 0, inited = False\<rparr>"

lemma fresh_rng_ok: "rng_ok fresh_rng"
  by (simp add: rng_ok_def fresh_rng_def)

theorem random_bytes_stream_witness:
  "rng_ok fresh_rng \<and> perm_bytes (rng_s (snd (random_bytes 100 3 (\<lambda>_. 0, fresh_rng))))
   \<and> fst (random_bytes 100 3 (\<lambda>_. 0, fresh_rng)) 103 = 0"
proof -
  have "\<forall>i<3. (103 :: ptr) \<noteq> 100 + of_nat i"
    by (simp add: numeral_3_eq_3 less_Suc_eq all_conj_distrib)
  then show ?thesis
    using random_bytes_stream [OF fresh_rng_ok, where seed = 1 and buf = 100 and n = 3 and k = 2 and m = "\<lambda>_. 0" and p = 103]
    by (simp add: fresh_rng_ok Let_def)
qed

end
