(* ===== verification/Sort_Search.thy ===== *)
theory Sort_Search
  imports C_Strings "HOL-Library.Multiset"
begin

section \<open>Sorting and searching arrays (\<^verbatim>\<open>lib/stdlib.c\<close>)\<close>

text \<open>
  Heapsort and binary search on an array of \<^verbatim>\<open>cnt\<close> elements of \<^verbatim>\<open>size\<close> bytes each.
  The array is the list of its bytes; a comparison function is given the bytes of the two
  elements, with its auxiliary data applied already, and \<^term>\<open>None\<close> stands for a null pointer
  among the arguments.
\<close>

type_synonym compare = "8 word list \<Rightarrow> 8 word list \<Rightarrow> int"

definition elem_at :: "8 word list \<Rightarrow> nat \<Rightarrow> nat \<Rightarrow> 8 word list" where
  "elem_at array sz idx = take sz (drop ((idx - 1) * sz) array)"

definition do_swap :: "8 word list \<Rightarrow> nat \<Rightarrow> nat \<Rightarrow> nat \<Rightarrow> 8 word list" where
  "do_swap array a_idx b_idx sz =
     (let a = (a_idx - 1) * sz; b = (b_idx - 1) * sz
      in fold (\<lambda>i array.
           let t = array ! (a + i);
               array = array[a + i := array ! (b + i)]
           in array[b + i := t]) [0..<sz] array)"

definition do_compare :: "8 word list \<Rightarrow> nat \<Rightarrow> nat \<Rightarrow> nat \<Rightarrow> compare \<Rightarrow> int" where
  "do_compare array a_idx b_idx sz compare = compare (elem_at array sz a_idx) (elem_at array sz b_idx)"

definition heap_max :: "8 word list \<Rightarrow> nat \<Rightarrow> nat \<Rightarrow> nat \<Rightarrow> compare \<Rightarrow> nat" where
  "heap_max array i cnt sz compare =
     (let left = 2 * i;
          right = 2 * i + 1;
          mx = i;
          mx = (if left \<le> cnt \<and> do_compare array left mx sz compare > 0 then left else mx)
      in if right \<le> cnt \<and> do_compare array right mx sz compare > 0 then right else mx)"

lemma heap_max_range:
  "heap_max array i cnt sz compare = i
   \<or> heap_max array i cnt sz compare \<in> {2 * i, 2 * i + 1} \<and> heap_max array i cnt sz compare \<le> cnt"
  by (auto simp: heap_max_def Let_def)

function heapify :: "8 word list \<Rightarrow> nat \<Rightarrow> nat \<Rightarrow> nat \<Rightarrow> compare \<Rightarrow> 8 word list" where
  "heapify array i cnt sz compare =
     (let mx = heap_max array i cnt sz compare
      in if mx = i then array
         else heapify (do_swap array i mx sz) mx cnt sz compare)"
  by pat_completeness auto
termination
proof (relation "measure (\<lambda>(array, i, cnt, sz, compare). Suc cnt - i)")
  fix array i cnt sz compare mx
  assume "mx = heap_max array i cnt sz compare" "mx \<noteq> i"
  with heap_max_range [of array i cnt sz compare]
  show "((do_swap array i mx sz, mx, cnt, sz, compare), array, i, cnt, sz, compare)
    \<in> measure (\<lambda>(array, i, cnt, sz, compare). Suc cnt - i)"
    by auto
qed simp

declare heapify.simps [simp del]

definition sort_array :: "8 word list option \<Rightarrow> nat \<Rightarrow> nat \<Rightarrow> compare option \<Rightarrow> 8 word list option" where
  "sort_array array cnt sz compare = do {
     ASSERT (array \<noteq> None \<or> cnt = 0);
     ASSERT (compare \<noteq> None);
     ASSERT (sz > 0);
     let compare = the compare;
     let array = (case array of None \<Rightarrow> [] | Some bs \<Rightarrow> bs);
     let array = fold (\<lambda>i array. heapify array i cnt sz compare) (rev [1..<cnt div 2 + 1]) array;
     Some (fold (\<lambda>i array. heapify (do_swap array 1 i sz) 1 (i - 1) sz compare) (rev [2..<cnt + 1]) array)
   }"

definition compare_thunk :: "8 word list \<Rightarrow> 8 word list \<Rightarrow> compare option \<Rightarrow> int" where
  "compare_thunk a b aux = the aux a b"

definition qsort :: "8 word list option \<Rightarrow> nat \<Rightarrow> nat \<Rightarrow> compare option \<Rightarrow> 8 word list option" where
  "qsort array cnt sz compare = sort_array array cnt sz (Some (\<lambda>a b. compare_thunk a b compare))"

function binary_loop ::
  "8 word list \<Rightarrow> 8 word list \<Rightarrow> nat \<Rightarrow> compare \<Rightarrow> nat \<Rightarrow> nat \<Rightarrow> nat option option" where
  "binary_loop key array sz compare first lst =
     (if first < lst then
        if sz = 0 then None
        else
          let rng = (lst - first) div sz;
              middle = first + (rng div 2) * sz;
              cmp = compare key (take sz (drop middle array))
          in if cmp < 0 then binary_loop key array sz compare first middle
             else if cmp > 0 then binary_loop key array sz compare (middle + sz) lst
             else Some (Some middle)
      else Some None)"
  by pat_completeness auto
termination
proof (relation "measure (\<lambda>(key, array, sz, compare, first, lst). lst - first)")
  fix key array compare
  fix sz first lst rng middle :: nat
  assume fl: "first < lst" "sz \<noteq> 0" "rng = (lst - first) div sz" "middle = first + rng div 2 * sz"
  have "rng div 2 * sz < lst - first"
  proof -
    have "rng * sz \<le> lst - first"
      by (simp add: fl(3))
    moreover have "rng div 2 * sz < rng * sz" if "rng > 0"
      using that fl(2) by simp
    ultimately show ?thesis
      using fl(1) by (cases "rng = 0") (simp, linarith)
  qed
  with fl(1,2,4) show "((key, array, sz, compare, first, middle), key, array, sz, compare, first, lst)
      \<in> measure (\<lambda>(key, array, sz, compare, first, lst). lst - first)"
    and "((key, array, sz, compare, middle + sz, lst), key, array, sz, compare, first, lst)
      \<in> measure (\<lambda>(key, array, sz, compare, first, lst). lst - first)"
    by simp_all
qed simp

declare binary_loop.simps [simp del]

definition binary_search ::
  "8 word list \<Rightarrow> 8 word list \<Rightarrow> nat \<Rightarrow> nat \<Rightarrow> compare \<Rightarrow> nat option option" where
  "binary_search key array cnt sz compare = binary_loop key array sz compare 0 (sz * cnt)"

definition bsearch ::
  "8 word list \<Rightarrow> 8 word list \<Rightarrow> nat \<Rightarrow> nat \<Rightarrow> compare option \<Rightarrow> nat option option" where
  "bsearch key array cnt sz compare = binary_search key array cnt sz (\<lambda>a b. compare_thunk a b compare)"

subsection \<open>Elements and swaps\<close>

definition swap_bytes :: "nat \<Rightarrow> nat \<Rightarrow> nat \<Rightarrow> 8 word list \<Rightarrow> 8 word list" where
  "swap_bytes a b i xs = xs[a + i := xs ! (b + i), b + i := xs ! (a + i)]"

lemma do_swap_eq:
  "do_swap array p q sz = fold (swap_bytes ((p - 1) * sz) ((q - 1) * sz)) [0..<sz] array"
  by (simp add: do_swap_def swap_bytes_def [abs_def] Let_def)

lemma swap_bytes_nth:
  assumes "a + n \<le> length xs" "b + n \<le> length xs" "a + n \<le> b \<or> b + n \<le> a"
  shows "length (fold (swap_bytes a b) [0..<n] xs) = length xs
    \<and> (\<forall>k < length xs. fold (swap_bytes a b) [0..<n] xs ! k =
        (if a \<le> k \<and> k < a + n then xs ! (k - a + b) else if b \<le> k \<and> k < b + n then xs ! (k - b + a) else xs ! k))"
  using assms
proof (induction n)
  case (Suc n)
  let ?ys = "fold (swap_bytes a b) [0..<n] xs"
  have IH: "length ?ys = length xs" "\<And>k. k < length xs \<Longrightarrow> ?ys ! k =
        (if a \<le> k \<and> k < a + n then xs ! (k - a + b) else if b \<le> k \<and> k < b + n then xs ! (k - b + a) else xs ! k)"
    using Suc by auto
  have "?ys ! (a + n) = xs ! (a + n)" "?ys ! (b + n) = xs ! (b + n)"
    using Suc.prems by (auto simp: IH(2))
  then have "fold (swap_bytes a b) [0..<Suc n] xs = ?ys[a + n := xs ! (b + n), b + n := xs ! (a + n)]"
    by (simp add: swap_bytes_def)
  moreover have "(?ys[a + n := xs ! (b + n), b + n := xs ! (a + n)]) ! k =
      (if a \<le> k \<and> k < a + Suc n then xs ! (k - a + b) else if b \<le> k \<and> k < b + Suc n then xs ! (k - b + a) else xs ! k)"
    if "k < length xs" for k
    using that Suc.prems IH(1) by (auto simp: nth_list_update IH(2) less_Suc_eq add.commute)
  ultimately show ?case
    using IH(1) by simp
qed auto

lemma elem_range: "1 \<le> p \<Longrightarrow> p \<le> n \<Longrightarrow> (p - 1) * sz + sz \<le> n * (sz :: nat)"
  using mult_le_mono1 [of p n sz] by (cases p) (simp_all add: add.commute)

lemma elems_apart: "1 \<le> p \<Longrightarrow> p < q \<Longrightarrow> (p - 1) * sz + sz \<le> (q - 1) * (sz :: nat)"
  using elem_range [of p "q - 1" sz] by simp

lemma elem_at_nth:
  "length array = n * sz \<Longrightarrow> 1 \<le> i \<Longrightarrow> i \<le> n \<Longrightarrow> t < sz \<Longrightarrow> elem_at array sz i ! t = array ! ((i - 1) * sz + t)"
  using elem_range [of i n sz] by (simp add: elem_at_def)

lemma elem_at_length:
  "length array = n * sz \<Longrightarrow> 1 \<le> i \<Longrightarrow> i \<le> n \<Longrightarrow> length (elem_at array sz i) = sz"
  using elem_range [of i n sz] by (simp add: elem_at_def)

lemma elem_at_eqI:
  assumes "length xs = n * sz" "length ys = n * sz" "1 \<le> i" "i \<le> n" "1 \<le> j" "j \<le> n"
    and "\<And>t. t < sz \<Longrightarrow> xs ! ((i - 1) * sz + t) = ys ! ((j - 1) * sz + t)"
  shows "elem_at xs sz i = elem_at ys sz j"
  using assms by (intro nth_equalityI) (simp_all only: elem_at_nth elem_at_length)

lemma do_swap_elem:
  assumes len: "length array = n * sz" and pq: "1 \<le> p" "p \<le> n" "1 \<le> q" "q \<le> n" "p \<noteq> q"
  shows do_swap_length: "length (do_swap array p q sz) = n * sz"
    and do_swap_at: "1 \<le> i \<Longrightarrow> i \<le> n \<Longrightarrow> elem_at (do_swap array p q sz) sz i =
      (if i = p then elem_at array sz q else if i = q then elem_at array sz p else elem_at array sz i)"
proof -
  let ?a = "(p - 1) * sz" and ?b = "(q - 1) * sz"
  have apart: "?a + sz \<le> ?b \<or> ?b + sz \<le> ?a"
    using pq elems_apart [of p q sz] elems_apart [of q p sz] by (cases "p < q") auto
  note sw = swap_bytes_nth [of ?a sz array ?b, unfolded len, OF elem_range elem_range apart, OF pq(1-4), folded do_swap_eq]
  then show len': "length (do_swap array p q sz) = n * sz"
    by simp
  assume i: "1 \<le> i" "i \<le> n"
  let ?c = "(i - 1) * sz"
  have c: "?c + sz \<le> n * sz"
    using i by (rule elem_range)
  have other: "?c + sz \<le> (r - 1) * sz \<or> (r - 1) * sz + sz \<le> ?c" if "i \<noteq> r" "1 \<le> r" for r
    using that i elems_apart [of i r sz] elems_apart [of r i sz] by (cases "i < r") auto
  have nth: "do_swap array p q sz ! (?c + t) =
      array ! ((if i = p then ?b else if i = q then ?a else ?c) + t)" if t: "t < sz" for t
  proof -
    have "?c + t < n * sz"
      using c t by linarith
    note sw = sw [THEN conjunct2, rule_format, OF this]
    consider "i = p" | "i = q" "i \<noteq> p" | "i \<noteq> p" "i \<noteq> q"
      by blast
    then show ?thesis
    proof cases
      case 1
      with t show ?thesis
        unfolding sw by (simp add: add.commute)
    next
      case 2
      with t other [OF 2(2) pq(1)] show ?thesis
        unfolding sw by (auto simp: add.commute)
    next
      case 3
      with t other [OF 3(1) pq(1)] other [OF 3(2) pq(3)] show ?thesis
        unfolding sw by auto
    qed
  qed
  let ?j = "if i = p then q else if i = q then p else i"
  have "elem_at (do_swap array p q sz) sz i = elem_at array sz ?j"
  proof (rule elem_at_eqI [OF len' len i])
    show "1 \<le> ?j" "?j \<le> n"
      using i pq by simp_all
    show "do_swap array p q sz ! (?c + t) = array ! ((?j - 1) * sz + t)" if "t < sz" for t
      using nth [OF that] by (cases "i = p"; cases "i = q") simp_all
  qed
  then show "elem_at (do_swap array p q sz) sz i =
      (if i = p then elem_at array sz q else if i = q then elem_at array sz p else elem_at array sz i)"
    by auto
qed

subsection \<open>Heaps\<close>

text \<open>A comparison function returns a \<^verbatim>\<open>strcmp()\<close>-type result, as the comments of
  \<^verbatim>\<open>sort\<close> and \<^verbatim>\<open>binary_search\<close> ask.\<close>

definition strcmp_type :: "compare \<Rightarrow> bool" where
  "strcmp_type cmp \<longleftrightarrow> (\<forall>x y. 0 < cmp x y \<longleftrightarrow> cmp y x < 0) \<and>
     (\<forall>x y z. cmp x y \<le> 0 \<longrightarrow> cmp y z \<le> 0 \<longrightarrow> cmp x z \<le> 0)"

definition cmp_le :: "compare \<Rightarrow> 8 word list \<Rightarrow> 8 word list \<Rightarrow> bool" where
  "cmp_le cmp x y \<longleftrightarrow> cmp x y \<le> 0"

lemma cmp_le_trans: "strcmp_type cmp \<Longrightarrow> cmp_le cmp x y \<Longrightarrow> cmp_le cmp y z \<Longrightarrow> cmp_le cmp x z"
  unfolding strcmp_type_def cmp_le_def by blast

lemma cmp_le_refl: "strcmp_type cmp \<Longrightarrow> cmp_le cmp x x"
  unfolding strcmp_type_def cmp_le_def by (meson less_asym' not_less)

lemma cmp_gt_le: "strcmp_type cmp \<Longrightarrow> 0 < cmp x y \<Longrightarrow> cmp_le cmp y x"
  unfolding strcmp_type_def cmp_le_def by (meson less_imp_le)

lemma cmp_not_gt_le: "\<not> 0 < cmp x y \<Longrightarrow> cmp_le cmp x y"
  by (simp add: cmp_le_def)

definition heap_node :: "compare \<Rightarrow> (nat \<Rightarrow> 8 word list) \<Rightarrow> nat \<Rightarrow> nat \<Rightarrow> nat \<Rightarrow> bool" where
  "heap_node cmp F cnt p j \<longleftrightarrow> (\<forall>c. c \<le> cnt \<longrightarrow> c = 2 * j \<or> c = 2 * j + 1 \<longrightarrow> cmp_le cmp (F c) (F p))"

definition heap_from :: "compare \<Rightarrow> (nat \<Rightarrow> 8 word list) \<Rightarrow> nat \<Rightarrow> nat \<Rightarrow> bool" where
  "heap_from cmp F cnt lo \<longleftrightarrow> (\<forall>j \<ge> lo. heap_node cmp F cnt j j)"

definition heap_but :: "compare \<Rightarrow> (nat \<Rightarrow> 8 word list) \<Rightarrow> nat \<Rightarrow> nat \<Rightarrow> nat \<Rightarrow> bool" where
  "heap_but cmp F cnt lo i \<longleftrightarrow> (\<forall>j \<ge> lo. j \<noteq> i \<longrightarrow> heap_node cmp F cnt j j)
     \<and> (\<forall>j \<ge> lo. i = 2 * j \<or> i = 2 * j + 1 \<longrightarrow> heap_node cmp F cnt j i)"

lemma heap_max_greatest:
  assumes "strcmp_type cmp"
  shows "heap_node cmp (elem_at array sz) cnt (heap_max array i cnt sz cmp) i
    \<and> cmp_le cmp (elem_at array sz i) (elem_at array sz (heap_max array i cnt sz cmp))"
proof -
  let ?F = "elem_at array sz"
  define l where "l = (if 2 * i \<le> cnt \<and> 0 < cmp (?F (2 * i)) (?F i) then 2 * i else i)"
  have m: "heap_max array i cnt sz cmp = (if 2 * i + 1 \<le> cnt \<and> 0 < cmp (?F (2 * i + 1)) (?F l) then 2 * i + 1 else l)"
    by (simp add: heap_max_def do_compare_def l_def Let_def)
  have l: "cmp_le cmp (?F i) (?F l)" "2 * i \<le> cnt \<Longrightarrow> cmp_le cmp (?F (2 * i)) (?F l)"
    using assms by (auto simp: l_def cmp_le_refl intro: cmp_gt_le cmp_not_gt_le)
  have "cmp_le cmp (?F l) (?F (heap_max array i cnt sz cmp))"
    using assms by (auto simp: m cmp_le_refl intro: cmp_gt_le)
  with l have "cmp_le cmp (?F i) (?F (heap_max array i cnt sz cmp))"
    "2 * i \<le> cnt \<Longrightarrow> cmp_le cmp (?F (2 * i)) (?F (heap_max array i cnt sz cmp))"
    using cmp_le_trans [OF assms] by blast+
  moreover have "2 * i + 1 \<le> cnt \<Longrightarrow> cmp_le cmp (?F (2 * i + 1)) (?F (heap_max array i cnt sz cmp))"
    using assms unfolding m by (auto simp: cmp_le_refl intro: cmp_not_gt_le)
  ultimately show ?thesis
    by (auto simp: heap_node_def)
qed

text \<open>One turn of the loop moves the only node that may be out of order one level down.\<close>

lemma heap_but_down:
  assumes F: "heap_but cmp F cnt lo i" and i: "1 \<le> i" "lo \<le> i" and m: "m = 2 * i \<or> m = 2 * i + 1" "m \<le> cnt"
    and le: "heap_node cmp F cnt m i" "cmp_le cmp (F i) (F m)"
    and G: "\<And>j. 1 \<le> j \<Longrightarrow> j \<le> cnt \<Longrightarrow> G j = (if j = i then F m else if j = m then F i else F j)" and lo: "1 \<le> lo"
  shows "heap_but cmp G cnt lo m"
proof -
  have node: "heap_node cmp G cnt j j" if j: "lo \<le> j" "j \<noteq> m" for j
    unfolding heap_node_def
  proof (intro allI impI)
    fix c assume c: "c \<le> cnt" "c = 2 * j \<or> c = 2 * j + 1"
    show "cmp_le cmp (G c) (G j)"
    proof (cases "j = i")
      case True
      then show ?thesis
        using c le m i by (auto simp: G heap_node_def)
    next
      case False
      have "cmp_le cmp (F c) (F j)" "c = i \<Longrightarrow> cmp_le cmp (F m) (F j)"
        using F False j(1) c m by (auto simp: heap_but_def heap_node_def)
      moreover have "c \<noteq> m"
        using False c(2) m(1) by presburger
      ultimately show ?thesis
        using j False c lo by (auto simp: G)
    qed
  qed
  have "heap_node cmp G cnt j m" if "m = 2 * j \<or> m = 2 * j + 1" for j
  proof -
    have "j = i"
      using that m(1) by presburger
    moreover have "heap_node cmp F cnt m m"
      using F i m by (auto simp: heap_but_def)
    ultimately show ?thesis
      using i m by (auto simp: heap_node_def G)
  qed
  with node show ?thesis
    by (simp add: heap_but_def)
qed

lemma heap_but_done:
  "heap_but cmp F cnt lo i \<Longrightarrow> heap_node cmp F cnt i i \<Longrightarrow> heap_from cmp F cnt lo"
  by (auto simp: heap_but_def heap_from_def)

lemma heapify_heap:
  assumes "strcmp_type cmp" "length array = n * sz" "cnt \<le> n" "1 \<le> lo" "lo \<le> i"
    and "heap_but cmp (elem_at array sz) cnt lo i"
  shows "heap_from cmp (elem_at (heapify array i cnt sz cmp) sz) cnt lo"
  using assms
proof (induction array i cnt sz cmp rule: heapify.induct)
  case (1 array i cnt sz cmp)
  let ?m = "heap_max array i cnt sz cmp"
  note gr = heap_max_greatest [OF 1(2), of array sz cnt i]
  show ?case
  proof (cases "?m = i")
    case True
    then show ?thesis
      using gr 1 by (simp add: heapify.simps [of array] heap_but_done)
  next
    case False
    then have m: "?m = 2 * i \<or> ?m = 2 * i + 1" "?m \<le> cnt"
      using heap_max_range [of array i cnt sz cmp] by auto
    then have "i \<le> n" "1 \<le> i" "?m \<le> n" "1 \<le> ?m"
      using 1 by auto
    then have G: "elem_at (do_swap array i ?m sz) sz j =
        (if j = i then elem_at array sz ?m else if j = ?m then elem_at array sz i else elem_at array sz j)"
      if "1 \<le> j" "j \<le> cnt" for j
      using that 1(3,4) False by (intro do_swap_at [where n = n]) auto
    have "heap_but cmp (elem_at (do_swap array i ?m sz) sz) cnt lo ?m"
      using 1 gr by (intro heap_but_down [OF 1(7) \<open>1 \<le> i\<close> _ m _ _ G]) auto
    moreover have "length (do_swap array i ?m sz) = n * sz"
      using 1 False \<open>i \<le> n\<close> \<open>1 \<le> i\<close> \<open>?m \<le> n\<close> \<open>1 \<le> ?m\<close> by (intro do_swap_length) auto
    moreover have "lo \<le> ?m"
      using m 1 by auto
    ultimately show ?thesis
      using 1 False by (simp add: heapify.simps [of array] Let_def)
  qed
qed

text \<open>Everything is a sequence of swaps of elements with indexes in \<open>1..cnt\<close>.\<close>

definition content :: "(nat \<Rightarrow> 'a) \<Rightarrow> nat \<Rightarrow> 'a multiset" where
  "content F cnt = mset (map F [1..<Suc cnt])"

lemma content_swap:
  assumes "1 \<le> p" "p \<le> cnt" "1 \<le> q" "q \<le> cnt" "p \<noteq> q"
    and G: "\<And>j. 1 \<le> j \<Longrightarrow> j \<le> cnt \<Longrightarrow> G j = (if j = p then F q else if j = q then F p else F j)"
  shows "content G cnt = content F cnt"
proof -
  let ?xs = "map F [1..<Suc cnt]"
  have "map G [1..<Suc cnt] = ?xs[p - 1 := ?xs ! (q - 1), q - 1 := ?xs ! (p - 1)]"
    using assms by (intro nth_equalityI) (auto simp: nth_list_update G simp del: upt_Suc)
  moreover have "q - 1 < length ?xs" "p - 1 < length ?xs"
    using assms by (simp_all del: upt_Suc)
  ultimately show ?thesis
    unfolding content_def by (simp only: mset_swap)
qed

lemma content_set: "x \<in># content F cnt \<longleftrightarrow> (\<exists>j. 1 \<le> j \<and> j \<le> cnt \<and> x = F j)"
  by (auto simp: content_def Suc_le_eq simp del: upt_Suc)

definition permutes_first :: "nat \<Rightarrow> nat \<Rightarrow> nat \<Rightarrow> 8 word list \<Rightarrow> 8 word list \<Rightarrow> bool" where
  "permutes_first n sz cnt xs ys \<longleftrightarrow> length ys = n * sz \<and> content (elem_at ys sz) cnt = content (elem_at xs sz) cnt
     \<and> (\<forall>j. cnt < j \<longrightarrow> j \<le> n \<longrightarrow> elem_at ys sz j = elem_at xs sz j)"

lemma permutes_first_trans:
  "permutes_first n sz cnt xs ys \<Longrightarrow> permutes_first n sz cnt ys zs \<Longrightarrow> permutes_first n sz cnt xs zs"
  by (simp add: permutes_first_def)

lemma permutes_first_mono:
  assumes "permutes_first n sz i xs ys" "i \<le> cnt" "cnt \<le> n"
  shows "permutes_first n sz cnt xs ys"
proof -
  have split: "content F cnt = content F i + mset (map F [Suc i..<Suc cnt])" for F :: "nat \<Rightarrow> 8 word list"
  proof -
    have "[1..<Suc cnt] = [1..<Suc i] @ [Suc i..<Suc cnt]"
      using assms(2) upt_add_eq_append [of 1 "Suc i" "cnt - i"] by simp
    then show ?thesis
      unfolding content_def by (simp only: map_append mset_append)
  qed
  have "map (elem_at ys sz) [Suc i..<Suc cnt] = map (elem_at xs sz) [Suc i..<Suc cnt]"
    using assms by (intro map_cong refl) (auto simp: permutes_first_def)
  moreover have "content (elem_at ys sz) i = content (elem_at xs sz) i"
    using assms(1) by (simp add: permutes_first_def)
  ultimately have "content (elem_at ys sz) cnt = content (elem_at xs sz) cnt"
    unfolding split by (simp only:)
  then show ?thesis
    using assms by (simp add: permutes_first_def)
qed

lemma do_swap_permutes:
  assumes "length array = n * sz" "cnt \<le> n" "1 \<le> p" "p \<le> cnt" "1 \<le> q" "q \<le> cnt" "p \<noteq> q"
  shows "permutes_first n sz cnt array (do_swap array p q sz)"
proof -
  have pq: "p \<le> n" "q \<le> n"
    using assms by auto
  note at = do_swap_at [OF assms(1,3) pq(1) assms(5) pq(2) assms(7)]
  have "content (elem_at (do_swap array p q sz) sz) cnt = content (elem_at array sz) cnt"
    using assms(2-) by (intro content_swap [of p cnt q]) (simp_all add: at)
  moreover have "elem_at (do_swap array p q sz) sz j = elem_at array sz j" if "cnt < j" "j \<le> n" for j
    using that assms(2-) at [of j] by simp
  ultimately show ?thesis
    using do_swap_length [OF assms(1,3) pq(1) assms(5) pq(2) assms(7)] by (simp add: permutes_first_def)
qed

lemma heapify_permutes:
  assumes "length array = n * sz" "cnt \<le> n" "1 \<le> i"
  shows "permutes_first n sz cnt array (heapify array i cnt sz cmp)"
  using assms
proof (induction array i cnt sz cmp rule: heapify.induct)
  case (1 array i cnt sz cmp)
  let ?m = "heap_max array i cnt sz cmp"
  show ?case
  proof (cases "?m = i")
    case True
    then show ?thesis
      using 1 by (simp add: heapify.simps [of array] permutes_first_def)
  next
    case False
    then have m: "i < ?m" "?m \<le> cnt"
      using heap_max_range [of array i cnt sz cmp] 1(4) by auto
    then have sw: "permutes_first n sz cnt array (do_swap array i ?m sz)"
      using 1 by (intro do_swap_permutes) auto
    moreover have "length (do_swap array i ?m sz) = n * sz" "1 \<le> ?m"
      using sw m by (simp_all add: permutes_first_def)
    ultimately have "permutes_first n sz cnt (do_swap array i ?m sz) (heapify array i cnt sz cmp)"
      using 1(1) [OF refl False] 1(3) False by (simp add: heapify.simps [of array] Let_def)
    with sw show ?thesis
      by (rule permutes_first_trans)
  qed
qed

subsection \<open>Heapsort\<close>

lemma build_heap:
  assumes "strcmp_type cmp" "length array = cnt * sz" "heap_from cmp (elem_at array sz) cnt (k + 1)"
  shows "let ys = fold (\<lambda>i array. heapify array i cnt sz cmp) (rev [1..<k + 1]) array
    in permutes_first cnt sz cnt array ys \<and> heap_from cmp (elem_at ys sz) cnt 1"
  using assms
proof (induction k arbitrary: array)
  case 0
  then show ?case
    by (simp add: permutes_first_def)
next
  case (Suc k)
  let ?ys = "heapify array (Suc k) cnt sz cmp"
  have p: "permutes_first cnt sz cnt array ?ys"
    using Suc.prems by (intro heapify_permutes) auto
  have "heap_but cmp (elem_at array sz) cnt (Suc k) (Suc k)"
    using Suc.prems(3) by (auto simp: heap_but_def heap_from_def)
  then have "heap_from cmp (elem_at ?ys sz) cnt (Suc k)"
    using Suc.prems by (intro heapify_heap [where n = cnt]) auto
  with Suc.IH [of ?ys] Suc.prems(1) p permutes_first_trans [OF p] show ?case
    by (simp add: Let_def permutes_first_def)
qed

lemma heap_root:
  assumes "strcmp_type cmp" "heap_from cmp F i 1" "1 \<le> j" "j \<le> i"
  shows "cmp_le cmp (F j) (F 1)"
  using assms(3,4)
proof (induction j rule: less_induct)
  case (less j)
  show ?case
  proof (cases "j = 1")
    case True
    then show ?thesis
      using assms(1) by (simp add: cmp_le_refl)
  next
    case False
    let ?p = "j div 2"
    have p: "1 \<le> ?p" "?p < j" "j = 2 * ?p \<or> j = 2 * ?p + 1"
      using False less.prems(1) by auto
    then have "cmp_le cmp (F j) (F ?p)"
      using assms(2) less.prems(2) unfolding heap_from_def heap_node_def by blast
    moreover have "cmp_le cmp (F ?p) (F 1)"
      using less p by simp
    ultimately show ?thesis
      using assms(1) cmp_le_trans by blast
  qed
qed

definition heap_sorted :: "compare \<Rightarrow> (nat \<Rightarrow> 8 word list) \<Rightarrow> nat \<Rightarrow> nat \<Rightarrow> bool" where
  "heap_sorted cmp F cnt i \<longleftrightarrow> heap_from cmp F i 1
     \<and> (\<forall>a b. 1 \<le> a \<longrightarrow> a \<le> b \<longrightarrow> i < b \<longrightarrow> b \<le> cnt \<longrightarrow> cmp_le cmp (F a) (F b))"

lemma heap_but_root:
  assumes "heap_from cmp F i 1" and G: "\<And>j. 2 \<le> j \<Longrightarrow> j < i \<Longrightarrow> G j = F j"
  shows "heap_but cmp G (i - 1) 1 1"
proof -
  have "cmp_le cmp (G c) (G j)" if "1 \<le> j" "j \<noteq> 1" "c \<le> i - 1" "c = 2 * j \<or> c = 2 * j + 1" for j c
  proof -
    have "2 \<le> j" "j < i" "2 \<le> c" "c < i"
      using that by auto
    then have "G c = F c" "G j = F j" "c \<le> i"
      by (simp_all add: G)
    with assms(1) that show ?thesis
      unfolding heap_from_def heap_node_def by metis
  qed
  then show ?thesis
    unfolding heap_but_def heap_node_def by auto
qed

lemma extract_max:
  assumes "strcmp_type cmp" and len: "length array = cnt * sz" and i: "2 \<le> i" "i \<le> cnt"
    and F: "heap_sorted cmp (elem_at array sz) cnt i"
    and ys: "ys = heapify (do_swap array 1 i sz) 1 (i - 1) sz cmp"
  shows "permutes_first cnt sz cnt array ys \<and> heap_sorted cmp (elem_at ys sz) cnt (i - 1)"
proof -
  let ?F = "elem_at array sz" and ?xs = "do_swap array 1 i sz"
  have at: "elem_at ?xs sz j = (if j = 1 then ?F i else if j = i then ?F 1 else ?F j)" if "1 \<le> j" "j \<le> cnt" for j
    using i len that by (intro do_swap_at [where n = cnt]) auto
  have len': "length ?xs = cnt * sz"
    using i len by (intro do_swap_length) auto
  have p: "permutes_first cnt sz (i - 1) ?xs ys"
    unfolding ys using len' i by (intro heapify_permutes) auto
  have "permutes_first cnt sz cnt ?xs ys"
    by (rule permutes_first_mono [OF p]) (use i in auto)
  moreover have "permutes_first cnt sz cnt array ?xs"
    using len i by (intro do_swap_permutes) auto
  ultimately have perm: "permutes_first cnt sz cnt array ys"
    by (metis permutes_first_trans)
  have "heap_but cmp (elem_at ?xs sz) (i - 1) 1 1"
    using F i at unfolding heap_sorted_def by (intro heap_but_root [where F = ?F]) auto
  then have heap: "heap_from cmp (elem_at ys sz) (i - 1) 1"
    unfolding ys using assms(1) len' i by (intro heapify_heap [where n = cnt]) auto
  have root: "cmp_le cmp (?F a) (?F 1)" if "1 \<le> a" "a \<le> i" for a
    using F that unfolding heap_sorted_def by (intro heap_root [OF assms(1)]) auto
  have low: "\<exists>a'. 1 \<le> a' \<and> a' \<le> i \<and> elem_at ys sz a = ?F a'" if "1 \<le> a" "a \<le> i - 1" for a
  proof -
    have "content (elem_at ys sz) (i - 1) = content (elem_at ?xs sz) (i - 1)"
      using p by (simp add: permutes_first_def)
    moreover have "elem_at ys sz a \<in># content (elem_at ys sz) (i - 1)"
      using that by (auto simp: content_set)
    ultimately obtain a' where "1 \<le> a'" "a' \<le> i - 1" "elem_at ys sz a = elem_at ?xs sz a'"
      by (auto simp: content_set)
    then show ?thesis
      using i at [of a'] by (cases "a' = 1") (auto intro: exI [of _ i] exI [of _ a'])
  qed
  have high: "elem_at ys sz b = (if b = i then ?F 1 else ?F b)" if "i - 1 < b" "b \<le> cnt" for b
    using p that i at [of b] by (auto simp: permutes_first_def)
  have "cmp_le cmp (elem_at ys sz a) (elem_at ys sz b)" if ab: "1 \<le> a" "a \<le> b" "i - 1 < b" "b \<le> cnt" for a b
  proof -
    obtain a' where a': "1 \<le> a'" "a' \<le> b" "elem_at ys sz a = ?F a'"
    proof (cases "a \<le> i - 1")
      case True
      with low [of a] ab that show ?thesis
        by fastforce
    next
      case False
      then show ?thesis
        using high [of a] ab i that [of 1] that [of a] by (auto split: if_splits)
    qed
    show ?thesis
    proof (cases "b = i")
      case True
      then show ?thesis
        using high [of b] ab a' root [of a'] by simp
    next
      case False
      then show ?thesis
        using F high [of b] ab a' i by (auto simp: heap_sorted_def)
    qed
  qed
  with perm heap show ?thesis
    by (simp add: heap_sorted_def)
qed

lemma extract_all:
  assumes "strcmp_type cmp" "length array = cnt * sz" "i \<le> cnt" "heap_sorted cmp (elem_at array sz) cnt i"
  shows "let ys = fold (\<lambda>i array. heapify (do_swap array 1 i sz) 1 (i - 1) sz cmp) (rev [2..<i + 1]) array
    in permutes_first cnt sz cnt array ys \<and> heap_sorted cmp (elem_at ys sz) cnt (min i 1)"
  using assms(2-)
proof (induction i arbitrary: array)
  case 0
  then show ?case
    by (simp add: permutes_first_def)
next
  case (Suc i)
  show ?case
  proof (cases i)
    case 0
    with Suc.prems show ?thesis
      by (simp add: permutes_first_def)
  next
    case (Suc i')
    define ys where "ys = heapify (do_swap array 1 (Suc i) sz) 1 (Suc i - 1) sz cmp"
    have ys: "permutes_first cnt sz cnt array ys \<and> heap_sorted cmp (elem_at ys sz) cnt i"
      using extract_max [OF assms(1) Suc.prems(1) _ Suc.prems(2,3) ys_def] Suc by simp
    have "rev [2..<Suc i + 1] = Suc i # rev [2..<i + 1]"
      using Suc by simp
    then have "fold (\<lambda>i array. heapify (do_swap array 1 i sz) 1 (i - 1) sz cmp) (rev [2..<Suc i + 1]) array =
        fold (\<lambda>i array. heapify (do_swap array 1 i sz) 1 (i - 1) sz cmp) (rev [2..<i + 1]) ys"
      by (simp add: ys_def)
    with Suc.IH [of ys] ys Suc.prems Suc permutes_first_trans [of cnt sz cnt array ys] show ?thesis
      by (simp add: Let_def permutes_first_def)
  qed
qed

definition sorted_elems :: "compare \<Rightarrow> 8 word list \<Rightarrow> nat \<Rightarrow> nat \<Rightarrow> bool" where
  "sorted_elems cmp array cnt sz \<longleftrightarrow>
     (\<forall>a b. 1 \<le> a \<longrightarrow> a \<le> b \<longrightarrow> b \<le> cnt \<longrightarrow> cmp (elem_at array sz a) (elem_at array sz b) \<le> 0)"

lemma sort_array_sorts:
  assumes "strcmp_type cmp" "length bs = cnt * sz" "0 < sz"
  shows "\<exists>ys. sort_array (Some bs) cnt sz (Some cmp) = Some ys \<and> length ys = cnt * sz
    \<and> content (elem_at ys sz) cnt = content (elem_at bs sz) cnt \<and> sorted_elems cmp ys cnt sz"
proof -
  define xs where "xs = fold (\<lambda>i array. heapify array i cnt sz cmp) (rev [1..<cnt div 2 + 1]) bs"
  define ys where "ys = fold (\<lambda>i array. heapify (do_swap array 1 i sz) 1 (i - 1) sz cmp) (rev [2..<cnt + 1]) xs"
  have "heap_from cmp (elem_at bs sz) cnt (cnt div 2 + 1)"
    by (auto simp: heap_from_def heap_node_def)
  from build_heap [OF assms(1,2) this]
  have xs: "permutes_first cnt sz cnt bs xs" "heap_from cmp (elem_at xs sz) cnt 1"
    by (simp_all add: xs_def Let_def)
  then have "heap_sorted cmp (elem_at xs sz) cnt cnt"
    by (simp add: heap_sorted_def)
  moreover have "length xs = cnt * sz"
    using xs(1) by (simp add: permutes_first_def)
  ultimately have ys: "permutes_first cnt sz cnt xs ys" "heap_sorted cmp (elem_at ys sz) cnt (min cnt 1)"
    using extract_all [OF assms(1), of xs cnt sz cnt] by (simp_all add: ys_def Let_def)
  have "cmp_le cmp (elem_at ys sz a) (elem_at ys sz b)" if "1 \<le> a" "a \<le> b" "b \<le> cnt" for a b
  proof (cases "b = 1")
    case True
    then show ?thesis
      using that assms(1) by (simp add: cmp_le_refl)
  next
    case False
    then show ?thesis
      using ys(2) that by (auto simp: heap_sorted_def)
  qed
  then have "sorted_elems cmp ys cnt sz"
    by (simp add: sorted_elems_def cmp_le_def)
  moreover have "sort_array (Some bs) cnt sz (Some cmp) = Some ys"
    using assms(3) unfolding sort_array_def ys_def xs_def by simp
  ultimately show ?thesis
    using permutes_first_trans [OF xs(1) ys(1)] by (simp add: permutes_first_def)
qed

subsection \<open>Binary search\<close>

lemma cmp_gt_below: "strcmp_type cmp \<Longrightarrow> 0 < cmp k y \<Longrightarrow> cmp x y \<le> 0 \<Longrightarrow> 0 < cmp k x"
  unfolding strcmp_type_def by (meson linorder_not_less)

lemma cmp_lt_above: "strcmp_type cmp \<Longrightarrow> cmp k x < 0 \<Longrightarrow> cmp x y \<le> 0 \<Longrightarrow> cmp k y < 0"
  unfolding strcmp_type_def by (meson linorder_not_less)

lemma binary_loop_search:
  assumes cmp: "strcmp_type cmp" and sorted: "sorted_elems cmp array cnt sz" and sz: "0 < sz"
    and "lo \<le> hi" "hi \<le> cnt" "\<And>a. 1 \<le> a \<Longrightarrow> a \<le> lo \<Longrightarrow> 0 < cmp key (elem_at array sz a)"
    "\<And>a. hi < a \<Longrightarrow> a \<le> cnt \<Longrightarrow> cmp key (elem_at array sz a) < 0"
  shows "\<exists>r. binary_loop key array sz cmp (lo * sz) (hi * sz) = Some r \<and>
    (case r of None \<Rightarrow> \<forall>a. 1 \<le> a \<longrightarrow> a \<le> cnt \<longrightarrow> cmp key (elem_at array sz a) \<noteq> 0
     | Some p \<Rightarrow> \<exists>a. 1 \<le> a \<and> a \<le> cnt \<and> p = (a - 1) * sz \<and> cmp key (elem_at array sz a) = 0)"
  using assms(4-)
proof (induction "hi - lo" arbitrary: lo hi rule: less_induct)
  case less
  show ?case
  proof (cases "lo < hi")
    case False
    then have "cmp key (elem_at array sz a) \<noteq> 0" if "1 \<le> a" "a \<le> cnt" for a
      using less.prems(3) [of a] less.prems(4) [of a] that by (cases "a \<le> lo") auto
    moreover have "binary_loop key array sz cmp (lo * sz) (hi * sz) = Some None"
      using False less.prems(1) by (subst binary_loop.simps) simp
    ultimately show ?thesis
      by simp
  next
    case True
    define mid where "mid = lo + (hi - lo) div 2"
    have mid: "lo \<le> mid" "mid < hi" "lo * sz + (hi * sz - lo * sz) div sz div 2 * sz = mid * sz"
      using True sz by (simp_all add: mid_def add_mult_distrib flip: diff_mult_distrib)
    let ?c = "cmp key (elem_at array sz (mid + 1))"
    have unroll: "binary_loop key array sz cmp (lo * sz) (hi * sz) =
        (if ?c < 0 then binary_loop key array sz cmp (lo * sz) (mid * sz)
         else if ?c > 0 then binary_loop key array sz cmp ((mid + 1) * sz) (hi * sz)
         else Some (Some (mid * sz)))"
      using True sz by (subst binary_loop.simps) (simp add: Let_def mid(3) elem_at_def add.commute)
    have below: "0 < cmp key (elem_at array sz a)" if "0 < ?c" "1 \<le> a" "a \<le> mid + 1" for a
      by (rule cmp_gt_below [OF cmp that(1)]) (use sorted that less.prems(2) mid(2) in \<open>auto simp: sorted_elems_def\<close>)
    have above: "cmp key (elem_at array sz a) < 0" if "?c < 0" "mid < a" "a \<le> cnt" for a
      by (rule cmp_lt_above [OF cmp that(1)]) (use sorted that in \<open>auto simp: sorted_elems_def\<close>)
    consider "?c < 0" | "?c > 0" | "?c = 0"
      by linarith
    then show ?thesis
    proof cases
      case 1
      then show ?thesis
        using less.hyps [of mid lo] less.prems mid above by (simp add: unroll)
    next
      case 2
      then have "binary_loop key array sz cmp (lo * sz) (hi * sz) = binary_loop key array sz cmp ((mid + 1) * sz) (hi * sz)"
        by (simp only: unroll if_False if_True not_less_iff_gr_or_eq split: if_splits) simp
      moreover have "hi - (mid + 1) < hi - lo" "mid + 1 \<le> hi"
        using mid by linarith+
      ultimately show ?thesis
        using less.hyps [of hi "mid + 1"] less.prems(2,4) below [OF 2] by presburger
    next
      case 3
      then show ?thesis
        using mid less.prems(2) by (auto simp: unroll intro!: exI [of _ "mid + 1"])
    qed
  qed
qed

lemma qsort_eq: "qsort array cnt sz (Some cmp) = sort_array array cnt sz (Some cmp)"
  by (simp add: qsort_def compare_thunk_def)

text \<open>C25: Heapsort sorts: for every comparison function that returns a \<^verbatim>\<open>strcmp()\<close>-type result,
  \<^verbatim>\<open>sort\<close> and \<^verbatim>\<open>qsort\<close> return an array with the same elements, with the same
  multiplicities, in ascending order. A null comparison function or a zero element size is a
  panic.\<close>

theorem sort_correct:
  assumes "strcmp_type cmp" "length bs = cnt * sz" "0 < sz"
  shows "(\<exists>ys. sort_array (Some bs) cnt sz (Some cmp) = Some ys \<and> qsort (Some bs) cnt sz (Some cmp) = Some ys
      \<and> length ys = cnt * sz \<and> content (elem_at ys sz) cnt = content (elem_at bs sz) cnt
      \<and> sorted_elems cmp ys cnt sz)
    \<and> sort_array (Some bs) cnt sz None = None \<and> sort_array (Some bs) cnt 0 (Some cmp) = None"
  using sort_array_sorts [OF assms] by (auto simp: qsort_eq sort_array_def)

definition first_byte_cmp :: compare where
  "first_byte_cmp a b = int (unat (hd a)) - int (unat (hd b))"

lemma first_byte_cmp_type: "strcmp_type first_byte_cmp"
  by (auto simp: strcmp_type_def first_byte_cmp_def)

theorem sort_correct_witness:
  "strcmp_type first_byte_cmp \<and> (\<exists>ys. qsort (Some [3, 4, 1, 2]) 2 2 (Some first_byte_cmp) = Some ys
     \<and> sorted_elems first_byte_cmp ys 2 2)"
  using sort_correct [OF first_byte_cmp_type, of "[3, 4, 1, 2]" 2 2] first_byte_cmp_type by auto

text \<open>C26: Binary search on a sorted array always returns: either the address of an element equal to the key,
  or, when no element equals it, a null pointer.\<close>

theorem binary_search_total:
  assumes "strcmp_type cmp" "sorted_elems cmp array cnt sz" "0 < sz"
  shows "\<exists>r. binary_search key array cnt sz cmp = Some r \<and> bsearch key array cnt sz (Some cmp) = Some r \<and>
    (case r of None \<Rightarrow> \<forall>a. 1 \<le> a \<longrightarrow> a \<le> cnt \<longrightarrow> cmp key (elem_at array sz a) \<noteq> 0
     | Some p \<Rightarrow> \<exists>a. 1 \<le> a \<and> a \<le> cnt \<and> p = (a - 1) * sz \<and> cmp key (elem_at array sz a) = 0)"
  using binary_loop_search [OF assms, of 0 cnt key]
  by (simp add: bsearch_def binary_search_def compare_thunk_def mult.commute)

lemma two_elems_sorted: "sorted_elems first_byte_cmp [1, 2, 3, 4] 2 2"
proof -
  have "first_byte_cmp (elem_at [1, 2, 3, 4] 2 a) (elem_at [1, 2, 3, 4] 2 b) \<le> 0" if ab: "1 \<le> a" "a \<le> b" "b \<le> 2" for a b
  proof -
    consider "a = 1" "b = 1" | "a = 1" "b = 2" | "a = 2" "b = 2"
      using ab by linarith
    then show ?thesis
      by cases (simp_all add: first_byte_cmp_def elem_at_def)
  qed
  then show ?thesis
    by (simp add: sorted_elems_def)
qed

theorem binary_search_total_witness:
  "strcmp_type first_byte_cmp \<and> sorted_elems first_byte_cmp [1, 2, 3, 4] 2 2
   \<and> (\<exists>r. binary_search [3, 0] [1, 2, 3, 4] 2 2 first_byte_cmp = Some r)"
  using binary_search_total [OF first_byte_cmp_type two_elems_sorted, of "[3, 0]"] first_byte_cmp_type two_elems_sorted
  by auto

end
