(* ===== verification/Page_Alloc.thy ===== *)
theory Page_Alloc
  imports Bitmaps C_Strings Virtual_Addresses
begin

section \<open>The page allocator (\<^verbatim>\<open>threads/palloc.c\<close>)\<close>

text \<open>
  Pages are handed out from two pools, each with a bitmap of its used pages. A call runs from
  a state in which no other thread is inside the allocator: the lock of a pool is a flag, and
  acquiring it while it is set is the value \<^term>\<open>None\<close>, like a panic. The memory
  map that the boot loader leaves is the list of its entries; the address of the end of the kernel
  image and the contents of memory before the bitmaps are set up are arguments.
\<close>

record pool =
  pool_lock :: bool
  used_map :: bitmap
  base :: ptr

record palloc =
  kernel_pool :: pool
  user_pool :: pool
  pal_mem :: mem

definition PAL_ASSERT :: "32 word" where "PAL_ASSERT = 1"
definition PAL_ZERO :: "32 word" where "PAL_ZERO = 2"
definition PAL_USER :: "32 word" where "PAL_USER = 4"

definition pool_acquire :: "pool \<Rightarrow> pool option" where
  "pool_acquire p = do { ASSERT (\<not> pool_lock p); Some (p\<lparr>pool_lock := True\<rparr>) }"

definition pool_release :: "pool \<Rightarrow> pool option" where
  "pool_release p = do { ASSERT (pool_lock p); Some (p\<lparr>pool_lock := False\<rparr>) }"

definition pool_of :: "bool \<Rightarrow> palloc \<Rightarrow> pool" where
  "pool_of user s = (if user then user_pool s else kernel_pool s)"

definition set_pool :: "bool \<Rightarrow> pool \<Rightarrow> palloc \<Rightarrow> palloc" where
  "set_pool user p s = (if user then s\<lparr>user_pool := p\<rparr> else s\<lparr>kernel_pool := p\<rparr>)"

definition page_from_pool :: "pool \<Rightarrow> ptr \<Rightarrow> bool" where
  "page_from_pool pool page =
     (let page_no = pg_no page;
          start_page = pg_no (base pool);
          end_page = start_page + of_nat (bitmap_size (used_map pool))
      in page_no \<ge> start_page \<and> page_no < end_page)"

definition palloc_get_multiple :: "32 word \<Rightarrow> nat \<Rightarrow> palloc \<Rightarrow> (ptr \<times> palloc) option" where
  "palloc_get_multiple flags page_cnt s = do {
     let user = (flags AND PAL_USER \<noteq> 0);
     pool \<leftarrow> pool_acquire (pool_of user s);
     (page_idx, b) \<leftarrow> bitmap_scan_and_flip (used_map pool) 0 page_cnt False;
     pool \<leftarrow> pool_release (pool\<lparr>used_map := b\<rparr>);
     let s = set_pool user pool s;
     let pages = (if page_idx \<noteq> BITMAP_ERROR then base pool + of_nat (PGSIZE * page_idx) else NULL);
     if pages \<noteq> NULL then
       if flags AND PAL_ZERO \<noteq> 0 then do {
         (_, m) \<leftarrow> memset pages 0 (size_wrap (PGSIZE * page_cnt)) (pal_mem s);
         Some (pages, s\<lparr>pal_mem := m\<rparr>)
       } else Some (pages, s)
     else if flags AND PAL_ASSERT \<noteq> 0 then None
     else Some (pages, s)
   }"

definition palloc_get_page :: "32 word \<Rightarrow> palloc \<Rightarrow> (ptr \<times> palloc) option" where
  "palloc_get_page flags s = palloc_get_multiple flags 1 s"

definition palloc_free_multiple :: "ptr \<Rightarrow> nat \<Rightarrow> palloc \<Rightarrow> palloc option" where
  "palloc_free_multiple pages page_cnt s = do {
     ASSERT (pg_ofs pages = 0);
     if pages = NULL \<or> page_cnt = 0 then Some s
     else do {
       user \<leftarrow> (if page_from_pool (kernel_pool s) pages then Some False
               else if page_from_pool (user_pool s) pages then Some True
               else None);
       let page_idx = unat (pg_no pages - pg_no (base (pool_of user s)));
       (_, m) \<leftarrow> memset pages 0xcc (size_wrap (PGSIZE * page_cnt)) (pal_mem s);
       pool \<leftarrow> pool_acquire (pool_of user s);
       used \<leftarrow> bitmap_all (used_map pool) page_idx page_cnt;
       ASSERT used;
       b \<leftarrow> bitmap_set_multiple (used_map pool) page_idx page_cnt False;
       pool \<leftarrow> pool_release (pool\<lparr>used_map := b\<rparr>);
       Some (set_pool user pool (s\<lparr>pal_mem := m\<rparr>))
     }
   }"

definition palloc_free_page :: "ptr \<Rightarrow> palloc \<Rightarrow> palloc option" where
  "palloc_free_page page s = palloc_free_multiple page 1 s"

subsection \<open>Setting up the pools\<close>

record e820_entry =
  e_size :: "32 word"
  mem_lo :: "32 word"
  mem_hi :: "32 word"
  len_lo :: "32 word"
  len_hi :: "32 word"
  e_type :: "32 word"

record area =
  a_start :: "64 word"
  a_end :: "64 word"
  a_size :: "64 word"

definition BASE_MEM_THRESHOLD :: "64 word" where "BASE_MEM_THRESHOLD = 0x100000"
definition USABLE :: "32 word" where "USABLE = 1"
definition ACPI_RECLAIMABLE :: "32 word" where "ACPI_RECLAIMABLE = 2"

definition APPEND_HILO :: "32 word \<Rightarrow> 32 word \<Rightarrow> 64 word" where
  "APPEND_HILO hi lo = push_bit 32 (ucast hi) + ucast lo"

definition extend_area :: "64 word \<Rightarrow> 64 word \<Rightarrow> 64 word \<Rightarrow> area \<Rightarrow> area" where
  "extend_area start en sz a =
     (if a_size a = 0 then \<lparr>a_start = start, a_end = en, a_size = sz\<rparr>
      else
        let a = (if a_start a > start then a\<lparr>a_start := start\<rparr> else a);
            a = (if a_end a < en then a\<lparr>a_end := en\<rparr> else a)
        in a\<lparr>a_size := a_size a + sz\<rparr>)"

definition resolve_entry :: "e820_entry \<Rightarrow> area \<times> area \<Rightarrow> area \<times> area" where
  "resolve_entry entry ar =
     (let (base_mem, ext_mem) = ar;
          start = APPEND_HILO (mem_hi entry) (mem_lo entry);
          sz = APPEND_HILO (len_hi entry) (len_lo entry);
          en = start + sz
      in if start < BASE_MEM_THRESHOLD then (extend_area start en sz base_mem, ext_mem)
         else (base_mem, extend_area start en sz ext_mem))"

definition resolve_area_info :: "e820_entry list \<Rightarrow> area \<times> area \<Rightarrow> area \<times> area" where
  "resolve_area_info entries ar = fold resolve_entry entries ar"

definition init_pool :: "(ptr \<Rightarrow> 64 word) \<Rightarrow> ptr \<Rightarrow> 64 word \<Rightarrow> 64 word \<Rightarrow> (pool \<times> ptr) option" where
  "init_pool words bm_base start en = do {
     let pgcnt = unat (en - start) div PGSIZE;
     let bm_pages = DIV_ROUND_UP (bitmap_buf_size pgcnt) PGSIZE * PGSIZE;
     b \<leftarrow> bitmap_create_in_buf pgcnt (map (\<lambda>i. words (bm_base + 16 + of_nat (8 * i))) [0..<elem_cnt pgcnt]) bm_pages;
     b \<leftarrow> bitmap_set_all b True;
     Some (\<lparr>pool_lock = False, used_map = b, base = start\<rparr>, bm_base + of_nat bm_pages)
   }"

text \<open>
  The state of the loop that splits the memory map into the two pools. Before
  \<^verbatim>\<open>init_pool\<close> runs on a pool its bitmap is a null pointer: then the pool is
  \<^term>\<open>None\<close>, and using it is a panic.
\<close>

datatype pool_state = KERN_START | KERN | USER_START | USER

record pools_scan =
  ps_state :: pool_state
  ps_rem :: "64 word"
  ps_region_start :: "64 word"
  ps_end :: "64 word"
  ps_free_start :: ptr
  ps_kernel :: "pool option"

definition usable :: "e820_entry \<Rightarrow> bool" where
  "usable entry \<longleftrightarrow> e_type entry = ACPI_RECLAIMABLE \<or> e_type entry = USABLE"

definition entry_start :: "e820_entry \<Rightarrow> 64 word" where
  "entry_start entry = ptov (APPEND_HILO (mem_hi entry) (mem_lo entry))"

definition entry_size :: "e820_entry \<Rightarrow> 64 word" where
  "entry_size entry = APPEND_HILO (len_hi entry) (len_lo entry)"

definition enter_region :: "64 word \<Rightarrow> 64 word \<Rightarrow> pools_scan \<Rightarrow> pools_scan" where
  "enter_region start sz ps =
     (let ps = ps\<lparr>ps_end := start + sz\<rparr>
      in if ps_state ps = KERN_START then ps\<lparr>ps_region_start := start, ps_state := KERN\<rparr> else ps)"

definition claim_region ::
  "(ptr \<Rightarrow> 64 word) \<Rightarrow> 64 word \<Rightarrow> 64 word \<Rightarrow> 64 word \<Rightarrow> pools_scan \<Rightarrow> pools_scan option" where
  "claim_region words user_pages start sz ps =
     (let size_in_pg = sz div of_nat PGSIZE
      in case ps_state ps of
          KERN \<Rightarrow>
            if ps_rem ps > size_in_pg then Some (ps\<lparr>ps_rem := ps_rem ps - size_in_pg\<rparr>)
            else do {
              (pool, free_start) \<leftarrow> init_pool words (ps_free_start ps) (ps_region_start ps)
                                     (start + ps_rem ps * of_nat PGSIZE);
              let ps = ps\<lparr>ps_kernel := Some pool, ps_free_start := free_start\<rparr>;
              Some (if ps_rem ps = size_in_pg then ps\<lparr>ps_rem := user_pages, ps_state := USER_START\<rparr>
                    else ps\<lparr>ps_region_start := start + ps_rem ps * of_nat PGSIZE,
                            ps_rem := user_pages - size_in_pg + ps_rem ps, ps_state := USER\<rparr>)
            }
        | USER_START \<Rightarrow> Some (ps\<lparr>ps_region_start := start, ps_state := USER\<rparr>)
        | USER \<Rightarrow>
            if ps_rem ps > size_in_pg then Some (ps\<lparr>ps_rem := ps_rem ps - size_in_pg\<rparr>)
            else do { ASSERT (ps_rem ps = sz); Some ps }
        | KERN_START \<Rightarrow> None)"

definition scan_entry :: "(ptr \<Rightarrow> 64 word) \<Rightarrow> 64 word \<Rightarrow> e820_entry \<Rightarrow> pools_scan \<Rightarrow> pools_scan option" where
  "scan_entry words user_pages entry ps =
     (if usable entry then
        let start = entry_start entry; sz = entry_size entry
        in claim_region words user_pages start sz (enter_region start sz ps)
      else Some ps)"

fun scan_entries :: "(ptr \<Rightarrow> 64 word) \<Rightarrow> 64 word \<Rightarrow> e820_entry list \<Rightarrow> pools_scan \<Rightarrow> pools_scan option" where
  "scan_entries words user_pages [] ps = Some ps"
| "scan_entries words user_pages (entry # entries) ps = do {
     ps \<leftarrow> scan_entry words user_pages entry ps;
     scan_entries words user_pages entries ps
   }"

text \<open>Marking the pages of a region as usable: the code from the label \<^verbatim>\<open>split\<close> on.\<close>

definition split_once :: "64 word \<Rightarrow> 64 word \<Rightarrow> pool option \<times> pool \<Rightarrow> (64 word \<times> pool option \<times> pool) option" where
  "split_once start en ku = do {
     kernel \<leftarrow> fst ku;
     user \<leftarrow> (if page_from_pool kernel start then Some False
             else if page_from_pool (snd ku) start then Some True
             else None);
     let pool = (if user then snd ku else kernel);
     let pool_end = base pool + of_nat (bitmap_size (used_map pool) * PGSIZE);
     let page_idx = unat (pg_no start - pg_no (base pool));
     let page_cnt = unat ((if pool_end < en then pool_end else en) - start) div PGSIZE;
     b \<leftarrow> bitmap_set_multiple (used_map pool) page_idx page_cnt False;
     let pool = pool\<lparr>used_map := b\<rparr>;
     Some (pool_end, if user then (fst ku, pool) else (Some pool, snd ku))
   }"

partial_function (option) split_region :: "64 word \<Rightarrow> 64 word \<Rightarrow> pool option \<times> pool \<Rightarrow> (pool option \<times> pool) option" where
  "split_region start en ku = do {
     (pool_end, ku) \<leftarrow> split_once start en ku;
     if pool_end < en then split_region pool_end en ku else Some ku
   }"

declare split_region.simps [code]

definition setup_entry :: "64 word \<Rightarrow> e820_entry \<Rightarrow> pool option \<times> pool \<Rightarrow> (pool option \<times> pool) option" where
  "setup_entry usable_bound entry ku =
     (if usable entry then
        let start = entry_start entry;
            en = start + entry_size entry
        in if en < usable_bound then Some ku
           else split_region (pg_round_up (if start \<ge> usable_bound then start else usable_bound)) en ku
      else Some ku)"

fun setup_entries :: "64 word \<Rightarrow> e820_entry list \<Rightarrow> pool option \<times> pool \<Rightarrow> (pool option \<times> pool) option" where
  "setup_entries usable_bound [] ku = Some ku"
| "setup_entries usable_bound (entry # entries) ku = do {
     ku \<leftarrow> setup_entry usable_bound entry ku;
     setup_entries usable_bound entries ku
   }"

definition user_pages_of :: "64 word \<Rightarrow> 64 word \<Rightarrow> 64 word" where
  "user_pages_of user_page_limit total_pages =
     (if total_pages div 2 > user_page_limit then user_page_limit else total_pages div 2)"

definition populate_pools ::
  "ptr \<Rightarrow> 64 word \<Rightarrow> (ptr \<Rightarrow> 64 word) \<Rightarrow> e820_entry list \<Rightarrow> area \<Rightarrow> area \<Rightarrow> (pool option \<times> pool) option" where
  "populate_pools end_addr user_page_limit words entries base_mem ext_mem = do {
     let free_start = pg_round_up end_addr;
     let total_pages = (a_size base_mem + a_size ext_mem) div of_nat PGSIZE;
     let user_pages = user_pages_of user_page_limit total_pages;
     let kern_pages = total_pages - user_pages;
     ps \<leftarrow> scan_entries words user_pages entries
            \<lparr>ps_state = KERN_START, ps_rem = kern_pages, ps_region_start = 0, ps_end = 0,
             ps_free_start = free_start, ps_kernel = None\<rparr>;
     (user, free_start) \<leftarrow> init_pool words (ps_free_start ps) (ps_region_start ps) (ps_end ps);
     setup_entries free_start entries (ps_kernel ps, user)
   }"

definition palloc_init ::
  "ptr \<Rightarrow> 64 word \<Rightarrow> (ptr \<Rightarrow> 64 word) \<Rightarrow> e820_entry list \<Rightarrow> (64 word \<times> pool option \<times> pool) option" where
  "palloc_init end_addr user_page_limit words entries = do {
     let empty_area = \<lparr>a_start = 0, a_end = 0, a_size = 0\<rparr>;
     let (base_mem, ext_mem) = resolve_area_info entries (empty_area, empty_area);
     ku \<leftarrow> populate_pools end_addr user_page_limit words entries base_mem ext_mem;
     Some (a_end ext_mem, ku)
   }"

subsection \<open>Pages of a pool\<close>

definition pool_ok :: "pool \<Rightarrow> bool" where
  "pool_ok p \<longleftrightarrow> wf_bitmap (used_map p) \<and> pg_ofs (base p) = 0 \<and> base p \<noteq> NULL
     \<and> unat (base p) + PGSIZE * bit_cnt (used_map p) < 2 ^ 64 \<and> \<not> pool_lock p"

definition pool_end :: "pool \<Rightarrow> nat" where
  "pool_end p = unat (base p) + PGSIZE * bit_cnt (used_map p)"

definition palloc_ok :: "palloc \<Rightarrow> bool" where
  "palloc_ok s \<longleftrightarrow> pool_ok (kernel_pool s) \<and> pool_ok (user_pool s)
     \<and> (pool_end (kernel_pool s) \<le> unat (base (user_pool s)) \<or> pool_end (user_pool s) \<le> unat (base (kernel_pool s)))"

definition page_addr :: "pool \<Rightarrow> nat \<Rightarrow> ptr" where
  "page_addr p i = base p + of_nat (PGSIZE * i)"

definition page_run :: "ptr \<Rightarrow> nat \<Rightarrow> ptr set" where
  "page_run a n = (\<lambda>j. a + of_nat (PGSIZE * j)) ` {..<n}"

definition free_pages :: "pool \<Rightarrow> ptr set" where
  "free_pages p = page_addr p ` {i. i < bit_cnt (used_map p) \<and> \<not> bits_of (used_map p) ! i}"

lemma PGSIZE_pos [simp]: "0 < PGSIZE"
  by (simp add: PGSIZE_eq)

lemma pool_ok_aligned: "pool_ok p \<Longrightarrow> unat (base p) mod PGSIZE = 0"
  unfolding pool_ok_def by (metis unat_pg_ofs unat_0)

lemma unat_page_addr:
  assumes "pool_ok p" "i \<le> bit_cnt (used_map p)"
  shows "unat (page_addr p i) = unat (base p) + PGSIZE * i"
proof -
  have "PGSIZE * i \<le> PGSIZE * bit_cnt (used_map p)"
    using assms(2) by simp
  moreover have "unat (base p) + PGSIZE * bit_cnt (used_map p) < 2 ^ 64"
    using assms(1) by (simp add: pool_ok_def)
  ultimately have "unat (base p) + PGSIZE * i < 2 ^ 64"
    by linarith
  then show ?thesis
    unfolding page_addr_def by (rule unat_add_nat)
qed

lemma page_addr_aligned: "pool_ok p \<Longrightarrow> i \<le> bit_cnt (used_map p) \<Longrightarrow> pg_ofs (page_addr p i) = 0"
  using pool_ok_aligned [of p] by (simp add: word_unat_eq_iff unat_pg_ofs unat_page_addr)

lemma page_addr_nonnull: "pool_ok p \<Longrightarrow> i \<le> bit_cnt (used_map p) \<Longrightarrow> page_addr p i \<noteq> NULL"
  using unat_page_addr [of p i] by (auto simp: pool_ok_def word_unat_eq_iff)

lemma page_addr_inj:
  assumes "pool_ok p" "i \<le> bit_cnt (used_map p)" "j \<le> bit_cnt (used_map p)"
  shows "page_addr p i = page_addr p j \<longleftrightarrow> i = j"
proof
  assume "page_addr p i = page_addr p j"
  then have "unat (base p) + PGSIZE * i = unat (base p) + PGSIZE * j"
    by (metis unat_page_addr [OF assms(1,2)] unat_page_addr [OF assms(1,3)])
  then show "i = j"
    by (simp add: PGSIZE_eq)
qed simp

lemma page_addr_add: "page_addr p i + of_nat (PGSIZE * j) = page_addr p (i + j)"
  by (simp add: page_addr_def algebra_simps)

lemma page_from_pool_iff:
  assumes "pool_ok p"
  shows "page_from_pool p a \<longleftrightarrow> unat (base p) \<le> unat a \<and> unat a < pool_end p"
proof -
  define B n where "B = unat (base p) div PGSIZE" and "n = bit_cnt (used_map p)"
  have b: "unat (base p) = PGSIZE * B"
    using pool_ok_aligned [OF assms] by (simp add: B_def mod_0_imp_dvd)
  have lt: "PGSIZE * (B + n) < 2 ^ 64"
    using assms b by (simp add: pool_ok_def n_def distrib_left)
  then have "B + n < 2 ^ 64"
    by (simp add: PGSIZE_eq)
  then have "unat (pg_no (base p) + of_nat n) = B + n"
    by (subst unat_add_nat) (simp_all add: unat_pg_no B_def)
  then have "page_from_pool p a \<longleftrightarrow> B \<le> unat a div PGSIZE \<and> unat a div PGSIZE < B + n"
    by (simp add: page_from_pool_def Let_def bitmap_size_def word_le_nat_alt word_less_nat_alt unat_pg_no B_def n_def)
  also have "\<dots> \<longleftrightarrow> PGSIZE * B \<le> unat a \<and> unat a < PGSIZE * (B + n)"
    by (simp add: less_eq_div_iff_mult_less_eq div_less_iff_less_mult mult.commute)
  finally show ?thesis
    by (simp add: pool_end_def b n_def distrib_left)
qed

lemma page_idx_eq:
  assumes "pool_ok p" "i \<le> bit_cnt (used_map p)"
  shows "unat (pg_no (page_addr p i) - pg_no (base p)) = i"
proof -
  have "unat (pg_no (page_addr p i)) = unat (pg_no (base p)) + i"
    using pool_ok_aligned [OF assms(1)] by (simp add: unat_pg_no unat_page_addr [OF assms])
  then show ?thesis
    by (simp add: unat_sub word_le_nat_alt)
qed

lemma pool_acquire_ok: "\<not> pool_lock p \<Longrightarrow> pool_acquire p = Some (p\<lparr>pool_lock := True\<rparr>)"
  by (simp add: pool_acquire_def)

lemma pool_release_ok: "\<not> pool_lock p \<Longrightarrow> pool_release (p\<lparr>pool_lock := True, used_map := b\<rparr>) = Some (p\<lparr>used_map := b\<rparr>)"
  by (simp add: pool_release_def)

lemma pool_ok_upd: "pool_ok p \<Longrightarrow> wf_bitmap b \<Longrightarrow> bit_cnt b = bit_cnt (used_map p) \<Longrightarrow> pool_ok (p\<lparr>used_map := b\<rparr>)"
  by (simp add: pool_ok_def)

lemma page_run_eq: "page_run (page_addr p k) n = page_addr p ` {k..<k + n}"
proof -
  have "{k..<k + n} = (\<lambda>j. k + j) ` {..<n}"
    by (simp add: lessThan_atLeast0 add.commute)
  then show ?thesis
    unfolding page_run_def page_addr_add by (simp only: image_image)
qed

lemma free_pages_upd:
  assumes "pool_ok p" "k + n \<le> bit_cnt (used_map p)" "bit_cnt b = bit_cnt (used_map p)"
    and "bits_of b = set_range (bits_of (used_map p)) k n v"
  shows "free_pages (p\<lparr>used_map := b\<rparr>) =
    (if v then free_pages p - page_run (page_addr p k) n else free_pages p \<union> page_run (page_addr p k) n)"
proof -
  let ?n = "bit_cnt (used_map p)" and ?bs = "bits_of (used_map p)"
  have bit: "bits_of b ! i \<longleftrightarrow> (if k \<le> i \<and> i < k + n then v else ?bs ! i)" if "i < ?n" for i
    using that assms(2,4) by (simp add: nth_set_range)
  have inj: "inj_on (page_addr p) {..?n}"
    by (rule inj_onI) (use page_addr_inj [OF assms(1)] in auto)
  have "page_addr (p\<lparr>used_map := b\<rparr>) = page_addr p"
    by (rule ext) (simp add: page_addr_def)
  then have eq: "free_pages (p\<lparr>used_map := b\<rparr>) = page_addr p ` {i. i < ?n \<and> \<not> bits_of b ! i}"
    by (simp add: free_pages_def assms(3))
  have sub: "{i. i < ?n \<and> \<not> ?bs ! i} \<subseteq> {..?n}" "{k..<k + n} \<subseteq> {..?n}"
    using assms(2) by auto
  show ?thesis
  proof (cases v)
    case True
    then have "i < ?n \<and> \<not> bits_of b ! i \<longleftrightarrow> i < ?n \<and> \<not> ?bs ! i \<and> i \<notin> {k..<k + n}" for i
      using bit [of i] by (cases "i < ?n") (simp_all only: if_split atLeastLessThan_iff, blast+)
    then have "{i. i < ?n \<and> \<not> bits_of b ! i} = {i. i < ?n \<and> \<not> ?bs ! i} - {k..<k + n}"
      by blast
    moreover have "page_addr p ` ({i. i < ?n \<and> \<not> ?bs ! i} - {k..<k + n}) = free_pages p - page_run (page_addr p k) n"
      unfolding free_pages_def page_run_eq by (rule inj_on_image_set_diff [OF inj]) (use sub in auto)
    ultimately show ?thesis
      using True unfolding eq by (simp only: if_True)
  next
    case False
    then have "i < ?n \<and> \<not> bits_of b ! i \<longleftrightarrow> i < ?n \<and> \<not> ?bs ! i \<or> i \<in> {k..<k + n}" for i
      using bit [of i] sub(2) assms(2) by (cases "i < ?n") auto
    then have "{i. i < ?n \<and> \<not> bits_of b ! i} = {i. i < ?n \<and> \<not> ?bs ! i} \<union> {k..<k + n}"
      by blast
    then show ?thesis
      using False unfolding eq unfolding free_pages_def page_run_eq by (simp only: if_False image_Un)
  qed
qed

subsection \<open>Allocating and freeing\<close>

definition in_block :: "ptr \<Rightarrow> nat \<Rightarrow> ptr \<Rightarrow> bool" where
  "in_block p n a \<longleftrightarrow> (\<exists>i < n. a = p + of_nat i)"

definition fill :: "ptr \<Rightarrow> nat \<Rightarrow> 8 word \<Rightarrow> mem \<Rightarrow> mem" where
  "fill p n v m a = (if in_block p n a then v else m a)"

lemma memset_eq: "p \<noteq> NULL \<Longrightarrow> memset p v n m = Some (p, fill p n (of_int v) m)"
  unfolding memset_def in_block_def fill_def [abs_def] by (simp add: fun_eq_iff memset_loop_at)

definition wants_user :: "32 word \<Rightarrow> bool" where
  "wants_user flags \<longleftrightarrow> flags AND PAL_USER \<noteq> 0"

lemma pool_of_set_pool: "pool_of u (set_pool v p s) = (if u = v then p else pool_of u s)"
  by (simp add: pool_of_def set_pool_def)

lemma pal_mem_set_pool [simp]: "pal_mem (set_pool u p s) = pal_mem s"
  by (simp add: set_pool_def)

lemma set_pool_same: "(set_pool u p s)\<lparr>pal_mem := pal_mem s\<rparr> = set_pool u p s"
  by (simp add: set_pool_def)

lemma set_pool_mem: "set_pool u p (s\<lparr>pal_mem := m\<rparr>) = (set_pool u p s)\<lparr>pal_mem := m\<rparr>"
  by (simp add: set_pool_def)

lemma palloc_ok_pool: "palloc_ok s \<Longrightarrow> pool_ok (pool_of u s)"
  by (simp add: palloc_ok_def pool_of_def)

lemma palloc_ok_upd:
  "palloc_ok s \<Longrightarrow> wf_bitmap b \<Longrightarrow> bit_cnt b = bit_cnt (used_map (pool_of u s)) \<Longrightarrow>
   palloc_ok (set_pool u ((pool_of u s)\<lparr>used_map := b\<rparr>) s)"
  by (cases u) (simp_all add: palloc_ok_def set_pool_def pool_of_def pool_ok_def pool_end_def)

lemma palloc_ok_mem [simp]: "palloc_ok (s\<lparr>pal_mem := m\<rparr>) = palloc_ok s" "pool_of u (s\<lparr>pal_mem := m\<rparr>) = pool_of u s"
  by (simp_all add: palloc_ok_def pool_of_def)

lemma size_wrap_pages:
  assumes "pool_ok p" "n \<le> bit_cnt (used_map p)"
  shows "size_wrap (PGSIZE * n) = PGSIZE * n"
proof -
  have "PGSIZE * n \<le> PGSIZE * bit_cnt (used_map p)"
    using assms(2) by simp
  then have "PGSIZE * n < 2 ^ 64"
    using assms(1) unfolding pool_ok_def by linarith
  then show ?thesis
    by (simp add: size_wrap_def)
qed

lemma palloc_get_found:
  assumes s: "palloc_ok s" and p: "p = pool_of (wants_user flags) s"
    and g: "\<exists>i. group_at (bits_of (used_map p)) cnt i False"
  shows "\<exists>k b. palloc_get_multiple flags cnt s = Some (page_addr p k,
        (set_pool (wants_user flags) (p\<lparr>used_map := b\<rparr>) s)
          \<lparr>pal_mem := (if flags AND PAL_ZERO \<noteq> 0 then fill (page_addr p k) (PGSIZE * cnt) 0 (pal_mem s) else pal_mem s)\<rparr>)
    \<and> group_at (bits_of (used_map p)) cnt k False \<and> wf_bitmap b \<and> bit_cnt b = bit_cnt (used_map p)
    \<and> bits_of b = set_range (bits_of (used_map p)) k cnt True"
proof -
  have ok: "pool_ok p" "wf_bitmap (used_map p)" "\<not> pool_lock p"
    using palloc_ok_pool [OF s] p by (auto simp: pool_ok_def)
  obtain k where k: "scan_from (bits_of (used_map p)) 0 cnt False = Some k"
    using g scan_from_None [of "bits_of (used_map p)" 0 cnt False]
    by (cases "scan_from (bits_of (used_map p)) 0 cnt False") auto
  obtain b where b: "bitmap_scan_and_flip (used_map p) 0 cnt False = Some (k, b)" "wf_bitmap b"
      "bit_cnt b = bit_cnt (used_map p)" "bits_of b = set_range (bits_of (used_map p)) k cnt True"
    using bitmap_scan_and_flip_bits [OF ok(2), of 0 cnt False] k by auto
  have group: "group_at (bits_of (used_map p)) cnt k False"
    using scan_from_Some(2) [OF k] .
  then have len: "k + cnt \<le> bit_cnt (used_map p)"
    by (simp add: group_at_def)
  have "k \<noteq> BITMAP_ERROR"
    using scan_from_error [OF k ok(2)] .
  moreover have "page_addr p k \<noteq> NULL"
    using page_addr_nonnull [OF ok(1)] len by simp
  moreover have "size_wrap (PGSIZE * cnt) = PGSIZE * cnt"
    using size_wrap_pages [OF ok(1)] len by simp
  ultimately have "palloc_get_multiple flags cnt s = Some (page_addr p k,
        (set_pool (wants_user flags) (p\<lparr>used_map := b\<rparr>) s)
          \<lparr>pal_mem := (if flags AND PAL_ZERO \<noteq> 0 then fill (page_addr p k) (PGSIZE * cnt) 0 (pal_mem s) else pal_mem s)\<rparr>)"
    using ok(3) b(1) page_addr_def [of p k]
    by (simp add: palloc_get_multiple_def pool_acquire_ok pool_release_ok memset_eq set_pool_same Let_def
        flip: p wants_user_def del: of_nat_mult)
  with b group show ?thesis
    by blast
qed

lemma palloc_get_none:
  assumes s: "palloc_ok s" and p: "p = pool_of (wants_user flags) s"
    and g: "\<nexists>i. group_at (bits_of (used_map p)) cnt i False"
  shows "palloc_get_multiple flags cnt s = (if flags AND PAL_ASSERT \<noteq> 0 then None else Some (NULL, s))"
proof -
  have ok: "wf_bitmap (used_map p)" "\<not> pool_lock p"
    using palloc_ok_pool [OF s] p by (auto simp: pool_ok_def)
  have "scan_from (bits_of (used_map p)) 0 cnt False = None"
    using g by (metis option.exhaust scan_from_Some(2))
  then have "bitmap_scan_and_flip (used_map p) 0 cnt False = Some (BITMAP_ERROR, used_map p)"
    using bitmap_scan_and_flip_bits [OF ok(1), of 0 cnt False] by simp
  moreover have "set_pool (wants_user flags) p s = s"
    by (simp add: p set_pool_def pool_of_def)
  ultimately show ?thesis
    using ok(2)
    by (simp add: palloc_get_multiple_def pool_acquire_ok pool_release_ok flip: p wants_user_def)
qed

lemma palloc_free_found:
  assumes s: "palloc_ok s" and p: "p = pool_of u s" and k: "k + cnt \<le> bit_cnt (used_map p)" "0 < cnt"
    and used: "group_at (bits_of (used_map p)) cnt k True"
  shows "\<exists>b. palloc_free_multiple (page_addr p k) cnt s = Some ((set_pool u (p\<lparr>used_map := b\<rparr>) s)
        \<lparr>pal_mem := fill (page_addr p k) (PGSIZE * cnt) 0xcc (pal_mem s)\<rparr>)
    \<and> wf_bitmap b \<and> bit_cnt b = bit_cnt (used_map p) \<and> bits_of b = set_range (bits_of (used_map p)) k cnt False"
proof -
  have ok: "pool_ok p" "wf_bitmap (used_map p)" "\<not> pool_lock p"
    using palloc_ok_pool [OF s] p by (auto simp: pool_ok_def)
  have un: "unat (page_addr p k) = unat (base p) + PGSIZE * k"
    using unat_page_addr [OF ok(1)] k by simp
  have "PGSIZE * k < PGSIZE * bit_cnt (used_map p)"
    using k by simp
  then have inp: "page_from_pool p (page_addr p k)"
    by (simp add: page_from_pool_iff [OF ok(1)] un pool_end_def)
  have "(if page_from_pool (kernel_pool s) (page_addr p k) then Some False
         else if page_from_pool (user_pool s) (page_addr p k) then Some True else None) = Some u"
  proof (cases u)
    case False
    then show ?thesis
      using inp p by (simp add: pool_of_def)
  next
    case True
    then have "\<not> page_from_pool (kernel_pool s) (page_addr p k)"
      using inp p s by (auto simp: palloc_ok_def page_from_pool_iff pool_of_def)
    then show ?thesis
      using inp p True by (simp add: pool_of_def)
  qed
  moreover obtain b where b: "bitmap_set_multiple (used_map p) k cnt False = Some b" "wf_bitmap b"
      "bit_cnt b = bit_cnt (used_map p)" "bits_of b = set_range (bits_of (used_map p)) k cnt False"
    using bitmap_set_multiple_bits [OF ok(2) k(1)] by blast
  moreover have "bitmap_all (used_map p) k cnt = Some True"
    using used by (simp add: bitmap_all_bits [OF ok(2) k(1)])
  moreover have "page_addr p k \<noteq> NULL" "pg_ofs (page_addr p k) = 0"
    "unat (pg_no (page_addr p k) - pg_no (base p)) = k" "size_wrap (PGSIZE * cnt) = PGSIZE * cnt"
    using page_addr_nonnull [OF ok(1)] page_addr_aligned [OF ok(1)] page_idx_eq [OF ok(1)]
      size_wrap_pages [OF ok(1)] k(1) by simp_all
  ultimately have "palloc_free_multiple (page_addr p k) cnt s = Some ((set_pool u (p\<lparr>used_map := b\<rparr>) s)
        \<lparr>pal_mem := fill (page_addr p k) (PGSIZE * cnt) 0xcc (pal_mem s)\<rparr>)"
    using k(2) ok(3)
    by (simp add: palloc_free_multiple_def pool_acquire_ok pool_release_ok memset_eq set_pool_mem Let_def
        flip: p del: if_split)
  with b show ?thesis
    by blast
qed

lemma page_run_free:
  assumes "pool_ok p" "group_at (bits_of (used_map p)) n k False"
  shows "page_run (page_addr p k) n \<subseteq> free_pages p"
proof -
  have "i < bit_cnt (used_map p) \<and> \<not> bits_of (used_map p) ! i" if "k \<le> i" "i < k + n" for i
  proof -
    from that obtain j where "i = k + j" "j < n"
      by (metis le_Suc_ex nat_add_left_cancel_less)
    then show ?thesis
      using assms(2) by (auto simp: group_at_def)
  qed
  then show ?thesis
    unfolding page_run_eq free_pages_def by auto
qed

lemma free_run_group:
  assumes "pool_ok p" "0 < n" "page_run a n \<subseteq> free_pages p"
  shows "\<exists>i. group_at (bits_of (used_map p)) n i False"
proof -
  have "a + of_nat (PGSIZE * 0) \<in> page_run a n"
    unfolding page_run_def using assms(2) by (intro imageI) simp
  then obtain i where i: "a = page_addr p i" "i < bit_cnt (used_map p)"
    using assms(3) by (auto simp: free_pages_def)
  have "i + j < bit_cnt (used_map p) \<and> \<not> bits_of (used_map p) ! (i + j)" if "j < n" for j
    using that
  proof (induction j)
    case 0
    with assms(3) i have "page_addr p i \<in> free_pages p"
      by (auto simp: page_run_def)
    then obtain i' where "page_addr p i = page_addr p i'" "i' < bit_cnt (used_map p)" "\<not> bits_of (used_map p) ! i'"
      by (auto simp: free_pages_def)
    then show ?case
      using i(2) page_addr_inj [OF assms(1), of i i'] by simp
  next
    case (Suc j)
    have "page_addr p (i + Suc j) \<in> page_run a n"
      unfolding i(1) page_run_eq using Suc.prems by (intro imageI) simp
    then obtain i' where "page_addr p (i + Suc j) = page_addr p i'" "i' < bit_cnt (used_map p)"
        "\<not> bits_of (used_map p) ! i'"
      using assms(3) by (auto simp: free_pages_def)
    moreover have "i + Suc j \<le> bit_cnt (used_map p)"
      using Suc by simp
    ultimately show ?case
      using page_addr_inj [OF assms(1), of "i + Suc j" i'] by simp
  qed
  moreover from this [of "n - 1"] assms(2) have "i + (n - 1) < bit_cnt (used_map p)"
    by simp
  then have "i + n \<le> bit_cnt (used_map p)"
    using assms(2) by linarith
  ultimately show ?thesis
    by (auto simp: group_at_def)
qed

lemma block_page:
  assumes "pool_ok p" "k + n \<le> bit_cnt (used_map p)" "in_block (page_addr p k) (PGSIZE * n) x"
  shows "pg_round_down x \<in> page_run (page_addr p k) n"
proof -
  obtain i where i: "i < PGSIZE * n" "x = page_addr p k + of_nat i"
    using assms(3) by (auto simp: in_block_def)
  have un: "unat (page_addr p k) = unat (base p) + PGSIZE * k"
    using unat_page_addr [OF assms(1)] assms(2) by simp
  have "PGSIZE * (k + n) \<le> PGSIZE * bit_cnt (used_map p)"
    using assms(2) by (rule mult_le_mono2)
  then have "unat (page_addr p k) + i < 2 ^ 64"
    using i(1) assms(1) unfolding un pool_ok_def distrib_left by linarith
  then have ux: "unat x = unat (base p) + PGSIZE * k + i"
    unfolding i(2) using unat_add_nat un by metis
  let ?j = "i div PGSIZE"
  have j: "?j < n"
    using i(1) by (simp add: less_mult_imp_div_less mult.commute)
  obtain B where B: "unat (base p) = PGSIZE * B"
    using pool_ok_aligned [OF assms(1)] by (metis mod_0_imp_dvd dvdE)
  have "unat x div PGSIZE = (i + PGSIZE * (B + k)) div PGSIZE"
    unfolding ux B by (simp add: algebra_simps)
  also have "\<dots> = B + k + ?j"
    by (simp add: PGSIZE_eq)
  finally have "unat (pg_round_down x) = unat (base p) + PGSIZE * (k + ?j)"
    unfolding unat_pg_round_down B by (simp add: algebra_simps)
  also have "\<dots> = unat (page_addr p (k + ?j))"
    using unat_page_addr [OF assms(1), of "k + ?j"] assms(2) j by simp
  finally have "pg_round_down x = page_addr p (k + ?j)"
    by (simp add: word_unat_eq_iff)
  then show ?thesis
    unfolding page_run_eq using j by simp
qed

subsection \<open>Blocks in use\<close>

text \<open>A block in use: \<open>n\<close> pages from page \<open>k\<close> of a pool on, all marked as used.\<close>

definition live_block :: "palloc \<Rightarrow> ptr \<Rightarrow> nat \<Rightarrow> bool \<Rightarrow> nat \<Rightarrow> bool" where
  "live_block s a n u k \<longleftrightarrow> 0 < n \<and> a = page_addr (pool_of u s) k \<and> group_at (bits_of (used_map (pool_of u s))) n k True"

definition blocks_ok :: "palloc \<Rightarrow> (ptr \<times> nat) set \<Rightarrow> bool" where
  "blocks_ok s L \<longleftrightarrow> palloc_ok s \<and> (\<forall>(a, n) \<in> L. \<exists>u k. live_block s a n u k)
     \<and> (\<forall>(a, n) \<in> L. \<forall>(a', n') \<in> L. (a, n) \<noteq> (a', n') \<longrightarrow> page_run a n \<inter> page_run a' n' = {})"

text \<open>The states that calls of the allocator reach, with the blocks that callers hold.\<close>

inductive alloc_trace :: "palloc \<Rightarrow> (ptr \<times> nat) set \<Rightarrow> bool" where
  init: "palloc_ok s \<Longrightarrow> alloc_trace s {}"
| get: "alloc_trace s L \<Longrightarrow> 0 < n \<Longrightarrow> palloc_get_multiple flags n s = Some (a, s') \<Longrightarrow> a \<noteq> NULL \<Longrightarrow>
    alloc_trace s' (insert (a, n) L)"
| get_none: "alloc_trace s L \<Longrightarrow> palloc_get_multiple flags n s = Some (NULL, s') \<Longrightarrow> alloc_trace s' L"
| free: "alloc_trace s L \<Longrightarrow> (a, n) \<in> L \<Longrightarrow> palloc_free_multiple a n s = Some s' \<Longrightarrow>
    alloc_trace s' (L - {(a, n)})"

lemma live_block_range:
  assumes "palloc_ok s" "live_block s a n u k"
  shows "k + n \<le> bit_cnt (used_map (pool_of u s))" "page_run a n = page_addr (pool_of u s) ` {k..<k + n}"
    "page_run a n \<inter> free_pages (pool_of u s) = {}"
proof -
  let ?p = "pool_of u s"
  show len: "k + n \<le> bit_cnt (used_map ?p)" and eq: "page_run a n = page_addr ?p ` {k..<k + n}"
    using assms(2) by (auto simp: live_block_def group_at_def page_run_eq)
  have "bits_of (used_map ?p) ! i" if "k \<le> i" "i < k + n" for i
    using assms(2) that unfolding live_block_def group_at_def
    by (metis le_Suc_ex nat_add_left_cancel_less)
  moreover have "inj_on (page_addr ?p) {..bit_cnt (used_map ?p)}"
    by (rule inj_onI) (use page_addr_inj [OF palloc_ok_pool [OF assms(1)]] in auto)
  ultimately show "page_run a n \<inter> free_pages ?p = {}"
    using len unfolding eq free_pages_def by (auto dest!: inj_onD)
qed

lemma page_run_in_pool:
  assumes "pool_ok p" "k + n \<le> bit_cnt (used_map p)" "x \<in> page_run (page_addr p k) n"
  shows "unat (base p) \<le> unat x \<and> unat x < pool_end p"
proof -
  obtain i where i: "x = page_addr p i" "i < bit_cnt (used_map p)"
    using assms(2,3) by (auto simp: page_run_eq)
  moreover have "PGSIZE * i < PGSIZE * bit_cnt (used_map p)"
    using i(2) by simp
  ultimately show ?thesis
    using unat_page_addr [OF assms(1), of i] by (simp add: pool_end_def)
qed

lemma pools_apart:
  assumes "palloc_ok s" "u \<noteq> v" "unat (base (pool_of u s)) \<le> x" "x < pool_end (pool_of u s)"
  shows "\<not> (unat (base (pool_of v s)) \<le> x \<and> x < pool_end (pool_of v s))"
  using assms by (cases u) (auto simp: palloc_ok_def pool_of_def)

lemma runs_in_pools_apart:
  assumes "palloc_ok s" "u \<noteq> v" "k + n \<le> bit_cnt (used_map (pool_of u s))" "k' + n' \<le> bit_cnt (used_map (pool_of v s))"
  shows "page_run (page_addr (pool_of u s) k) n \<inter> page_run (page_addr (pool_of v s) k') n' = {}"
  using page_run_in_pool [OF palloc_ok_pool [OF assms(1)] assms(3)]
    page_run_in_pool [OF palloc_ok_pool [OF assms(1)] assms(4)] pools_apart [OF assms(1,2)]
  by blast

text \<open>What an update of one pool's bitmap leaves of a block in use.\<close>

lemma live_block_upd:
  assumes ok: "palloc_ok s" and live: "live_block s a n u k" and b: "bit_cnt b = bit_cnt (used_map (pool_of v s))"
    "bits_of b = set_range (bits_of (used_map (pool_of v s))) k' n' w" "k' + n' \<le> bit_cnt (used_map (pool_of v s))"
    and w: "w \<or> page_run a n \<inter> page_run (page_addr (pool_of v s) k') n' = {}"
  shows "live_block ((set_pool v ((pool_of v s)\<lparr>used_map := b\<rparr>) s)\<lparr>pal_mem := m\<rparr>) a n u k"
proof (cases "u = v")
  case False
  then show ?thesis
    using live by (simp add: live_block_def pool_of_set_pool)
next
  case True
  let ?p = "pool_of v s" and ?bs = "bits_of (used_map (pool_of v s))"
  have len: "k + n \<le> bit_cnt (used_map ?p)" and used: "\<And>j. j < n \<Longrightarrow> ?bs ! (k + j)"
    using live True by (auto simp: live_block_def group_at_def)
  have "bits_of b ! (k + j)" if "j < n" for j
  proof (cases "k' \<le> k + j \<and> k + j < k' + n'")
    case False
    then show ?thesis
      using that len b used by (auto simp: nth_set_range)
  next
    case inside: True
    have "page_addr ?p (k + j) \<in> page_run a n"
      unfolding live_block_range(2) [OF ok live] using that True by simp
    moreover have "page_addr ?p (k + j) \<in> page_run (page_addr ?p k') n'"
      unfolding page_run_eq using inside by simp
    ultimately have w
      using w by blast
    then show ?thesis
      using that len b inside by (simp add: nth_set_range)
  qed
  then have "group_at (bits_of b) n k True"
    using len b(1) by (simp add: group_at_def)
  moreover have "page_addr (?p\<lparr>used_map := b\<rparr>) k = page_addr ?p k"
    by (simp add: page_addr_def)
  ultimately show ?thesis
    using live True by (simp add: live_block_def pool_of_set_pool)
qed

lemma group_at_set_range: "k + n \<le> length xs \<Longrightarrow> group_at (set_range xs k n v) n k v"
  by (simp add: group_at_def nth_set_range)

lemma blocks_okI:
  assumes "palloc_ok s" "\<And>a n. (a, n) \<in> L \<Longrightarrow> \<exists>u k. live_block s a n u k"
    and "\<And>a n a' n'. (a, n) \<in> L \<Longrightarrow> (a', n') \<in> L \<Longrightarrow> (a, n) \<noteq> (a', n') \<Longrightarrow> page_run a n \<inter> page_run a' n' = {}"
  shows "blocks_ok s L"
  unfolding blocks_ok_def using assms by fast

lemma blocks_okD:
  assumes "blocks_ok s L"
  shows "palloc_ok s" "(a, n) \<in> L \<Longrightarrow> \<exists>u k. live_block s a n u k"
    "(a, n) \<in> L \<Longrightarrow> (a', n') \<in> L \<Longrightarrow> (a, n) \<noteq> (a', n') \<Longrightarrow> page_run a n \<inter> page_run a' n' = {}"
  using assms unfolding blocks_ok_def by fast+

lemma blocks_ok_get:
  assumes ok: "blocks_ok s L" and n: "0 < n" and get: "palloc_get_multiple flags n s = Some (a, s')" and a: "a \<noteq> NULL"
  shows "blocks_ok s' (insert (a, n) L)"
proof -
  let ?u = "wants_user flags"
  let ?p = "pool_of ?u s"
  have s: "palloc_ok s"
    using ok by (simp add: blocks_ok_def)
  have "\<exists>i. group_at (bits_of (used_map ?p)) n i False"
  proof (rule ccontr)
    assume "\<nexists>i. group_at (bits_of (used_map ?p)) n i False"
    from palloc_get_none [OF s refl this] get a show False
      by (simp split: if_splits)
  qed
  from palloc_get_found [OF s refl this] get obtain k b m where
    eq: "a = page_addr ?p k" "s' = (set_pool ?u (?p\<lparr>used_map := b\<rparr>) s)\<lparr>pal_mem := m\<rparr>" and
    g: "group_at (bits_of (used_map ?p)) n k False" and
    b: "wf_bitmap b" "bit_cnt b = bit_cnt (used_map ?p)" "bits_of b = set_range (bits_of (used_map ?p)) k n True"
    by auto
  have len: "k + n \<le> bit_cnt (used_map ?p)"
    using g by (simp add: group_at_def)
  have s': "palloc_ok s'"
    using palloc_ok_upd [OF s b(1,2)] by (simp add: eq)
  have new: "live_block s' a n ?u k"
    using n len group_at_set_range [of k n "bits_of (used_map ?p)" True]
    by (simp add: live_block_def eq pool_of_set_pool b(3) page_addr_def)
  have old: "live_block s' a' n' u' k'" if "live_block s a' n' u' k'" for a' n' u' k'
    unfolding eq(2) using live_block_upd [OF s that b(2,3) len] by simp
  have apart: "page_run a n \<inter> page_run a' n' = {}" if "live_block s a' n' u' k'" for a' n' u' k'
  proof (cases "u' = ?u")
    case True
    then show ?thesis
      using live_block_range(3) [OF s that] page_run_free [OF palloc_ok_pool [OF s] g] by (auto simp: eq(1))
  next
    case False
    have "a' = page_addr (pool_of u' s) k'"
      using that by (simp add: live_block_def)
    then show ?thesis
      using runs_in_pools_apart [OF s False live_block_range(1) [OF s that] len] by (auto simp: eq(1))
  qed
  show ?thesis
  proof (rule blocks_okI [OF s'])
    fix a' n' assume "(a', n') \<in> insert (a, n) L"
    then consider "a' = a" "n' = n" | "(a', n') \<in> L"
      by auto
    then show "\<exists>u k. live_block s' a' n' u k"
    proof cases
      case 1
      with new show ?thesis by blast
    next
      case 2
      from blocks_okD(2) [OF ok this] show ?thesis
        using old by blast
    qed
  next
    fix a1 n1 a2 n2
    assume "(a1, n1) \<in> insert (a, n) L" "(a2, n2) \<in> insert (a, n) L" and ne: "(a1, n1) \<noteq> (a2, n2)"
    then consider "a1 = a" "n1 = n" "(a2, n2) \<in> L" | "a2 = a" "n2 = n" "(a1, n1) \<in> L" | "(a1, n1) \<in> L" "(a2, n2) \<in> L"
      by auto
    then show "page_run a1 n1 \<inter> page_run a2 n2 = {}"
    proof cases
      case 1
      from blocks_okD(2) [OF ok 1(3)] obtain u' k' where "live_block s a2 n2 u' k'" by blast
      from apart [OF this] 1 show ?thesis by simp
    next
      case 2
      from blocks_okD(2) [OF ok 2(3)] obtain u' k' where "live_block s a1 n1 u' k'" by blast
      from apart [OF this] 2 show ?thesis by (simp add: Int_commute)
    next
      case 3
      then show ?thesis
        using blocks_okD(3) [OF ok] ne by blast
    qed
  qed
qed

lemma blocks_ok_free:
  assumes ok: "blocks_ok s L" and L: "(a, n) \<in> L"
  shows "\<exists>s'. palloc_free_multiple a n s = Some s' \<and> blocks_ok s' (L - {(a, n)})"
proof -
  have s: "palloc_ok s"
    by (rule blocks_okD(1) [OF ok])
  obtain u k where live: "live_block s a n u k"
    using blocks_okD(2) [OF ok L] by blast
  let ?p = "pool_of u s"
  have a: "a = page_addr ?p k" "0 < n" "group_at (bits_of (used_map ?p)) n k True"
    using live by (auto simp: live_block_def)
  note len = live_block_range(1) [OF s live]
  from palloc_free_found [OF s refl len a(2,3)] obtain b m where
    eq: "palloc_free_multiple a n s = Some ((set_pool u (?p\<lparr>used_map := b\<rparr>) s)\<lparr>pal_mem := m\<rparr>)" and
    b: "wf_bitmap b" "bit_cnt b = bit_cnt (used_map ?p)" "bits_of b = set_range (bits_of (used_map ?p)) k n False"
    by (auto simp: a(1))
  let ?s' = "(set_pool u (?p\<lparr>used_map := b\<rparr>) s)\<lparr>pal_mem := m\<rparr>"
  have "blocks_ok ?s' (L - {(a, n)})"
  proof (rule blocks_okI)
    show "palloc_ok ?s'"
      using palloc_ok_upd [OF s b(1,2)] by simp
  next
    fix a' n' assume "(a', n') \<in> L - {(a, n)}"
    then have in_L: "(a', n') \<in> L" "(a', n') \<noteq> (a, n)"
      by auto
    obtain u' k' where live': "live_block s a' n' u' k'"
      using blocks_okD(2) [OF ok in_L(1)] by blast
    have "page_run a' n' \<inter> page_run (page_addr ?p k) n = {}"
      using blocks_okD(3) [OF ok in_L(1) L in_L(2)] by (simp add: a(1))
    from live_block_upd [OF s live' b(2,3) len disjI2, OF this] show "\<exists>u k. live_block ?s' a' n' u k"
      by (intro exI)
  next
    fix a1 n1 a2 n2
    assume "(a1, n1) \<in> L - {(a, n)}" "(a2, n2) \<in> L - {(a, n)}" "(a1, n1) \<noteq> (a2, n2)"
    then show "page_run a1 n1 \<inter> page_run a2 n2 = {}"
      by (intro blocks_okD(3) [OF ok]) auto
  qed
  with eq show ?thesis
    by blast
qed

lemma alloc_trace_ok: "alloc_trace s L \<Longrightarrow> blocks_ok s L"
proof (induction rule: alloc_trace.induct)
  case (init s)
  then show ?case
    by (simp add: blocks_ok_def)
next
  case (get s L n flags a s')
  then show ?case
    using blocks_ok_get by blast
next
  case (get_none s L flags n s')
  have s: "palloc_ok s"
    using get_none by (simp add: blocks_ok_def)
  have "s' = s"
  proof (cases "\<exists>i. group_at (bits_of (used_map (pool_of (wants_user flags) s))) n i False")
    case True
    then obtain i where "group_at (bits_of (used_map (pool_of (wants_user flags) s))) n i False"
      by blast
    with palloc_get_found [OF s refl True] get_none(2) obtain k where
      "page_addr (pool_of (wants_user flags) s) k = NULL" "k + n \<le> bit_cnt (used_map (pool_of (wants_user flags) s))"
      by (auto simp: group_at_def)
    then show ?thesis
      using page_addr_nonnull [OF palloc_ok_pool [OF s]] by force
  next
    case False
    then show ?thesis
      using palloc_get_none [OF s refl, of flags n] get_none(2) by (auto split: if_splits)
  qed
  with get_none show ?case
    by simp
next
  case (free s L a n s')
  then show ?case
    using blocks_ok_free by fastforce
qed

subsection \<open>Properties of the allocator\<close>

definition demo_palloc :: palloc where
  "demo_palloc = \<lparr>kernel_pool = \<lparr>pool_lock = False, used_map = \<lparr>bit_cnt = 4, bits = [1]\<rparr>, base = 0x8000\<rparr>,
     user_pool = \<lparr>pool_lock = False, used_map = \<lparr>bit_cnt = 2, bits = [0]\<rparr>, base = 0x10000\<rparr>, pal_mem = \<lambda>_. 7\<rparr>"

lemma demo_palloc_ok: "palloc_ok demo_palloc"
  by (simp add: palloc_ok_def demo_palloc_def pool_ok_def pool_end_def wf_bitmap_def BITMAP_ERROR_def SIZE_MAX_def PGSIZE_eq
      pg_ofs_def PGMASK_eq mask_eq_exp_minus_1)

text \<open>C27: A request for pages returns either a page-aligned block whose pages were all free in the requested
  pool, which then loses exactly these pages, zeroed when asked for, with the rest of memory and the
  other pool unchanged; or, only when the pool has no run of that many free pages, a null pointer with no
  change at all, or a panic when the caller demanded success.\<close>

theorem palloc_get_multiple_correct:
  assumes "palloc_ok s" "0 < n" "p = pool_of (wants_user flags) s"
  shows "case palloc_get_multiple flags n s of
      None \<Rightarrow> flags AND PAL_ASSERT \<noteq> 0 \<and> (\<nexists>a. page_run a n \<subseteq> free_pages p)
    | Some (a, s') \<Rightarrow>
        if a = NULL then s' = s \<and> flags AND PAL_ASSERT = 0 \<and> (\<nexists>a. page_run a n \<subseteq> free_pages p)
        else palloc_ok s' \<and> pg_ofs a = 0 \<and> page_run a n \<subseteq> free_pages p
          \<and> free_pages (pool_of (wants_user flags) s') = free_pages p - page_run a n
          \<and> pool_of (\<not> wants_user flags) s' = pool_of (\<not> wants_user flags) s
          \<and> pal_mem s' = (if flags AND PAL_ZERO \<noteq> 0 then fill a (PGSIZE * n) 0 (pal_mem s) else pal_mem s)"
proof (cases "\<exists>i. group_at (bits_of (used_map p)) n i False")
  case True
  have p: "pool_ok p"
    using assms by (simp add: palloc_ok_pool)
  from palloc_get_found [OF assms(1,3) True] obtain k b where
    get: "palloc_get_multiple flags n s = Some (page_addr p k, (set_pool (wants_user flags) (p\<lparr>used_map := b\<rparr>) s)
      \<lparr>pal_mem := (if flags AND PAL_ZERO \<noteq> 0 then fill (page_addr p k) (PGSIZE * n) 0 (pal_mem s) else pal_mem s)\<rparr>)" and
    g: "group_at (bits_of (used_map p)) n k False" and
    b: "wf_bitmap b" "bit_cnt b = bit_cnt (used_map p)" "bits_of b = set_range (bits_of (used_map p)) k n True"
    by blast
  have len: "k + n \<le> bit_cnt (used_map p)"
    using g by (simp add: group_at_def)
  moreover have "palloc_ok (set_pool (wants_user flags) (p\<lparr>used_map := b\<rparr>) s)"
    using palloc_ok_upd [OF assms(1) b(1), of "wants_user flags"] b(2) by (simp add: assms(3))
  ultimately show ?thesis
    using page_addr_nonnull [OF p, of k] page_addr_aligned [OF p, of k] page_run_free [OF p g]
      free_pages_upd [OF p len b(2,3)]
    by (simp add: get pool_of_set_pool)
next
  case False
  then have "\<nexists>a. page_run a n \<subseteq> free_pages p"
    using free_run_group assms palloc_ok_pool by blast
  then show ?thesis
    by (simp add: palloc_get_none [OF assms(1,3) False])
qed

theorem palloc_get_multiple_correct_witness:
  "palloc_ok demo_palloc \<and> (case palloc_get_multiple (PAL_USER OR PAL_ASSERT) 3 demo_palloc of
     None \<Rightarrow> \<nexists>a. page_run a 3 \<subseteq> free_pages (user_pool demo_palloc) | Some (a, s') \<Rightarrow> a = NULL \<or> palloc_ok s')"
  using palloc_get_multiple_correct [OF demo_palloc_ok, of 3 "user_pool demo_palloc" "PAL_USER OR PAL_ASSERT"]
  by (auto simp: demo_palloc_ok wants_user_def pool_of_def PAL_USER_def PAL_ASSERT_def split: option.splits if_splits)

text \<open>C28: In every state that calls of the allocator reach, no two blocks that callers hold share a byte, and
  giving back a block that a caller holds never panics.\<close>

theorem palloc_blocks_disjoint:
  assumes "alloc_trace s L" "(a, n) \<in> L"
  shows "(\<forall>a' n' x. (a', n') \<in> L \<and> in_block a (PGSIZE * n) x \<and> in_block a' (PGSIZE * n') x \<longrightarrow> (a', n') = (a, n))
    \<and> (\<exists>s'. palloc_free_multiple a n s = Some s')"
proof -
  have ok: "blocks_ok s L"
    by (rule alloc_trace_ok [OF assms(1)])
  have page: "pg_round_down x \<in> page_run a' n'" if in_L: "(a', n') \<in> L" "in_block a' (PGSIZE * n') x" for a' n' x
  proof -
    have s: "palloc_ok s"
      by (rule blocks_okD(1) [OF ok])
    obtain u k where live: "live_block s a' n' u k"
      using blocks_okD(2) [OF ok in_L(1)] by blast
    then show ?thesis
      using block_page [OF palloc_ok_pool [OF s] live_block_range(1) [OF s live]] in_L(2)
      by (simp add: live_block_def)
  qed
  have "(a', n') = (a, n)" if "(a', n') \<in> L" "in_block a (PGSIZE * n) x" "in_block a' (PGSIZE * n') x" for a' n' x
  proof (rule ccontr)
    assume "(a', n') \<noteq> (a, n)"
    from blocks_okD(3) [OF ok that(1) assms(2) this] page [OF that(1,3)] page [OF assms(2) that(2)] show False
      by blast
  qed
  then show ?thesis
    using blocks_ok_free [OF ok assms(2)] by blast
qed

lemma demo_trace: "\<exists>a s'. alloc_trace s' {(a, 2)}"
proof -
  have g: "group_at (bits_of (used_map (pool_of (wants_user 0) demo_palloc))) 2 1 False"
    by (simp add: demo_palloc_def group_at_def pool_of_def wants_user_def bits_of_def numeral_2_eq_2 less_Suc_eq
        all_conj_distrib upt_rec)
  from palloc_get_found [OF demo_palloc_ok refl exI, OF g] obtain k b m where
    get: "palloc_get_multiple 0 2 demo_palloc = Some (page_addr (pool_of (wants_user 0) demo_palloc) k,
       (set_pool (wants_user 0) ((pool_of (wants_user 0) demo_palloc)\<lparr>used_map := b\<rparr>) demo_palloc)\<lparr>pal_mem := m\<rparr>)" and
    k: "group_at (bits_of (used_map (pool_of (wants_user 0) demo_palloc))) 2 k False"
    by blast
  have "page_addr (pool_of (wants_user 0) demo_palloc) k \<noteq> NULL"
    using page_addr_nonnull [OF palloc_ok_pool [OF demo_palloc_ok]] k by (simp add: group_at_def)
  from alloc_trace.get [OF alloc_trace.init [OF demo_palloc_ok] _ get this] show ?thesis
    by auto
qed

theorem palloc_blocks_disjoint_witness:
  "\<exists>a s s'. alloc_trace s {(a, 2)} \<and> palloc_free_multiple a 2 s = Some s'"
proof -
  obtain a s where t: "alloc_trace s {(a, 2)}"
    using demo_trace by blast
  then show ?thesis
    using palloc_blocks_disjoint [OF t, of a 2] by auto
qed

end
