(* ===== verification/Boot_Memory.thy ===== *)
theory Boot_Memory
  imports Page_Alloc
begin

section \<open>The pools after booting (\<^verbatim>\<open>palloc_init\<close> of \<^verbatim>\<open>threads/palloc.c\<close>)\<close>

text \<open>
  What the set-up of the page allocator makes of the boot loader's memory map: an invariant of
  the loop that splits the map between the pools, an invariant of the loop that marks pages
  as usable, and the safety of the pages that can be handed out afterwards.
\<close>

subsection \<open>The pools that the memory map yields\<close>

text \<open>
  What the boot loader's memory map has to satisfy: regions start on a page boundary and lie below 4 TB (so that a
  pool has fewer pages than \<^verbatim>\<open>BITMAP_ERROR\<close>), and the usable ones are in ascending order and do not overlap.
\<close>

definition entry_ok :: "e820_entry \<Rightarrow> bool" where
  "entry_ok e \<longleftrightarrow> unat (APPEND_HILO (mem_hi e) (mem_lo e)) mod PGSIZE = 0
     \<and> unat (APPEND_HILO (mem_hi e) (mem_lo e)) + unat (entry_size e) < 2 ^ 42"

definition entry_from :: "e820_entry \<Rightarrow> nat" where
  "entry_from e = unat (entry_start e)"

definition entry_to :: "e820_entry \<Rightarrow> nat" where
  "entry_to e = unat (entry_start e) + unat (entry_size e)"

definition map_ok :: "e820_entry list \<Rightarrow> bool" where
  "map_ok es \<longleftrightarrow> (\<forall>e \<in> set es. entry_ok e) \<and> sorted_wrt (\<lambda>e e'. entry_to e \<le> entry_from e') (filter usable es)"

lemma unat_KERN_BASE: "unat KERN_BASE = 0x8004000000"
  by (simp add: KERN_BASE_def)

lemma entry_ok_facts:
  assumes "entry_ok e"
  shows "entry_from e mod PGSIZE = 0" "0 < entry_from e" "entry_from e \<le> entry_to e" "entry_to e < 2 ^ 43"
    "unat (entry_start e + entry_size e) = entry_to e"
proof -
  let ?a = "APPEND_HILO (mem_hi e) (mem_lo e)"
  have lt: "unat ?a + unat (entry_size e) < 2 ^ 42" "unat ?a mod PGSIZE = 0"
    using assms by (simp_all add: entry_ok_def)
  then have "unat ?a + unat KERN_BASE < 2 ^ 64"
    by (simp add: unat_KERN_BASE)
  then have f: "entry_from e = unat ?a + unat KERN_BASE"
    by (simp add: entry_from_def entry_start_def ptov_def unat_add64)
  show "entry_from e mod PGSIZE = 0"
    using lt(2) unfolding f by (simp add: unat_KERN_BASE PGSIZE_eq mod_add_left_eq [symmetric])
  show "0 < entry_from e"
    by (simp add: f unat_KERN_BASE)
  show "entry_from e \<le> entry_to e"
    by (simp add: entry_from_def entry_to_def)
  show to: "entry_to e < 2 ^ 43"
    using lt(1) f by (simp add: entry_to_def entry_from_def unat_KERN_BASE)
  then show "unat (entry_start e + entry_size e) = entry_to e"
    unfolding entry_to_def by (intro unat_add64) simp
qed

definition bm_size :: "nat \<Rightarrow> nat" where
  "bm_size n = DIV_ROUND_UP (bitmap_buf_size n) PGSIZE * PGSIZE"

definition fresh_pool :: "pool \<Rightarrow> bool" where
  "fresh_pool p \<longleftrightarrow> pool_ok p \<and> pool_end p < 2 ^ 43 \<and> bits_of (used_map p) = replicate (bit_cnt (used_map p)) True"

lemma bitmap_buf_size_le: "n < 2 ^ 31 \<Longrightarrow> bitmap_buf_size n \<le> 2 ^ 50"
  by (simp add: bitmap_buf_size_def byte_cnt_def elem_cnt_def ELEM_BITS_def size_wrap_def)

lemma bm_size_le:
  assumes "n < 2 ^ 31"
  shows "bm_size n < 2 ^ 51"
proof -
  have "bm_size n \<le> bitmap_buf_size n + PGSIZE - 1"
    unfolding bm_size_def DIV_ROUND_UP_def by (rule div_times_less_eq_dividend)
  then show ?thesis
    using bitmap_buf_size_le [OF assms] by (simp add: PGSIZE_eq)
qed

lemma init_pool_fresh:
  assumes "unat start \<le> unat en" "unat en < 2 ^ 43" "unat start mod PGSIZE = 0" "0 < unat start"
  shows "\<exists>p. init_pool words fs start en = Some (p, fs + of_nat (bm_size (bit_cnt (used_map p)))) \<and> fresh_pool p
    \<and> base p = start \<and> pool_end p \<le> unat en \<and> bit_cnt (used_map p) < 2 ^ 31"
proof -
  let ?n = "unat (en - start) div PGSIZE"
  have diff: "unat (en - start) = unat en - unat start"
    using assms(1) by (simp add: unat_sub word_le_nat_alt)
  have n: "?n < 2 ^ 31" "?n * PGSIZE \<le> unat en - unat start"
    using assms(2) unfolding diff by (simp_all add: PGSIZE_eq less_mult_imp_div_less)
  let ?ws = "map (\<lambda>i. words (fs + 16 + of_nat (8 * i))) [0..<elem_cnt ?n]"
  have "bitmap_buf_size ?n \<le> bm_size ?n"
    unfolding bm_size_def by (rule DIV_ROUND_UP_covers) simp
  moreover have "?n < BITMAP_ERROR"
    using n(1) by (simp add: BITMAP_ERROR_def SIZE_MAX_def)
  ultimately obtain b where b: "bitmap_create_in_buf ?n ?ws (bm_size ?n) = Some b" "wf_bitmap b" "bit_cnt b = ?n"
    using bitmap_create_in_buf_bits [of ?n ?ws "bm_size ?n"] by auto
  obtain b' where b': "bitmap_set_all b True = Some b'" "wf_bitmap b'" "bit_cnt b' = ?n" "bits_of b' = replicate ?n True"
    using bitmap_set_all_bits [OF b(2), of True] b(3) by auto
  let ?p = "\<lparr>pool_lock = False, used_map = b', base = start\<rparr>"
  have "init_pool words fs start en = Some (?p, fs + of_nat (bm_size ?n))"
    using b(1) b'(1) by (simp add: init_pool_def Let_def bm_size_def)
  moreover have le: "pool_end ?p \<le> unat en"
    using n(2) assms(1) by (simp add: pool_end_def b'(3) mult.commute)
  moreover have "pg_ofs start = 0"
    using assms(3) by (simp add: word_unat_eq_iff unat_pg_ofs)
  moreover have "start \<noteq> NULL"
    using assms(4) by auto
  ultimately show ?thesis
    using b' n(1) assms(2) by (intro exI [of _ ?p]) (auto simp: fresh_pool_def pool_ok_def pool_end_def)
qed

definition scan_inv :: "nat \<Rightarrow> e820_entry list \<Rightarrow> pools_scan \<Rightarrow> bool" where
  "scan_inv F rest ps \<longleftrightarrow>
     (ps_state ps = KERN_START \<or> ps_state ps = KERN \<longrightarrow> ps_kernel ps = None)
     \<and> (ps_state ps \<noteq> KERN_START \<longrightarrow> unat (ps_region_start ps) mod PGSIZE = 0 \<and> 0 < unat (ps_region_start ps)
          \<and> unat (ps_region_start ps) \<le> unat (ps_end ps) \<and> unat (ps_end ps) < 2 ^ 43
          \<and> (\<forall>e \<in> set rest. usable e \<longrightarrow> unat (ps_end ps) \<le> entry_from e))
     \<and> (\<forall>k. ps_kernel ps = Some k \<longrightarrow> fresh_pool k \<and> unat (base k) \<le> unat (ps_region_start ps)
          \<and> bit_cnt (used_map k) < 2 ^ 31)
     \<and> unat (ps_free_start ps) = F + (case ps_kernel ps of None \<Rightarrow> 0 | Some k \<Rightarrow> bm_size (bit_cnt (used_map k)))"

lemma scan_end:
  assumes "map_ok (e # rest)" "usable e"
  shows "\<forall>e' \<in> set rest. usable e' \<longrightarrow> unat (entry_start e + entry_size e) \<le> entry_from e'"
  using assms entry_ok_facts(5) [of e] by (auto simp: map_ok_def)

lemma free_start_add:
  fixes fs :: ptr
  assumes "F < 2 ^ 62" "unat fs = F" "n < 2 ^ 31"
  shows "unat (fs + of_nat (bm_size n)) = F + bm_size n"
proof -
  have "unat fs + bm_size n < 2 ^ 64"
    using bm_size_le [OF assms(3)] assms(1,2) by simp
  then show ?thesis
    using unat_add_nat [of fs "bm_size n"] assms(2) by simp
qed

text \<open>The split of a region between the pools stays inside the region.\<close>

lemma split_point:
  assumes "entry_ok e" "rem \<le> entry_size e div of_nat PGSIZE"
  shows "unat (entry_start e + rem * of_nat PGSIZE) \<le> entry_to e
    \<and> entry_from e \<le> unat (entry_start e + rem * of_nat PGSIZE)
    \<and> unat (entry_start e + rem * of_nat PGSIZE) mod PGSIZE = 0"
proof -
  have "unat rem \<le> unat (entry_size e) div PGSIZE"
    using assms(2) by (simp add: word_le_nat_alt unat_div_distrib PGSIZE_eq)
  then have le: "unat rem * PGSIZE \<le> unat (entry_size e)"
    by (simp add: less_eq_div_iff_mult_less_eq)
  moreover have "entry_from e + unat (entry_size e) < 2 ^ 43"
    using entry_ok_facts(4) [OF assms(1)] by (simp add: entry_to_def entry_from_def)
  ultimately have small: "unat (entry_start e) + unat rem * PGSIZE < 2 ^ 64"
    unfolding entry_from_def by simp
  then have mul: "unat (rem * of_nat PGSIZE) = unat rem * PGSIZE"
    by (simp add: unat_word_ariths(2) PGSIZE_eq)
  then have un: "unat (entry_start e + rem * of_nat PGSIZE) = entry_from e + unat rem * PGSIZE"
    using small by (simp add: unat_add64 entry_from_def)
  have "entry_from e mod PGSIZE = 0"
    using entry_ok_facts(1) [OF assms(1)] .
  with le un show ?thesis
    by (auto simp: entry_to_def entry_from_def)
qed

lemma enter_region_inv:
  assumes ok: "map_ok (e # rest)" and inv: "scan_inv F (e # rest) ps" and us: "usable e"
    and ps': "ps' = enter_region (entry_start e) (entry_size e) ps"
  shows "scan_inv F rest ps' \<and> ps_state ps' \<noteq> KERN_START \<and> unat (ps_region_start ps') \<le> entry_from e
    \<and> unat (ps_end ps') = entry_to e"
proof -
  have e: "entry_ok e"
    using ok by (simp add: map_ok_def)
  note facts = entry_ok_facts [OF e]
  note le = scan_end [OF ok us]
  show ?thesis
  proof (cases "ps_state ps = KERN_START")
    case True
    then have "ps' = ps\<lparr>ps_end := entry_start e + entry_size e, ps_region_start := entry_start e, ps_state := KERN\<rparr>"
      by (simp add: ps' enter_region_def)
    then show ?thesis
      using inv True facts le by (simp add: scan_inv_def) (simp add: entry_from_def)
  next
    case False
    then have "ps' = ps\<lparr>ps_end := entry_start e + entry_size e\<rparr>"
      by (simp add: ps' enter_region_def)
    moreover have "unat (ps_region_start ps) \<le> entry_from e"
      using inv False us by (auto simp: scan_inv_def)
    ultimately show ?thesis
      using inv False facts le by (simp add: scan_inv_def)
  qed
qed

lemma claim_region_inv:
  assumes e: "entry_ok e" and inv: "scan_inv F rest ps" "unat (ps_region_start ps) \<le> entry_from e"
      "unat (ps_end ps) = entry_to e" and F: "F < 2 ^ 62"
    and step: "claim_region words user_pages (entry_start e) (entry_size e) ps = Some ps'"
  shows "scan_inv F rest ps'"
proof (cases "ps_state ps")
  case KERN_START
  then show ?thesis
    using step by (simp add: claim_region_def)
next
  case KERN
  note facts = entry_ok_facts [OF e]
  let ?sp = "entry_size e div of_nat PGSIZE" and ?en = "entry_start e + ps_rem ps * of_nat PGSIZE"
  show ?thesis
  proof (cases "ps_rem ps > ?sp")
    case True
    then show ?thesis
      using step inv KERN by (auto simp: claim_region_def scan_inv_def)
  next
    case False
    then have sp: "unat ?en \<le> entry_to e" "entry_from e \<le> unat ?en" "unat ?en mod PGSIZE = 0"
      using split_point [OF e, of "ps_rem ps"] by auto
    have "unat (ps_region_start ps) \<le> unat ?en" "unat ?en < 2 ^ 43"
      "unat (ps_region_start ps) mod PGSIZE = 0" "0 < unat (ps_region_start ps)"
      using inv KERN sp facts(4) by (auto simp: scan_inv_def)
    from init_pool_fresh [OF this, of words "ps_free_start ps"] obtain p where
      p: "init_pool words (ps_free_start ps) (ps_region_start ps) ?en = Some (p, ps_free_start ps + of_nat (bm_size (bit_cnt (used_map p))))"
        "fresh_pool p" "base p = ps_region_start ps" "bit_cnt (used_map p) < 2 ^ 31"
      by blast
    have fs: "unat (ps_free_start ps + of_nat (bm_size (bit_cnt (used_map p)))) = F + bm_size (bit_cnt (used_map p))"
      using inv(1) KERN by (intro free_start_add [OF F _ p(4)]) (simp add: scan_inv_def)
    show ?thesis
    proof (cases "ps_rem ps = ?sp")
      case True
      then have "ps' = ps\<lparr>ps_kernel := Some p, ps_free_start := ps_free_start ps + of_nat (bm_size (bit_cnt (used_map p))),
          ps_rem := user_pages, ps_state := USER_START\<rparr>"
        using step KERN p(1) by (simp add: claim_region_def Let_def)
      then show ?thesis
        using inv(1) KERN p fs by (simp add: scan_inv_def)
    next
      case rem: False
      then have "ps' = ps\<lparr>ps_kernel := Some p, ps_free_start := ps_free_start ps + of_nat (bm_size (bit_cnt (used_map p))),
          ps_region_start := ?en, ps_rem := user_pages - ?sp + ps_rem ps, ps_state := USER\<rparr>"
        using step KERN p(1) False by (simp add: claim_region_def Let_def)
      then show ?thesis
        using inv KERN p fs sp facts(2) by (simp add: scan_inv_def)
    qed
  qed
next
  case USER_START
  then have "ps' = ps\<lparr>ps_region_start := entry_start e, ps_state := USER\<rparr>"
    using step by (simp add: claim_region_def Let_def)
  then show ?thesis
    using inv USER_START entry_ok_facts [OF e] by (auto simp: scan_inv_def entry_from_def)
next
  case USER
  then have "ps' = ps \<or> (\<exists>r. ps' = ps\<lparr>ps_rem := r\<rparr>)"
    using step by (auto simp: claim_region_def Let_def panic_simps split: if_splits)
  then show ?thesis
    using inv by (auto simp: scan_inv_def)
qed

lemma claim_region_state: "claim_region words up start sz ps = Some ps' \<Longrightarrow> ps_state ps' \<noteq> KERN_START"
  by (cases "ps_state ps") (auto simp: claim_region_def Let_def panic_simps split: if_splits)

lemma scan_entry_inv:
  assumes ok: "map_ok (e # rest)" and inv: "scan_inv F (e # rest) ps" and F: "F < 2 ^ 62"
    and step: "scan_entry words user_pages e ps = Some ps'"
  shows "scan_inv F rest ps' \<and> (usable e \<or> ps_state ps \<noteq> KERN_START \<longrightarrow> ps_state ps' \<noteq> KERN_START)"
proof (cases "usable e")
  case False
  then show ?thesis
    using step inv by (auto simp: scan_entry_def scan_inv_def)
next
  case True
  have e: "entry_ok e"
    using ok by (simp add: map_ok_def)
  have step': "claim_region words user_pages (entry_start e) (entry_size e)
      (enter_region (entry_start e) (entry_size e) ps) = Some ps'"
    using step True by (simp add: scan_entry_def Let_def)
  from enter_region_inv [OF ok inv True refl] claim_region_inv [OF e _ _ _ F step'] claim_region_state [OF step']
  show ?thesis
    by blast
qed

lemma scan_entries_inv:
  assumes "map_ok es" "scan_inv F es ps" "F < 2 ^ 62" "scan_entries words user_pages es ps = Some ps'"
  shows "scan_inv F [] ps' \<and> ((\<exists>e \<in> set es. usable e) \<or> ps_state ps \<noteq> KERN_START \<longrightarrow> ps_state ps' \<noteq> KERN_START)"
  using assms
proof (induction es arbitrary: ps)
  case (Cons e es)
  obtain ps1 where ps1: "scan_entry words user_pages e ps = Some ps1" "scan_entries words user_pages es ps1 = Some ps'"
    using Cons.prems(4) by (auto simp: panic_simps)
  have "map_ok es"
    using Cons.prems(1) by (simp add: map_ok_def split: if_splits)
  with scan_entry_inv [OF Cons.prems(1-3) ps1(1)] Cons.IH [OF _ _ Cons.prems(3) ps1(2)] show ?case
    by auto
qed simp

definition page_safe :: "e820_entry list \<Rightarrow> nat \<Rightarrow> ptr \<Rightarrow> bool" where
  "page_safe es bound a \<longleftrightarrow> bound \<le> unat a
     \<and> (\<exists>e \<in> set es. usable e \<and> entry_from e \<le> unat a \<and> unat a + PGSIZE \<le> entry_to e)"

definition setup_inv :: "e820_entry list \<Rightarrow> nat option \<times> nat \<Rightarrow> nat \<Rightarrow> pool option \<times> pool \<Rightarrow> bool" where
  "setup_inv es szs bound ku \<longleftrightarrow>
     map_option (\<lambda>k. bit_cnt (used_map k)) (fst ku) = fst szs \<and> bit_cnt (used_map (snd ku)) = snd szs
     \<and> pool_ok (snd ku) \<and> (\<forall>a \<in> free_pages (snd ku). page_safe es bound a)
     \<and> (\<forall>k. fst ku = Some k \<longrightarrow> pool_ok k \<and> (\<forall>a \<in> free_pages k. page_safe es bound a)
          \<and> unat (base k) \<le> unat (base (snd ku)) \<and> (\<forall>a \<in> free_pages (snd ku). pool_end k \<le> unat a))"

lemma region_pages:
  assumes p: "pool_ok p" and st: "page_from_pool p start" "unat start mod PGSIZE = 0"
    and lim: "unat start \<le> unat lim" "unat lim \<le> pool_end p"
    and idx: "idx = unat (pg_no start - pg_no (base p))" and cnt: "cnt = unat (lim - start) div PGSIZE"
  shows "idx + cnt \<le> bit_cnt (used_map p) \<and> start = page_addr p idx
    \<and> (\<forall>a \<in> page_run start cnt. unat start \<le> unat a \<and> unat a + PGSIZE \<le> unat lim)"
proof -
  have inp: "unat (base p) \<le> unat start" "unat start < pool_end p"
    using st(1) page_from_pool_iff [OF p] by auto
  obtain B where B: "unat (base p) = PGSIZE * B"
    using pool_ok_aligned [OF p] by (metis mod_0_imp_dvd dvdE)
  obtain S where S: "unat start = PGSIZE * S"
    using st(2) by (metis mod_0_imp_dvd dvdE)
  have BS: "B \<le> S"
    using inp(1) by (simp add: B S)
  have "unat (pg_no start) = S" "unat (pg_no (base p)) = B"
    by (simp_all add: unat_pg_no B S)
  then have idx': "idx = S - B"
    using BS by (simp add: idx unat_sub word_le_nat_alt)
  have "PGSIZE * S < PGSIZE * (B + bit_cnt (used_map p))"
    using inp(2) by (simp add: S pool_end_def B distrib_left)
  then have "idx \<le> bit_cnt (used_map p)"
    by (simp add: idx')
  then have "unat (page_addr p idx) = unat start"
    using BS by (simp add: unat_page_addr [OF p] B S idx' flip: distrib_left)
  then have start: "start = page_addr p idx"
    by (simp add: word_unat_eq_iff)
  have "PGSIZE * cnt \<le> unat lim - unat start"
    using lim(1) by (simp add: cnt unat_sub word_le_nat_alt)
  then have c: "unat start + PGSIZE * cnt \<le> unat lim"
    using lim(1) by linarith
  then have "PGSIZE * (S + cnt) \<le> PGSIZE * (B + bit_cnt (used_map p))"
    using lim(2) by (simp add: pool_end_def S B distrib_left)
  then have len: "idx + cnt \<le> bit_cnt (used_map p)"
    using BS by (simp add: idx')
  have "unat start \<le> unat a \<and> unat a + PGSIZE \<le> unat lim" if a: "a \<in> page_run start cnt" for a
  proof -
    obtain j where j: "j < cnt" "a = page_addr p (idx + j)"
      using a unfolding page_run_def by (auto simp: start page_addr_add simp del: of_nat_mult)
    have "unat a = unat start + PGSIZE * j"
      using unat_page_addr [OF p, of "idx + j"] len j unat_page_addr [OF p, of idx] by (simp add: start distrib_left)
    moreover have "PGSIZE * (j + 1) \<le> PGSIZE * cnt"
      using j(1) by (intro mult_le_mono2) simp
    ultimately show ?thesis
      using c by (simp add: distrib_left)
  qed
  with len start show ?thesis
    by blast
qed

lemma unat_pool_end: "pool_ok p \<Longrightarrow> unat (base p + of_nat (bitmap_size (used_map p) * PGSIZE)) = pool_end p"
  using unat_page_addr [of p "bit_cnt (used_map p)"]
  by (simp add: page_addr_def pool_end_def bitmap_size_def mult.commute)

lemma pool_end_aligned: "pool_ok p \<Longrightarrow> pool_end p mod PGSIZE = 0"
  using pool_ok_aligned [of p] by (auto simp: pool_end_def)

lemma setup_inv_update:
  assumes inv: "setup_inv es szs bound (ko, u)" and k: "ko = Some k"
    and p: "p = (if user then u else k)" and len: "i + n \<le> bit_cnt (used_map p)" and st: "start = page_addr p i"
    and b: "wf_bitmap b" "bit_cnt b = bit_cnt (used_map p)" "bits_of b = set_range (bits_of (used_map p)) i n False"
    and new: "\<forall>a \<in> page_run start n. page_safe es bound a" "user \<Longrightarrow> \<forall>a \<in> page_run start n. pool_end k \<le> unat a"
  shows "setup_inv es szs bound (if user then (ko, p\<lparr>used_map := b\<rparr>) else (Some (p\<lparr>used_map := b\<rparr>), u))"
proof -
  have ok: "pool_ok p"
    using inv k p by (auto simp: setup_inv_def)
  have free: "free_pages (p\<lparr>used_map := b\<rparr>) = free_pages p \<union> page_run start n"
    using free_pages_upd [OF ok len b(2,3)] by (simp add: st)
  have "pool_ok (p\<lparr>used_map := b\<rparr>)" "pool_end (p\<lparr>used_map := b\<rparr>) = pool_end p" "base (p\<lparr>used_map := b\<rparr>) = base p"
    using pool_ok_upd [OF ok b(1,2)] b(2) by (simp_all add: pool_end_def)
  then show ?thesis
    using inv k p new free b(2) by (cases user) (auto simp: setup_inv_def)
qed

lemma split_once_inv:
  assumes step: "split_once start en ku = Some (pe, ku')" and inv: "setup_inv es szs bound ku" and al: "unat start mod PGSIZE = 0"
    and st: "bound \<le> unat start" "e \<in> set es" "usable e" "entry_from e \<le> unat start"
    and en: "unat en = entry_to e" "unat start \<le> unat en"
  shows "setup_inv es szs bound ku' \<and> unat pe mod PGSIZE = 0 \<and> unat start \<le> unat pe"
proof -
  obtain k where k: "fst ku = Some k"
    using step by (auto simp: split_once_def panic_simps)
  obtain user where user: "(if page_from_pool k start then Some False
      else if page_from_pool (snd ku) start then Some True else None) = Some user"
    using step k by (auto simp: split_once_def panic_simps)
  define p where "p = (if user then snd ku else k)"
  define lim where "lim = (if base p + of_nat (bitmap_size (used_map p) * PGSIZE) < en
      then base p + of_nat (bitmap_size (used_map p) * PGSIZE) else en)"
  define i n where "i = unat (pg_no start - pg_no (base p))" and "n = unat (lim - start) div PGSIZE"
  obtain b where b: "bitmap_set_multiple (used_map p) i n False = Some b"
    and eq: "pe = base p + of_nat (bitmap_size (used_map p) * PGSIZE)"
      "ku' = (if user then (fst ku, p\<lparr>used_map := b\<rparr>) else (Some (p\<lparr>used_map := b\<rparr>), snd ku))"
    using step unfolding split_once_def k Option.bind.bind_lunit user Let_def p_def [symmetric] lim_def [symmetric]
      i_def [symmetric] n_def [symmetric]
    by (auto simp: panic_simps simp del: of_nat_mult)
  have ok: "pool_ok p" "pool_ok k"
    using inv k by (auto simp: p_def setup_inv_def)
  have inp: "page_from_pool p start" "user \<Longrightarrow> \<not> page_from_pool k start"
    using user by (auto simp: p_def split: if_splits)
  have pe: "unat pe = pool_end p"
    unfolding eq(1) by (rule unat_pool_end [OF ok(1)])
  have "unat start < pool_end p"
    using inp(1) page_from_pool_iff [OF ok(1)] by simp
  moreover have "lim = (if pe < en then pe else en)"
    unfolding lim_def eq(1) ..
  ultimately have lim: "unat start \<le> unat lim" "unat lim \<le> pool_end p" "unat lim \<le> unat en"
    using en(2) pe by (auto simp: word_less_nat_alt)
  from region_pages [OF ok(1) inp(1) al lim(1,2) i_def n_def]
  have r: "i + n \<le> bit_cnt (used_map p)" "start = page_addr p i"
    "\<And>a. a \<in> page_run start n \<Longrightarrow> unat start \<le> unat a \<and> unat a + PGSIZE \<le> unat lim"
    by blast+
  have safe: "\<forall>a \<in> page_run start n. page_safe es bound a"
    using r(3) st en lim(3) unfolding page_safe_def by fastforce
  have above: "\<forall>a \<in> page_run start n. pool_end k \<le> unat a" if user
  proof -
    have "unat (base k) \<le> unat (base (snd ku))"
      using inv k by (simp add: setup_inv_def)
    also have "\<dots> \<le> unat start"
      using inp(1) page_from_pool_iff [OF ok(1)] that by (simp add: p_def)
    finally have "pool_end k \<le> unat start"
      using inp(2) [OF that] page_from_pool_iff [OF ok(2)] by simp
    then show ?thesis
      using r(3) by fastforce
  qed
  have "wf_bitmap (used_map p)"
    using ok(1) by (simp add: pool_ok_def)
  from bitmap_set_multiple_bits [OF this r(1), of False] b have b':
    "wf_bitmap b" "bit_cnt b = bit_cnt (used_map p)" "bits_of b = set_range (bits_of (used_map p)) i n False"
    by auto
  have "setup_inv es szs bound (fst ku, snd ku)"
    using inv by simp
  from setup_inv_update [OF this k p_def r(1,2) b' safe above] have "setup_inv es szs bound ku'"
    unfolding eq(2) by simp
  with pe pool_end_aligned [OF ok(1)] lim(1,2) show ?thesis
    by simp
qed

lemma split_region_inv:
  assumes "split_region start en ku = Some ku'" "setup_inv es szs bound ku" "unat start mod PGSIZE = 0"
    "bound \<le> unat start" "e \<in> set es" "usable e" "entry_from e \<le> unat start" "unat en = entry_to e" "unat start \<le> unat en"
  shows "setup_inv es szs bound ku'"
  using assms
proof (induction rule: split_region.raw_induct [rotated, consumes 1, case_names step])
  case (step rec start en ku ku')
  obtain pe ku1 where once: "split_once start en ku = Some (pe, ku1)"
    and rest: "(if pe < en then rec pe en ku1 else Some ku1) = Some ku'"
    using step(2) by (auto simp: panic_simps)
  note inv = split_once_inv [OF once step(3-)]
  show ?case
  proof (cases "pe < en")
    case True
    then show ?thesis
      using step(1) [of pe en ku1 ku'] rest inv step(5-) by (simp add: word_less_nat_alt)
  next
    case False
    then show ?thesis
      using rest inv by simp
  qed
qed

lemma pg_round_up_aligned:
  assumes "unat a mod PGSIZE = 0" "unat a < 2 ^ 63"
  shows "unat (pg_round_up a) = unat a"
proof -
  obtain m where m: "unat a = PGSIZE * m"
    using assms(1) by (metis mod_0_imp_dvd dvdE)
  have "DIV_ROUND_UP (PGSIZE * m) PGSIZE = m"
    by (simp add: DIV_ROUND_UP_def PGSIZE_eq)
  then show ?thesis
    using unat_pg_round_up [of a] assms(2) by (simp add: m)
qed

lemma setup_entry_inv:
  assumes step: "setup_entry ub e ku = Some ku'" and inv: "setup_inv es szs (unat ub) ku" and e: "entry_ok e" "e \<in> set es"
    and ub: "unat ub mod PGSIZE = 0" "unat ub < 2 ^ 63"
  shows "setup_inv es szs (unat ub) ku'"
proof (cases "usable e \<and> \<not> entry_start e + entry_size e < ub")
  case False
  then show ?thesis
    using step inv by (auto simp: setup_entry_def Let_def split: if_splits)
next
  case True
  note facts = entry_ok_facts [OF e(1)]
  let ?s = "if entry_start e \<ge> ub then entry_start e else ub"
  have s: "unat ?s mod PGSIZE = 0" "unat ?s < 2 ^ 63" "unat ub \<le> unat ?s" "entry_from e \<le> unat ?s" "unat ?s \<le> entry_to e"
    using facts ub True by (auto simp: entry_from_def word_le_nat_alt word_less_nat_alt)
  have up: "unat (pg_round_up ?s) = unat ?s"
    by (rule pg_round_up_aligned [OF s(1,2)])
  have "split_region (pg_round_up ?s) (entry_start e + entry_size e) ku = Some ku'"
    using step True by (simp add: setup_entry_def Let_def del: not_less)
  then show ?thesis
    by (rule split_region_inv [OF _ inv _ _ e(2)]) (use True up s facts(5) in simp_all)
qed

lemma setup_entries_inv:
  assumes "setup_entries ub es' ku = Some ku'" "setup_inv es szs (unat ub) ku" "\<forall>e \<in> set es'. entry_ok e" "set es' \<subseteq> set es"
    "unat ub mod PGSIZE = 0" "unat ub < 2 ^ 63"
  shows "setup_inv es szs (unat ub) ku'"
  using assms
proof (induction es' arbitrary: ku)
  case (Cons e es')
  obtain ku1 where "setup_entry ub e ku = Some ku1" "setup_entries ub es' ku1 = Some ku'"
    using Cons.prems(1) by (auto simp: panic_simps)
  then show ?case
    using Cons setup_entry_inv [of ub e ku ku1 es] by auto
qed simp

lemma fresh_no_free: "fresh_pool p \<Longrightarrow> free_pages p = {}"
  by (auto simp: fresh_pool_def free_pages_def)

lemma bm_size_aligned: "bm_size n mod PGSIZE = 0"
  by (simp add: bm_size_def)

definition pools_bound :: "ptr \<Rightarrow> nat option \<Rightarrow> nat \<Rightarrow> nat" where
  "pools_bound end_addr nk nu =
     unat (pg_round_up end_addr) + (case nk of None \<Rightarrow> 0 | Some n \<Rightarrow> bm_size n) + bm_size nu"

lemma populate_pools_inv:
  assumes ok: "map_ok es" "\<exists>e \<in> set es. usable e" and end_addr: "unat end_addr < 2 ^ 61"
    and step: "populate_pools end_addr limit words es base_mem ext_mem = Some ku"
  shows "\<exists>nk nu. setup_inv es (nk, nu) (pools_bound end_addr nk nu) ku"
proof -
  define F where "F = unat (pg_round_up end_addr)"
  define tot where "tot = (a_size base_mem + a_size ext_mem) div of_nat PGSIZE"
  define ps0 where "ps0 = \<lparr>ps_state = KERN_START, ps_rem = tot - user_pages_of limit tot, ps_region_start = 0, ps_end = 0,
             ps_free_start = pg_round_up end_addr, ps_kernel = None\<rparr>"
  obtain ps u fs where ps: "scan_entries words (user_pages_of limit tot) es ps0 = Some ps"
    and u: "init_pool words (ps_free_start ps) (ps_region_start ps) (ps_end ps) = Some (u, fs)"
    and set_up: "setup_entries fs es (ps_kernel ps, u) = Some ku"
    using step unfolding populate_pools_def Let_def tot_def [symmetric] ps0_def [symmetric]
    by (auto simp: panic_simps)
  have F: "F mod PGSIZE = 0" "F < 2 ^ 62"
    using unat_pg_round_up [of end_addr] end_addr by (simp_all add: F_def DIV_ROUND_UP_def PGSIZE_eq)
  have "scan_inv F es ps0"
    by (simp add: scan_inv_def ps0_def F_def)
  from scan_entries_inv [OF ok(1) this F(2) ps] ok(2) have inv: "scan_inv F [] ps" "ps_state ps \<noteq> KERN_START"
    by blast+
  then have "unat (ps_region_start ps) \<le> unat (ps_end ps)" "unat (ps_end ps) < 2 ^ 43"
    "unat (ps_region_start ps) mod PGSIZE = 0" "0 < unat (ps_region_start ps)"
    by (simp_all add: scan_inv_def)
  from init_pool_fresh [OF this, of words "ps_free_start ps"] u have
    fresh: "fs = ps_free_start ps + of_nat (bm_size (bit_cnt (used_map u)))" "fresh_pool u" "base u = ps_region_start ps"
      "bit_cnt (used_map u) < 2 ^ 31"
    by auto
  let ?nk = "map_option (\<lambda>k. bit_cnt (used_map k)) (ps_kernel ps)" and ?nu = "bit_cnt (used_map u)"
  have fs0: "unat (ps_free_start ps) = F + (case ?nk of None \<Rightarrow> 0 | Some n \<Rightarrow> bm_size n)"
    using inv(1) by (simp add: scan_inv_def option.case_eq_if option.map_sel)
  have nk: "(case ?nk of None \<Rightarrow> 0 | Some n \<Rightarrow> bm_size n) < 2 ^ 51"
    using inv(1) bm_size_le by (auto simp: scan_inv_def split: option.splits)
  have "unat (ps_free_start ps) + bm_size ?nu < 2 ^ 63"
    using fs0 nk F(2) bm_size_le [OF fresh(4)] by simp
  then have fs: "unat fs = pools_bound end_addr ?nk ?nu" "unat fs < 2 ^ 63"
    using unat_add_nat [of "ps_free_start ps" "bm_size ?nu"] fs0 by (simp_all add: fresh(1) pools_bound_def F_def)
  have "unat fs mod PGSIZE = 0"
    unfolding fs(1) pools_bound_def F_def [symmetric] using F(1) bm_size_aligned
    by (auto split: option.splits simp: mod_0_imp_dvd)
  moreover have "setup_inv es (?nk, ?nu) (unat fs) (ps_kernel ps, u)"
    using inv(1) fresh by (auto simp: setup_inv_def scan_inv_def fresh_no_free) (simp_all add: fresh_pool_def)
  moreover have "\<forall>e \<in> set es. entry_ok e"
    using ok(1) by (simp add: map_ok_def)
  ultimately have "setup_inv es (?nk, ?nu) (unat fs) ku"
    by (intro setup_entries_inv [OF set_up _ _ subset_refl _ fs(2)])
  then show ?thesis
    unfolding fs(1) by blast
qed

text \<open>C29: Whatever memory map the boot loader reports, of page-aligned, ascending regions, a page that the
  allocator can hand out lies wholly inside a usable region of the map and above the end of the
  kernel image and of both bitmaps; no page is free in both pools.\<close>

theorem palloc_init_safe:
  assumes "map_ok es" "\<exists>e \<in> set es. usable e" "unat end_addr < 2 ^ 61"
    and "palloc_init end_addr limit words es = Some (ram_end, Some k, u)"
  shows "(\<forall>a \<in> free_pages k \<union> free_pages u.
        (\<exists>e \<in> set es. usable e \<and> entry_from e \<le> unat a \<and> unat a + PGSIZE \<le> entry_to e)
        \<and> unat end_addr + bitmap_buf_size (bit_cnt (used_map k)) + bitmap_buf_size (bit_cnt (used_map u)) \<le> unat a)
    \<and> free_pages k \<inter> free_pages u = {} \<and> pool_ok k \<and> pool_ok u"
proof -
  have "\<exists>base_mem ext_mem. populate_pools end_addr limit words es base_mem ext_mem = Some (Some k, u)"
    using assms(4) by (auto simp: palloc_init_def panic_simps Let_def split: prod.splits)
  with populate_pools_inv [OF assms(1-3)] obtain nk nu where
    inv: "setup_inv es (nk, nu) (pools_bound end_addr nk nu) (Some k, u)"
    by blast
  have sizes: "nk = Some (bit_cnt (used_map k))" "nu = bit_cnt (used_map u)"
    using inv by (auto simp: setup_inv_def)
  have "unat end_addr \<le> unat (pg_round_up end_addr)"
    using unat_pg_round_up [of end_addr] assms(3) DIV_ROUND_UP_covers [of PGSIZE "unat end_addr"] by simp
  moreover have "bitmap_buf_size n \<le> bm_size n" for n
    unfolding bm_size_def by (rule DIV_ROUND_UP_covers) simp
  ultimately have "unat end_addr + bitmap_buf_size (bit_cnt (used_map k)) + bitmap_buf_size (bit_cnt (used_map u))
      \<le> pools_bound end_addr nk nu"
    by (simp add: pools_bound_def sizes add_mono)
  moreover have "page_safe es (pools_bound end_addr nk nu) a" if "a \<in> free_pages k \<union> free_pages u" for a
    using inv that by (auto simp: setup_inv_def)
  moreover have "pool_ok k" "pool_ok u" "\<forall>a \<in> free_pages u. pool_end k \<le> unat a"
    using inv by (auto simp: setup_inv_def)
  moreover have "unat a < pool_end k" if a: "a \<in> free_pages k" for a
  proof -
    obtain i where i: "a = page_addr k i" "i < bit_cnt (used_map k)"
      using a by (auto simp: free_pages_def)
    then have "PGSIZE * i < PGSIZE * bit_cnt (used_map k)"
      by simp
    then show ?thesis
      using unat_page_addr [OF \<open>pool_ok k\<close>, of i] i by (simp add: pool_end_def)
  qed
  ultimately show ?thesis
    unfolding page_safe_def by fastforce
qed

definition e820 :: "32 word \<Rightarrow> 32 word \<Rightarrow> e820_entry" where
  "e820 start len = \<lparr>e_size = 20, mem_lo = start, mem_hi = 0, len_lo = len, len_hi = 0, e_type = USABLE\<rparr>"

lemmas boot_eval = PGSIZE_eq DIV_ROUND_UP_def bitmap_buf_size_def byte_cnt_def elem_cnt_def ELEM_BITS_def Let_def
  bitmap_create_in_buf_def bitmap_set_all_def bitmap_set_multiple_def bitmap_size_def bitmap_set_loop.simps bitmap_ops
  size_wrap_def usable_def USABLE_def entry_start_def entry_size_def APPEND_HILO_def ptov_def KERN_BASE_def e820_def

lemma demo_kernel_pool: "init_pool (\<lambda>_. 0) 0x8004001000 0x8004000000 0x8004008000 =
    Some (\<lparr>pool_lock = False, used_map = \<lparr>bit_cnt = 8, bits = [255]\<rparr>, base = 0x8004000000\<rparr>, 0x8004002000)"
  by (simp add: init_pool_def boot_eval)

lemma demo_user_pool: "init_pool (\<lambda>_. 0) 0x8004002000 0x8004008000 0x8004010000 =
    Some (\<lparr>pool_lock = False, used_map = \<lparr>bit_cnt = 8, bits = [255]\<rparr>, base = 0x8004008000\<rparr>, 0x8004003000)"
  by (simp add: init_pool_def boot_eval)

lemma demo_scan: "scan_entry (\<lambda>_. 0) 8 (e820 0 0x10000) \<lparr>ps_state = KERN_START, ps_rem = 8, ps_region_start = 0, ps_end = 0,
             ps_free_start = 0x8004001000, ps_kernel = None\<rparr> =
   Some \<lparr>ps_state = USER, ps_rem = 0, ps_region_start = 0x8004008000, ps_end = 0x8004010000,
     ps_free_start = 0x8004002000, 
     ps_kernel = Some \<lparr>pool_lock = False, used_map = \<lparr>bit_cnt = 8, bits = [255]\<rparr>, base = 0x8004000000\<rparr>\<rparr>"
  by (simp add: scan_entry_def enter_region_def claim_region_def demo_kernel_pool boot_eval)

lemma demo_split1: "split_once 0x8004003000 0x8004010000 
   (Some \<lparr>pool_lock = False, used_map = \<lparr>bit_cnt = 8, bits = [255]\<rparr>, base = 0x8004000000\<rparr>,
    \<lparr>pool_lock = False, used_map = \<lparr>bit_cnt = 8, bits = [255]\<rparr>, base = 0x8004008000\<rparr>) =
   Some (0x8004008000, Some \<lparr>pool_lock = False, used_map = \<lparr>bit_cnt = 8, bits = [7]\<rparr>, base = 0x8004000000\<rparr>,
    \<lparr>pool_lock = False, used_map = \<lparr>bit_cnt = 8, bits = [255]\<rparr>, base = 0x8004008000\<rparr>)"
  by (simp add: split_once_def page_from_pool_def pg_no_def PGBITS_def boot_eval)

lemma demo_split2: "split_once 0x8004008000 0x8004010000 
   (Some \<lparr>pool_lock = False, used_map = \<lparr>bit_cnt = 8, bits = [7]\<rparr>, base = 0x8004000000\<rparr>,
    \<lparr>pool_lock = False, used_map = \<lparr>bit_cnt = 8, bits = [255]\<rparr>, base = 0x8004008000\<rparr>) =
   Some (0x8004010000, Some \<lparr>pool_lock = False, used_map = \<lparr>bit_cnt = 8, bits = [7]\<rparr>, base = 0x8004000000\<rparr>,
    \<lparr>pool_lock = False, used_map = \<lparr>bit_cnt = 8, bits = [0]\<rparr>, base = 0x8004008000\<rparr>)"
  by (simp add: split_once_def page_from_pool_def pg_no_def PGBITS_def boot_eval)

lemma demo_boot: "palloc_init 0x8004001000 (- 1) (\<lambda>_. 0) [e820 0 0x10000] =
    Some (0, Some \<lparr>pool_lock = False, used_map = \<lparr>bit_cnt = 8, bits = [7]\<rparr>, base = 0x8004000000\<rparr>,
      \<lparr>pool_lock = False, used_map = \<lparr>bit_cnt = 8, bits = [0]\<rparr>, base = 0x8004008000\<rparr>)"
proof -
  have "pg_round_up 0x8004001000 = 0x8004001000" "pg_round_up 0x8004003000 = 0x8004003000"
    by (simp_all add: pg_round_up_def PGMASK_eq PGSIZE_eq mask_eq_exp_minus_1)
  moreover have "resolve_area_info [e820 0 0x10000] (\<lparr>a_start = 0, a_end = 0, a_size = 0\<rparr>, \<lparr>a_start = 0, a_end = 0, a_size = 0\<rparr>) =
    (\<lparr>a_start = 0, a_end = 0x10000, a_size = 0x10000\<rparr>, \<lparr>a_start = 0, a_end = 0, a_size = 0\<rparr>)"
    by (simp add: resolve_area_info_def resolve_entry_def extend_area_def BASE_MEM_THRESHOLD_def boot_eval)
  moreover have "user_pages_of (- 1) 16 = 8"
    by (simp add: user_pages_of_def)
  moreover have "setup_entry 0x8004003000 (e820 0 0x10000)
   (Some \<lparr>pool_lock = False, used_map = \<lparr>bit_cnt = 8, bits = [255]\<rparr>, base = 0x8004000000\<rparr>,
    \<lparr>pool_lock = False, used_map = \<lparr>bit_cnt = 8, bits = [255]\<rparr>, base = 0x8004008000\<rparr>) = 
    Some (Some \<lparr>pool_lock = False, used_map = \<lparr>bit_cnt = 8, bits = [7]\<rparr>, base = 0x8004000000\<rparr>,
      \<lparr>pool_lock = False, used_map = \<lparr>bit_cnt = 8, bits = [0]\<rparr>, base = 0x8004008000\<rparr>)"
    by (simp add: setup_entry_def calculation boot_eval split_region.simps demo_split1 demo_split2)
  ultimately show ?thesis
    using demo_scan demo_user_pool
    by (simp add: palloc_init_def populate_pools_def PGSIZE_eq)
qed

lemma demo_map: "map_ok [e820 0 0x10000]" "\<exists>e \<in> set [e820 0 0x10000]. usable e"
  by (simp_all add: map_ok_def entry_ok_def boot_eval)

theorem palloc_init_safe_witness:
  "\<exists>r k u. palloc_init 0x8004001000 (- 1) (\<lambda>_. 0) [e820 0 0x10000] = Some (r, Some k, u)
     \<and> free_pages k \<noteq> {} \<and> free_pages k \<inter> free_pages u = {} \<and> pool_ok k"
proof -
  define k where "k = \<lparr>pool_lock = False, used_map = \<lparr>bit_cnt = 8, bits = [7]\<rparr>, base = (0x8004000000 :: ptr)\<rparr>"
  have "\<not> bits_of (used_map k) ! 3"
    by (simp add: k_def bits_of_nth)
  then have "page_addr k 3 \<in> free_pages k"
    unfolding free_pages_def by (intro imageI) (simp add: k_def)
  then show ?thesis
    using palloc_init_safe [OF demo_map _ demo_boot] demo_boot unfolding k_def [symmetric] by auto
qed

text \<open>C30: The assertion that guards the end of the user pool compares a number of pages with a number of bytes:
  once the user pool is being filled, a non-empty region that is at least as large as the rest of the
  pool stops the kernel with a panic.\<close>

theorem claim_region_user_panics:
  assumes "ps_state ps = USER" "ps_rem ps \<le> sz div of_nat PGSIZE" "sz \<noteq> 0"
  shows "claim_region words user_pages start sz ps = None"
proof -
  have "unat (ps_rem ps) \<le> unat sz div 4096"
    using assms(2) by (simp add: word_le_nat_alt unat_div_distrib PGSIZE_eq)
  moreover have "0 < unat sz"
    using assms(3) by (simp add: unat_gt_0)
  ultimately have "ps_rem ps \<noteq> sz"
    by (metis div_less_dividend leD one_less_numeral_iff semiring_norm(76) semiring_norm(78))
  then show ?thesis
    using assms(1,2) by (simp add: claim_region_def Let_def not_less [symmetric])
qed

theorem claim_region_user_panics_witness:
  "claim_region (\<lambda>_. 0) 8 0x8004010000 0x4000 \<lparr>ps_state = USER, ps_rem = 4, ps_region_start = 0x8004008000,
     ps_end = 0x8004010000, ps_free_start = 0x8004002000, ps_kernel = None\<rparr> = None"
  by (rule claim_region_user_panics) (simp_all add: PGSIZE_eq)

end
