(* ===== verification/Byte_Order.thy ===== *)
theory Byte_Order
  imports Prelude
begin

section \<open>Words as bytes\<close>

text \<open>The little-endian representation of 32- and 64-bit words, in which the disk and the memory hold them.\<close>

definition le32 :: "32 word \<Rightarrow> 8 word list" where
  "le32 w = [ucast w, ucast (drop_bit 8 w), ucast (drop_bit 16 w), ucast (drop_bit 24 w)]"

definition of_le32 :: "8 word list \<Rightarrow> 32 word" where
  "of_le32 bs = ucast (bs ! 0) OR push_bit 8 (ucast (bs ! 1)) OR push_bit 16 (ucast (bs ! 2)) OR push_bit 24 (ucast (bs ! 3))"

definition le64 :: "64 word \<Rightarrow> 8 word list" where
  "le64 w = [ucast w, ucast (drop_bit 8 w), ucast (drop_bit 16 w), ucast (drop_bit 24 w),
     ucast (drop_bit 32 w), ucast (drop_bit 40 w), ucast (drop_bit 48 w), ucast (drop_bit 56 w)]"

definition of_le64 :: "8 word list \<Rightarrow> 64 word" where
  "of_le64 bs = ucast (bs ! 0) OR push_bit 8 (ucast (bs ! 1)) OR push_bit 16 (ucast (bs ! 2)) OR push_bit 24 (ucast (bs ! 3))
     OR push_bit 32 (ucast (bs ! 4)) OR push_bit 40 (ucast (bs ! 5)) OR push_bit 48 (ucast (bs ! 6)) OR push_bit 56 (ucast (bs ! 7))"

lemma le32_length [simp]: "length (le32 w) = 4"
  by (simp add: le32_def)

lemma of_le32_le32: "of_le32 (le32 w @ bs) = w"
proof (rule bit_word_eqI)
  fix n assume n: "n < LENGTH(32)"
  consider "n < 8" | "8 \<le> n" "n < 16" | "16 \<le> n" "n < 24" | "24 \<le> n" "n < 32"
    using n by force
  then show "bit (of_le32 (le32 w @ bs)) n = bit w n"
    by cases (simp_all add: of_le32_def le32_def bit_simps less_diff_conv2)
qed

lemma le64_length [simp]: "length (le64 w) = 8"
  by (simp add: le64_def)

lemma of_le64_le64: "of_le64 (le64 w @ bs) = w"
proof (rule bit_word_eqI)
  fix n assume n: "n < LENGTH(64)"
  consider "n < 8" | "8 \<le> n" "n < 16" | "16 \<le> n" "n < 24" | "24 \<le> n" "n < 32"
    | "32 \<le> n" "n < 40" | "40 \<le> n" "n < 48" | "48 \<le> n" "n < 56" | "56 \<le> n" "n < 64"
    using n by force
  then show "bit (of_le64 (le64 w @ bs)) n = bit w n"
    by cases (simp_all add: of_le64_def le64_def bit_simps less_diff_conv2)
qed

end
