(* ===== verification/Inodes.thy ===== *)
theory Inodes
  imports Byte_Order "HOL-Library.Signed_Division"
begin

section \<open>Disk sectors and inodes (\<^verbatim>\<open>filesys/inode.c\<close>)\<close>

text \<open>
  The disk is the contents of its sectors, which \<^verbatim>\<open>disk_read\<close> and
  \<^verbatim>\<open>disk_write\<close> of \<^verbatim>\<open>devices/disk.c\<close> transfer as a whole after they have
  checked the sector number. An inode is an extent of consecutive sectors with a length in bytes.

  The in-memory inodes are records behind pointers. The address of a new block of memory is the
  next value of a counter, and the outcomes of the coming calls of \<^verbatim>\<open>malloc\<close> and
  \<^verbatim>\<open>calloc\<close> are a list in the state (\<^term>\<open>True\<close> when it is used up). An
  \<^verbatim>\<open>off_t\<close> is a signed 32-bit integer, a sector number an unsigned one; the buffer that a
  caller passes is the list of the bytes read into it or written from it.
\<close>

subsection \<open>State\<close>

definition DISK_SECTOR_SIZE :: nat where "DISK_SECTOR_SIZE = 512"

definition INODE_MAGIC :: "32 word" where "INODE_MAGIC = 0x494e4f44"

record disk =
  sectors :: "nat \<Rightarrow> 8 word list"
  capacity :: nat
  read_cnt :: nat
  write_cnt :: nat

record inode_disk =
  d_start :: nat
  d_length :: int
  d_magic :: "32 word"

record inode =
  i_sector :: nat
  open_cnt :: int
  removed :: bool
  deny_write_cnt :: int
  i_data :: inode_disk

record fs =
  fs_disk :: disk
  fs_inodes :: "nat \<Rightarrow> inode option"
  open_inodes :: "nat list"
  next_block :: nat
  mallocs :: "bool list"

definition sector_ok :: "disk \<Rightarrow> nat \<Rightarrow> bool" where
  "sector_ok d sec_no \<longleftrightarrow> sec_no < capacity d \<and> sec_no < 2 ^ 28"

definition disk_read :: "nat \<Rightarrow> 'a fs_scheme \<Rightarrow> (8 word list \<times> 'a fs_scheme) option" where
  "disk_read sec_no s = do {
     ASSERT (sector_ok (fs_disk s) sec_no);
     Some (sectors (fs_disk s) sec_no, s\<lparr>fs_disk := (fs_disk s)\<lparr>read_cnt := read_cnt (fs_disk s) + 1\<rparr>\<rparr>)
   }"

definition disk_write :: "nat \<Rightarrow> 8 word list \<Rightarrow> 'a fs_scheme \<Rightarrow> 'a fs_scheme option" where
  "disk_write sec_no buffer s = do {
     ASSERT (sector_ok (fs_disk s) sec_no);
     Some (s\<lparr>fs_disk := (fs_disk s)\<lparr>sectors := (sectors (fs_disk s))(sec_no := buffer),
                                   write_cnt := write_cnt (fs_disk s) + 1\<rparr>\<rparr>)
   }"

definition try_malloc :: "'a fs_scheme \<Rightarrow> bool \<times> 'a fs_scheme" where
  "try_malloc s = (case mallocs s of [] \<Rightarrow> (True, s) | b # bs \<Rightarrow> (b, s\<lparr>mallocs := bs\<rparr>))"

subsection \<open>The layout of an inode on disk\<close>

definition inode_disk_bytes :: "inode_disk \<Rightarrow> 8 word list" where
  "inode_disk_bytes d = le32 (of_nat (d_start d)) @ le32 (of_int (d_length d)) @ le32 (d_magic d) @ replicate 500 0"

definition inode_disk_of :: "8 word list \<Rightarrow> inode_disk" where
  "inode_disk_of bs = \<lparr>d_start = unat (of_le32 bs), d_length = sint (of_le32 (drop 4 bs)), d_magic = of_le32 (drop 8 bs)\<rparr>"

subsection \<open>Operations\<close>

definition bytes_to_sectors :: "int \<Rightarrow> nat" where
  "bytes_to_sectors sz = nat (s32 (sz + int DISK_SECTOR_SIZE - 1) sdiv int DISK_SECTOR_SIZE mod 2 ^ 64)"

definition byte_to_sector :: "inode \<Rightarrow> int \<Rightarrow> nat" where
  "byte_to_sector inode pos =
     (if pos < d_length (i_data inode)
      then nat ((int (d_start (i_data inode)) + pos sdiv int DISK_SECTOR_SIZE) mod 2 ^ 32)
      else 2 ^ 32 - 1)"

definition inode_init :: "'a fs_scheme \<Rightarrow> 'a fs_scheme" where
  "inode_init s = s\<lparr>open_inodes := []\<rparr>"

definition get_inode :: "nat \<Rightarrow> 'a fs_scheme \<Rightarrow> inode option" where
  "get_inode p s = fs_inodes s p"

definition put_inode :: "nat \<Rightarrow> inode \<Rightarrow> 'a fs_scheme \<Rightarrow> 'a fs_scheme" where
  "put_inode p inode s = s\<lparr>fs_inodes := (fs_inodes s)(p \<mapsto> inode)\<rparr>"

definition inode_reopen :: "nat option \<Rightarrow> 'a fs_scheme \<Rightarrow> (nat option \<times> 'a fs_scheme) option" where
  "inode_reopen inode s =
     (case inode of
        None \<Rightarrow> Some (inode, s)
      | Some p \<Rightarrow> do {
          i \<leftarrow> get_inode p s;
          Some (inode, put_inode p (i\<lparr>open_cnt := s32 (open_cnt i + 1)\<rparr>) s)
        })"

fun find_open :: "nat \<Rightarrow> nat list \<Rightarrow> 'a fs_scheme \<Rightarrow> nat option option" where
  "find_open sector [] s = Some None"
| "find_open sector (p # ps) s = do {
     i \<leftarrow> get_inode p s;
     if i_sector i = sector then Some (Some p) else find_open sector ps s
   }"

definition inode_open :: "nat \<Rightarrow> 'a fs_scheme \<Rightarrow> (nat option \<times> 'a fs_scheme) option" where
  "inode_open sector s = do {
     found \<leftarrow> find_open sector (open_inodes s) s;
     case found of
       Some p \<Rightarrow> inode_reopen (Some p) s
     | None \<Rightarrow>
         let (got, s) = try_malloc s
         in if \<not> got then Some (None, s)
            else do {
              let p = next_block s;
              let s = s\<lparr>next_block := p + 1, open_inodes := p # open_inodes s\<rparr>;
              (bs, s) \<leftarrow> disk_read sector s;
              Some (Some p, put_inode p
                \<lparr>i_sector = sector, open_cnt = 1, removed = False, deny_write_cnt = 0, i_data = inode_disk_of bs\<rparr> s)
            }
   }"

definition inode_get_inumber :: "nat \<Rightarrow> 'a fs_scheme \<Rightarrow> nat option" where
  "inode_get_inumber p s = do { i \<leftarrow> get_inode p s; Some (i_sector i) }"

definition inode_remove :: "nat \<Rightarrow> 'a fs_scheme \<Rightarrow> 'a fs_scheme option" where
  "inode_remove p s = do { i \<leftarrow> get_inode p s; Some (put_inode p (i\<lparr>removed := True\<rparr>) s) }"

definition inode_length :: "inode \<Rightarrow> int" where
  "inode_length inode = d_length (i_data inode)"

text \<open>
  The part of a request that lies in one sector. An access outside the bounce buffer, which a negative
  offset could ask for, is \<^term>\<open>None\<close>.
\<close>

definition sector_ofs :: "int \<Rightarrow> int" where
  "sector_ofs offset = offset smod int DISK_SECTOR_SIZE"

definition sector_left :: "int \<Rightarrow> int" where
  "sector_left offset = int DISK_SECTOR_SIZE - sector_ofs offset"

definition chunk_size :: "inode \<Rightarrow> int \<Rightarrow> int \<Rightarrow> int" where
  "chunk_size inode sz offset =
     (let inode_left = s32 (inode_length inode - offset);
          min_left = (if inode_left < sector_left offset then inode_left else sector_left offset)
      in if sz < min_left then sz else min_left)"

definition read_chunk :: "inode \<Rightarrow> int \<Rightarrow> int \<Rightarrow> bool \<Rightarrow> 'a fs_scheme \<Rightarrow> ((8 word list \<times> bool) option \<times> 'a fs_scheme) option" where
  "read_chunk inode offset chunk bounce s =
     (let sector_idx = byte_to_sector inode offset
      in if sector_ofs offset = 0 \<and> chunk = int DISK_SECTOR_SIZE then do {
           (bs, s) \<leftarrow> disk_read sector_idx s;
           Some (Some (bs, bounce), s)
         } else
           let (got, s) = (if bounce then (True, s) else try_malloc s)
           in if \<not> got then Some (None, s)
              else do {
                (bs, s) \<leftarrow> disk_read sector_idx s;
                ASSERT (0 \<le> sector_ofs offset \<and> sector_ofs offset + chunk \<le> int DISK_SECTOR_SIZE);
                Some (Some (take (nat chunk) (drop (nat (sector_ofs offset)) bs), True), s)
              })"

function read_loop :: "inode \<Rightarrow> int \<Rightarrow> int \<Rightarrow> bool \<Rightarrow> 8 word list \<Rightarrow> 'a fs_scheme \<Rightarrow> (8 word list \<times> 'a fs_scheme) option" where
  "read_loop inode sz offset bounce buffer s =
     (let chunk = chunk_size inode sz offset
      in if sz \<le> 0 \<or> chunk \<le> 0 then Some (buffer, s)
         else do {
           (r, s) \<leftarrow> read_chunk inode offset chunk bounce s;
           case r of
             None \<Rightarrow> Some (buffer, s)
           | Some (bs, bounce) \<Rightarrow> read_loop inode (sz - chunk) (offset + chunk) bounce (buffer @ bs) s
         })"
  by pat_completeness auto
termination
  by (relation "measure (\<lambda>(inode, sz, offset, bounce, buffer, s). nat sz)") auto

declare read_loop.simps [simp del]

definition inode_read_at :: "nat \<Rightarrow> int \<Rightarrow> int \<Rightarrow> 'a fs_scheme \<Rightarrow> (8 word list \<times> 'a fs_scheme) option" where
  "inode_read_at p sz offset s = do {
     inode \<leftarrow> get_inode p s;
     read_loop inode sz offset False [] s
   }"

definition write_chunk :: "inode \<Rightarrow> 8 word list \<Rightarrow> int \<Rightarrow> int \<Rightarrow> bool \<Rightarrow> 'a fs_scheme \<Rightarrow> (bool option \<times> 'a fs_scheme) option" where
  "write_chunk inode buffer offset chunk bounce s =
     (let sector_idx = byte_to_sector inode offset
      in if sector_ofs offset = 0 \<and> chunk = int DISK_SECTOR_SIZE then do {
           s \<leftarrow> disk_write sector_idx (take DISK_SECTOR_SIZE buffer) s;
           Some (Some bounce, s)
         } else
           let (got, s) = (if bounce then (True, s) else try_malloc s)
           in if \<not> got then Some (None, s)
              else do {
                (bs, s) \<leftarrow> (if sector_ofs offset > 0 \<or> chunk < sector_left offset then disk_read sector_idx s
                           else Some (replicate DISK_SECTOR_SIZE 0, s));
                ASSERT (0 \<le> sector_ofs offset \<and> sector_ofs offset + chunk \<le> int DISK_SECTOR_SIZE);
                let ofs = nat (sector_ofs offset);
                let bs = take ofs bs @ take (nat chunk) buffer @ drop (ofs + nat chunk) bs;
                s \<leftarrow> disk_write sector_idx bs s;
                Some (Some True, s)
              })"

function write_loop :: "inode \<Rightarrow> 8 word list \<Rightarrow> int \<Rightarrow> int \<Rightarrow> bool \<Rightarrow> int \<Rightarrow> 'a fs_scheme \<Rightarrow> (int \<times> 'a fs_scheme) option" where
  "write_loop inode buffer sz offset bounce bytes_written s =
     (let chunk = chunk_size inode sz offset
      in if sz \<le> 0 \<or> chunk \<le> 0 then Some (bytes_written, s)
         else do {
           (r, s) \<leftarrow> write_chunk inode buffer offset chunk bounce s;
           case r of
             None \<Rightarrow> Some (bytes_written, s)
           | Some bounce \<Rightarrow>
               write_loop inode (drop (nat chunk) buffer) (sz - chunk) (offset + chunk) bounce (bytes_written + chunk) s
         })"
  by pat_completeness auto
termination
  by (relation "measure (\<lambda>(inode, buffer, sz, offset, bounce, bytes_written, s). nat sz)") auto

declare write_loop.simps [simp del]

definition inode_write_at :: "nat \<Rightarrow> 8 word list \<Rightarrow> int \<Rightarrow> int \<Rightarrow> 'a fs_scheme \<Rightarrow> (int \<times> 'a fs_scheme) option" where
  "inode_write_at p buffer sz offset s = do {
     inode \<leftarrow> get_inode p s;
     if deny_write_cnt inode \<noteq> 0 then Some (0, s)
     else write_loop inode buffer sz offset False 0 s
   }"

definition inode_deny_write :: "nat \<Rightarrow> 'a fs_scheme \<Rightarrow> 'a fs_scheme option" where
  "inode_deny_write p s = do {
     i \<leftarrow> get_inode p s;
     let i = i\<lparr>deny_write_cnt := s32 (deny_write_cnt i + 1)\<rparr>;
     ASSERT (deny_write_cnt i \<le> open_cnt i);
     Some (put_inode p i s)
   }"

definition inode_allow_write :: "nat \<Rightarrow> 'a fs_scheme \<Rightarrow> 'a fs_scheme option" where
  "inode_allow_write p s = do {
     i \<leftarrow> get_inode p s;
     ASSERT (deny_write_cnt i > 0);
     ASSERT (deny_write_cnt i \<le> open_cnt i);
     Some (put_inode p (i\<lparr>deny_write_cnt := deny_write_cnt i - 1\<rparr>) s)
   }"

subsection \<open>The contents of a file\<close>

definition byte_at :: "disk \<Rightarrow> inode \<Rightarrow> nat \<Rightarrow> 8 word" where
  "byte_at d inode k = sectors d (d_start (i_data inode) + k div 512) ! (k mod 512)"

definition file_len :: "inode \<Rightarrow> nat" where
  "file_len inode = nat (inode_length inode)"

definition file_bytes :: "disk \<Rightarrow> inode \<Rightarrow> 8 word list" where
  "file_bytes d inode = map (byte_at d inode) [0..<file_len inode]"

definition extent :: "inode \<Rightarrow> nat set" where
  "extent inode = {d_start (i_data inode)..<d_start (i_data inode) + bytes_to_sectors (inode_length inode)}"

definition disk_ok :: "disk \<Rightarrow> bool" where
  "disk_ok d \<longleftrightarrow> capacity d \<le> 2 ^ 28 \<and> (\<forall>i < capacity d. length (sectors d i) = 512)"

definition inode_ok :: "disk \<Rightarrow> inode \<Rightarrow> bool" where
  "inode_ok d inode \<longleftrightarrow> 0 \<le> inode_length inode \<and> inode_length inode + 511 < 2 ^ 31
     \<and> d_start (i_data inode) + bytes_to_sectors (inode_length inode) \<le> capacity d"

lemma sector_size [simp]: "DISK_SECTOR_SIZE = 512"
  by (simp add: DISK_SECTOR_SIZE_def)

lemma sdiv_nat: "int a sdiv int b = int (a div b)"
  by (simp add: signed_divide_int_def sgn_if zdiv_int)

lemma smod_nat: "int a smod int b = int (a mod b)"
  by (simp add: signed_modulo_int_def sgn_if zmod_int)

lemma bytes_to_sectors_eq:
  assumes "n + 511 < 2 ^ 31"
  shows "bytes_to_sectors (int n) = (n + 511) div 512"
proof -
  have "s32 (int n + 511) sdiv 512 = int ((n + 511) div 512)"
    using assms sdiv_nat [of "n + 511" 512] by simp
  moreover have "(n + 511) div 512 < 2 ^ 64"
    using assms by (intro order_le_less_trans [OF div_le_dividend]) simp
  ultimately show ?thesis
    by (simp add: bytes_to_sectors_def add.commute)
qed

lemma inode_ok_len: "inode_ok d inode \<Longrightarrow> inode_length inode = int (file_len inode) \<and> file_len inode + 511 < 2 ^ 31"
  by (auto simp: inode_ok_def file_len_def nat_less_iff)

lemma sector_in_extent:
  assumes "inode_ok d inode" "k < file_len inode"
  shows "d_start (i_data inode) + k div 512 \<in> extent inode" "d_start (i_data inode) + k div 512 < capacity d"
proof -
  have "k div 512 < (file_len inode + 511) div 512"
    using DIV_ROUND_UP_index [of 512 k "file_len inode"] assms(2) by (simp add: DIV_ROUND_UP_def)
  then show "d_start (i_data inode) + k div 512 \<in> extent inode"
    using bytes_to_sectors_eq [of "file_len inode"] inode_ok_len [OF assms(1)] by (simp add: extent_def)
  then show "d_start (i_data inode) + k div 512 < capacity d"
    using assms(1) by (simp add: extent_def inode_ok_def)
qed

lemma byte_to_sector_eq:
  assumes "disk_ok d" "inode_ok d inode" "k < file_len inode"
  shows "byte_to_sector inode (int k) = d_start (i_data inode) + k div 512"
proof -
  have "d_start (i_data inode) + k div 512 < 2 ^ 32"
    using sector_in_extent(2) [OF assms(2,3)] assms(1) by (simp add: disk_ok_def)
  then have "(int (d_start (i_data inode)) + int k sdiv 512) mod 2 ^ 32 = int (d_start (i_data inode) + k div 512)"
    using sdiv_nat [of k 512] by simp
  moreover have "int k < d_length (i_data inode)"
    using assms(3) by (simp add: file_len_def inode_length_def)
  ultimately show ?thesis
    by (simp add: byte_to_sector_def)
qed

lemma sector_readable:
  assumes "disk_ok d" "inode_ok d inode" "k < file_len inode"
  shows "sector_ok d (d_start (i_data inode) + k div 512)" "length (sectors d (d_start (i_data inode) + k div 512)) = 512"
  using sector_in_extent(2) [OF assms(2,3)] assms(1) by (auto simp: sector_ok_def disk_ok_def)

lemma sector_ofs_eq: "sector_ofs (int k) = int (k mod 512)"
  using smod_nat [of k 512] by (simp add: sector_ofs_def)

definition chunk_of :: "inode \<Rightarrow> nat \<Rightarrow> nat \<Rightarrow> nat" where
  "chunk_of inode n k = min n (min (file_len inode - k) (512 - k mod 512))"

lemma chunk_size_eq:
  assumes "inode_ok d inode" "k < 2 ^ 31" "0 < sz"
  shows "chunk_size inode sz (int k) \<le> 0 \<longleftrightarrow> file_len inode \<le> k"
    "k < file_len inode \<Longrightarrow> chunk_size inode sz (int k) = int (chunk_of inode (nat sz) k)"
proof -
  have len: "inode_length inode = int (file_len inode)" "file_len inode < 2 ^ 31"
    using inode_ok_len [OF assms(1)] by simp_all
  then have "s32 (inode_length inode - int k) = int (file_len inode) - int k"
    using assms(2) by (intro trans [OF s32_id]) simp_all
  moreover have "k mod 512 < 512"
    by simp
  ultimately show "chunk_size inode sz (int k) \<le> 0 \<longleftrightarrow> file_len inode \<le> k"
    "k < file_len inode \<Longrightarrow> chunk_size inode sz (int k) = int (chunk_of inode (nat sz) k)"
    using assms(3) by (auto simp: chunk_size_def Let_def sector_left_def sector_ofs_eq chunk_of_def of_nat_diff min_def)
qed

subsection \<open>Reading\<close>

definition reads_only :: "'a fs_scheme \<Rightarrow> 'a fs_scheme \<Rightarrow> bool" where
  "reads_only s s' \<longleftrightarrow> (\<exists>r ms. s' = s\<lparr>fs_disk := (fs_disk s)\<lparr>read_cnt := r\<rparr>, mallocs := ms\<rparr> \<and> (mallocs s = [] \<longrightarrow> ms = []))"

lemma reads_only_refl: "reads_only s s"
  unfolding reads_only_def by (rule exI [of _ "read_cnt (fs_disk s)"], rule exI [of _ "mallocs s"]) simp

lemma reads_only_trans: "reads_only s s' \<Longrightarrow> reads_only s' s'' \<Longrightarrow> reads_only s s''"
  unfolding reads_only_def
proof (elim exE conjE)
  fix r ms r' ms'
  assume "s' = s\<lparr>fs_disk := (fs_disk s)\<lparr>read_cnt := r\<rparr>, mallocs := ms\<rparr>" "mallocs s = [] \<longrightarrow> ms = []"
    "s'' = s'\<lparr>fs_disk := (fs_disk s')\<lparr>read_cnt := r'\<rparr>, mallocs := ms'\<rparr>" "mallocs s' = [] \<longrightarrow> ms' = []"
  then show "\<exists>r ms. s'' = s\<lparr>fs_disk := (fs_disk s)\<lparr>read_cnt := r\<rparr>, mallocs := ms\<rparr> \<and> (mallocs s = [] \<longrightarrow> ms = [])"
    by (intro exI [of _ r'] exI [of _ ms']) simp
qed

lemma reads_only_facts:
  assumes "reads_only s s'"
  shows "sectors (fs_disk s') = sectors (fs_disk s)" "capacity (fs_disk s') = capacity (fs_disk s)"
    "fs_inodes s' = fs_inodes s" "open_inodes s' = open_inodes s" "next_block s' = next_block s"
    "mallocs s = [] \<Longrightarrow> mallocs s' = []" "fs.more s' = fs.more s"
  using assms by (auto simp: reads_only_def)

lemma same_sectors:
  assumes "sectors d' = sectors d" "capacity d' = capacity d"
  shows "disk_ok d' = disk_ok d" "inode_ok d' i = inode_ok d i" "byte_at d' i = byte_at d i" "file_bytes d' i = file_bytes d i"
    "sector_ok d' n = sector_ok d n"
  using assms by (auto simp: disk_ok_def inode_ok_def byte_at_def file_bytes_def sector_ok_def fun_eq_iff)

lemma try_malloc_reads: "reads_only s (snd (try_malloc s)) \<and> (mallocs s = [] \<longrightarrow> fst (try_malloc s))"
proof (cases "mallocs s")
  case Nil
  then show ?thesis
    by (simp add: try_malloc_def reads_only_refl)
next
  case (Cons b bs)
  then show ?thesis
    unfolding try_malloc_def reads_only_def by (auto intro!: exI [of _ "read_cnt (fs_disk s)"])
qed

lemma disk_read_eq:
  assumes "sector_ok (fs_disk s) n"
  shows "\<exists>s'. disk_read n s = Some (sectors (fs_disk s) n, s') \<and> reads_only s s'"
  using assms unfolding disk_read_def reads_only_def
  by (auto intro!: exI [of _ "read_cnt (fs_disk s) + 1"] exI [of _ "mallocs s"])

lemma div_mod_within:
  assumes "k mod 512 + j < (512 :: nat)"
  shows "(k + j) div 512 = k div 512" "(k + j) mod 512 = k mod 512 + j"
proof -
  define q r where "q = k div 512" and "r = k mod 512"
  have "k + j = 512 * q + (r + j)"
    by (simp add: q_def r_def)
  moreover have "(512 * q + (r + j)) div 512 = q" "(512 * q + (r + j)) mod 512 = r + j"
    using assms by (simp_all flip: r_def)
  ultimately show "(k + j) div 512 = k div 512" "(k + j) mod 512 = k mod 512 + j"
    by (simp_all only: q_def r_def)
qed

lemma sector_slice:
  assumes "k mod 512 + c \<le> 512" "length (sectors d (d_start (i_data i) + k div 512)) = 512"
  shows "take c (drop (k mod 512) (sectors d (d_start (i_data i) + k div 512))) = map (byte_at d i) [k..<k + c]"
proof (rule nth_equalityI)
  show "length (take c (drop (k mod 512) (sectors d (d_start (i_data i) + k div 512)))) = length (map (byte_at d i) [k..<k + c])"
    using assms by simp
  fix j assume "j < length (take c (drop (k mod 512) (sectors d (d_start (i_data i) + k div 512))))"
  then have j: "j < c" "k mod 512 + j < 512"
    using assms by simp_all
  show "take c (drop (k mod 512) (sectors d (d_start (i_data i) + k div 512))) ! j = map (byte_at d i) [k..<k + c] ! j"
    using j assms div_mod_within [OF j(2)] by (simp add: byte_at_def)
qed

lemma read_chunk_result:
  assumes ok: "disk_ok (fs_disk s)" "inode_ok (fs_disk s) i" and k: "k < file_len i" and c: "c \<le> 512 - k mod 512"
  shows "\<exists>r s'. read_chunk i (int k) (int c) bounce s = Some (r, s') \<and> reads_only s s'
    \<and> (case r of None \<Rightarrow> \<not> bounce \<and> mallocs s \<noteq> []
       | Some (bs, b) \<Rightarrow> bs = map (byte_at (fs_disk s) i) [k..<k + c] \<and> (bounce \<longrightarrow> b))"
proof -
  let ?n = "d_start (i_data i) + k div 512"
  have idx: "byte_to_sector i (int k) = ?n"
    by (rule byte_to_sector_eq [OF ok k])
  have sec: "sector_ok (fs_disk s) ?n" "length (sectors (fs_disk s) ?n) = 512"
    using sector_readable [OF ok k] by auto
  have "k mod 512 + c \<le> 512"
    using c mod_less_divisor [of 512 k] by linarith
  note slice = sector_slice [OF this sec(2)]
  show ?thesis
  proof (cases "sector_ofs (int k) = 0 \<and> int c = int DISK_SECTOR_SIZE")
    case True
    then have "take c (drop (k mod 512) (sectors (fs_disk s) ?n)) = sectors (fs_disk s) ?n"
      using sec(2) by (simp add: sector_ofs_eq)
    then show ?thesis
      using disk_read_eq [OF sec(1)] True slice by (auto simp: read_chunk_def idx Let_def)
  next
    case False
    define m where "m = (if bounce then (True, s) else try_malloc s)"
    have m: "reads_only s (snd m)" "bounce \<or> mallocs s = [] \<Longrightarrow> fst m"
      using try_malloc_reads [of s] by (auto simp: m_def reads_only_refl)
    note sm = same_sectors [OF reads_only_facts(1,2) [OF m(1)]]
    show ?thesis
    proof (cases "fst m")
      case got: False
      then have "read_chunk i (int k) (int c) bounce s = Some (None, snd m)"
        unfolding read_chunk_def Let_def if_not_P [OF False] by (simp add: case_prod_beta flip: m_def)
      then show ?thesis
        using m got by auto
    next
      case got: True
      obtain s' where s': "disk_read ?n (snd m) = Some (sectors (fs_disk s) ?n, s')" "reads_only (snd m) s'"
        using disk_read_eq [of "snd m" ?n] sec(1) sm(5) reads_only_facts(1) [OF m(1)] by auto
      have "read_chunk i (int k) (int c) bounce s = Some (Some (map (byte_at (fs_disk s) i) [k..<k + c], True), s')"
        using got s'(1) slice \<open>k mod 512 + c \<le> 512\<close>
        unfolding read_chunk_def Let_def if_not_P [OF False] by (simp add: case_prod_beta idx sector_ofs_eq flip: m_def)
      then show ?thesis
        using reads_only_trans [OF m(1) s'(2)] by auto
    qed
  qed
qed

lemma chunk_of_facts:
  assumes "k < file_len i" "0 < n"
  shows "0 < chunk_of i n k" "chunk_of i n k \<le> 512 - k mod 512" "k + chunk_of i n k \<le> file_len i" "chunk_of i n k \<le> n"
  using assms mod_less_divisor [of 512 k] by (auto simp: chunk_of_def)

lemma slice_append:
  "c \<le> n \<Longrightarrow> k + c \<le> m \<Longrightarrow> map f [k..<k + c] @ take (n - c) (drop (k + c) (map f [0..<m])) = take n (drop k (map f [0..<m]))"
proof -
  assume "c \<le> n" "k + c \<le> m"
  have "take c (drop k (map f [0..<m])) = map f [k..<k + c]"
    using \<open>k + c \<le> m\<close> by (intro nth_equalityI) auto
  then show ?thesis
    using take_add [of c "n - c" "drop k (map f [0..<m])"] \<open>c \<le> n\<close> by (simp add: add.commute)
qed

lemma read_loop_result:
  assumes "disk_ok (fs_disk s)" "inode_ok (fs_disk s) i" "k < 2 ^ 31" "0 \<le> sz"
  shows "\<exists>bs s'. read_loop i sz (int k) bounce buf s = Some (buf @ bs, s') \<and> reads_only s s'
    \<and> (\<exists>m. bs = take m (take (nat sz) (drop k (file_bytes (fs_disk s) i))))
    \<and> (bounce \<or> mallocs s = [] \<longrightarrow> bs = take (nat sz) (drop k (file_bytes (fs_disk s) i)))"
  using assms
proof (induction "nat sz" arbitrary: sz k bounce buf s rule: less_induct)
  case less
  let ?F = "file_bytes (fs_disk s) i"
  have len: "length ?F = file_len i"
    by (simp add: file_bytes_def)
  show ?case
  proof (cases "0 < sz \<and> k < file_len i")
    case False
    then have "read_loop i sz (int k) bounce buf s = Some (buf @ [], s)"
      using chunk_size_eq(1) [OF less.prems(2,3), of sz] by (subst read_loop.simps) (auto simp: Let_def)
    moreover have "take (nat sz) (drop k ?F) = []"
      using False len by auto
    ultimately show ?thesis
      using reads_only_refl by (intro exI [of _ "[]"] exI [of _ s]) auto
  next
    case True
    define c where "c = chunk_of i (nat sz) k"
    have c: "0 < c" "c \<le> 512 - k mod 512" "k + c \<le> file_len i" "c \<le> nat sz"
      using chunk_of_facts [of k i "nat sz"] True by (auto simp: c_def)
    have chunk: "chunk_size i sz (int k) = int c"
      using chunk_size_eq(2) [OF less.prems(2,3)] True by (simp add: c_def)
    obtain r s1 where r: "read_chunk i (int k) (int c) bounce s = Some (r, s1)" "reads_only s s1"
      "case r of None \<Rightarrow> \<not> bounce \<and> mallocs s \<noteq> []
       | Some (bs, b) \<Rightarrow> bs = map (byte_at (fs_disk s) i) [k..<k + c] \<and> (bounce \<longrightarrow> b)"
      using read_chunk_result [OF less.prems(1,2) conjunct2 [OF True] c(2)] by blast
    have step: "read_loop i sz (int k) bounce buf s = (case r of None \<Rightarrow> Some (buf, s1)
        | Some (bs, b) \<Rightarrow> read_loop i (sz - int c) (int (k + c)) b (buf @ bs) s1)"
      using True c(1) by (subst read_loop.simps) (simp add: chunk r(1) Let_def split: option.splits)
    show ?thesis
    proof (cases r)
      case None
      then show ?thesis
        using step r by (intro exI [of _ "[]"] exI [of _ s1]) (auto intro: exI [of _ 0])
    next
      case (Some p)
      obtain b where p: "p = (map (byte_at (fs_disk s) i) [k..<k + c], b)" "bounce \<longrightarrow> b"
        using r(3) Some by (cases p) auto
      note same = same_sectors [OF reads_only_facts(1,2) [OF r(2)]]
      have "nat (sz - int c) < nat sz" "k + c < 2 ^ 31" "0 \<le> sz - int c"
        using c True inode_ok_len [OF less.prems(2)] by auto
      moreover have nn: "nat (sz - int c) = nat sz - c"
        using c by simp
      ultimately obtain bs s2 m where rec: "read_loop i (sz - int c) (int (k + c)) b (buf @ map (byte_at (fs_disk s) i) [k..<k + c]) s1
          = Some ((buf @ map (byte_at (fs_disk s) i) [k..<k + c]) @ bs, s2)" "reads_only s1 s2"
          "bs = take m (take (nat sz - c) (drop (k + c) ?F))"
          "b \<or> mallocs s1 = [] \<longrightarrow> bs = take (nat sz - c) (drop (k + c) ?F)"
        using less.hyps [of "sz - int c" s1 "k + c" b "buf @ map (byte_at (fs_disk s) i) [k..<k + c]"] less.prems(1,2)
        unfolding same nn by blast
      have all: "map (byte_at (fs_disk s) i) [k..<k + c] @ take (nat sz - c) (drop (k + c) ?F) = take (nat sz) (drop k ?F)"
        using c unfolding file_bytes_def by (intro slice_append) auto
      have "map (byte_at (fs_disk s) i) [k..<k + c] @ bs = take (c + m) (take (nat sz) (drop k ?F))"
        unfolding all [symmetric] rec(3) by simp
      moreover have "bounce \<or> mallocs s = [] \<longrightarrow> map (byte_at (fs_disk s) i) [k..<k + c] @ bs = take (nat sz) (drop k ?F)"
        using rec(4) p(2) reads_only_facts(6) [OF r(2)] all by auto
      ultimately show ?thesis
        using step Some p rec(1) reads_only_trans [OF r(2) rec(2)] by auto
    qed
  qed
qed

subsection \<open>Writing\<close>

definition writes_in :: "nat set \<Rightarrow> 'a fs_scheme \<Rightarrow> 'a fs_scheme \<Rightarrow> bool" where
  "writes_in E s s' \<longleftrightarrow>
     (\<exists>d ms. s' = s\<lparr>fs_disk := d, mallocs := ms\<rparr> \<and> (mallocs s = [] \<longrightarrow> ms = []) \<and> capacity d = capacity (fs_disk s)
       \<and> (\<forall>n. n \<notin> E \<longrightarrow> sectors d n = sectors (fs_disk s) n) \<and> (disk_ok (fs_disk s) \<longrightarrow> disk_ok d))"

lemma writes_in_refl: "writes_in E s s"
  unfolding writes_in_def by (rule exI [of _ "fs_disk s"], rule exI [of _ "mallocs s"]) simp

lemma writes_in_facts:
  assumes "writes_in E s s'"
  shows "capacity (fs_disk s') = capacity (fs_disk s)" "n \<notin> E \<Longrightarrow> sectors (fs_disk s') n = sectors (fs_disk s) n"
    "fs_inodes s' = fs_inodes s" "open_inodes s' = open_inodes s" "next_block s' = next_block s"
    "mallocs s = [] \<Longrightarrow> mallocs s' = []" "fs.more s' = fs.more s" "disk_ok (fs_disk s) \<Longrightarrow> disk_ok (fs_disk s')"
  using assms by (auto simp: writes_in_def)

lemma writes_in_trans:
  assumes "writes_in E s s'" "writes_in E s' s''"
  shows "writes_in E s s''"
proof -
  obtain d ms d' ms' where s': "s' = s\<lparr>fs_disk := d, mallocs := ms\<rparr>" and s'': "s'' = s'\<lparr>fs_disk := d', mallocs := ms'\<rparr>"
    using assms unfolding writes_in_def by blast
  have "s'' = s\<lparr>fs_disk := d', mallocs := ms'\<rparr>"
    using s' s'' by simp
  then show ?thesis
    unfolding writes_in_def
    using writes_in_facts [OF assms(1)] writes_in_facts [OF assms(2)]
    by (intro exI [of _ d'] exI [of _ ms']) simp
qed

lemma writes_in_mono: "writes_in E s s' \<Longrightarrow> E \<subseteq> E' \<Longrightarrow> writes_in E' s s'"
  unfolding writes_in_def by blast

lemma reads_only_writes: "reads_only s s' \<Longrightarrow> writes_in E s s'"
  unfolding reads_only_def writes_in_def
proof (elim exE conjE)
  fix r ms
  assume "s' = s\<lparr>fs_disk := (fs_disk s)\<lparr>read_cnt := r\<rparr>, mallocs := ms\<rparr>" "mallocs s = [] \<longrightarrow> ms = []"
  then show "\<exists>d ms. s' = s\<lparr>fs_disk := d, mallocs := ms\<rparr> \<and> (mallocs s = [] \<longrightarrow> ms = []) \<and> capacity d = capacity (fs_disk s)
       \<and> (\<forall>n. n \<notin> E \<longrightarrow> sectors d n = sectors (fs_disk s) n) \<and> (disk_ok (fs_disk s) \<longrightarrow> disk_ok d)"
    by (intro exI [of _ "(fs_disk s)\<lparr>read_cnt := r\<rparr>"] exI [of _ ms]) (simp add: disk_ok_def)
qed

lemma writes_in_inode_ok: "writes_in E s s' \<Longrightarrow> inode_ok (fs_disk s') i = inode_ok (fs_disk s) i"
  using writes_in_facts(1) [of E s s'] by (simp add: inode_ok_def)

text \<open>A file whose sectors lie outside the written ones keeps its contents.\<close>

lemma writes_in_other:
  assumes "writes_in E s s'" "inode_ok (fs_disk s) i" "extent i \<inter> E = {}"
  shows "file_bytes (fs_disk s') i = file_bytes (fs_disk s) i"
proof -
  have "byte_at (fs_disk s') i k = byte_at (fs_disk s) i k" if "k < file_len i" for k
    using sector_in_extent(1) [OF assms(2) that] assms(3) writes_in_facts(2) [OF assms(1)]
    unfolding byte_at_def by (metis disjoint_iff)
  then show ?thesis
    by (simp add: file_bytes_def)
qed

lemma disk_write_eq:
  assumes "sector_ok (fs_disk s) n" "length bs = 512"
  shows "\<exists>s'. disk_write n bs s = Some s' \<and> writes_in {n} s s' \<and> sectors (fs_disk s') = (sectors (fs_disk s))(n := bs)"
proof -
  let ?d = "(fs_disk s)\<lparr>sectors := (sectors (fs_disk s))(n := bs), write_cnt := write_cnt (fs_disk s) + 1\<rparr>"
  have "disk_write n bs s = Some (s\<lparr>fs_disk := ?d\<rparr>)"
    using assms(1) by (simp add: disk_write_def)
  moreover have "writes_in {n} s (s\<lparr>fs_disk := ?d\<rparr>)"
    unfolding writes_in_def using assms(2) by (intro exI [of _ ?d] exI [of _ "mallocs s"]) (simp add: disk_ok_def)
  ultimately show ?thesis
    by simp
qed

lemma byte_at_patch:
  assumes "k mod 512 + c \<le> 512" "length buffer \<ge> c" "n = d_start (i_data i) + k div 512"
    and S: "S = sectors d n" "length S = 512" and d': "sectors d' = (sectors d)(n := take (k mod 512) S @ take c buffer @ drop (k mod 512 + c) S)"
  shows "byte_at d' i m = (if k \<le> m \<and> m < k + c then buffer ! (m - k) else byte_at d i m)"
proof (cases "m div 512 = k div 512")
  case False
  have "\<not> (k \<le> m \<and> m < k + c)"
  proof
    assume m: "k \<le> m \<and> m < k + c"
    then have "k mod 512 + (m - k) < 512"
      using assms(1) by linarith
    from div_mod_within(1) [OF this] m False show False
      by simp
  qed
  then show ?thesis
    using False by (auto simp: byte_at_def d' assms(3))
next
  case True
  define r where "r = m mod 512"
  have m: "k = 512 * (k div 512) + k mod 512" "m = 512 * (k div 512) + r"
    using True mult_div_mod_eq [of 512 m] by (simp_all add: r_def)
  have r: "r < 512"
    by (simp add: r_def)
  have inside: "k \<le> m \<and> m < k + c \<longleftrightarrow> k mod 512 \<le> r \<and> r < k mod 512 + c" "m - k = r - k mod 512"
    using m by linarith+
  have "byte_at d' i m = (take (k mod 512) S @ take c buffer @ drop (k mod 512 + c) S) ! r"
    using True by (simp add: byte_at_def d' assms(3) r_def)
  also have "\<dots> = (if k mod 512 \<le> r \<and> r < k mod 512 + c then buffer ! (r - k mod 512) else S ! r)"
    using assms(1,2) S(2) r by (auto simp: nth_append)
  also have "S ! r = byte_at d i m"
    using True by (simp add: byte_at_def S(1) assms(3) r_def)
  finally show ?thesis
    unfolding inside .
qed

lemma write_chunk_result:
  assumes ok: "disk_ok (fs_disk s)" "inode_ok (fs_disk s) i" and k: "k < file_len i"
    and c: "0 < c" "c \<le> 512 - k mod 512" "c \<le> length buffer"
  shows "\<exists>r s'. write_chunk i buffer (int k) (int c) bounce s = Some (r, s') \<and> writes_in (extent i) s s'
    \<and> (case r of None \<Rightarrow> \<not> bounce \<and> mallocs s \<noteq> [] \<and> sectors (fs_disk s') = sectors (fs_disk s)
       | Some b \<Rightarrow> (bounce \<longrightarrow> b) \<and> (\<forall>m. byte_at (fs_disk s') i m =
           (if k \<le> m \<and> m < k + c then buffer ! (m - k) else byte_at (fs_disk s) i m)))"
proof -
  let ?n = "d_start (i_data i) + k div 512" and ?S = "sectors (fs_disk s) (d_start (i_data i) + k div 512)"
  let ?new = "take (k mod 512) ?S @ take c buffer @ drop (k mod 512 + c) ?S"
  have idx: "byte_to_sector i (int k) = ?n"
    by (rule byte_to_sector_eq [OF ok k])
  have sec: "sector_ok (fs_disk s) ?n" "length ?S = 512"
    using sector_readable [OF ok k] by auto
  have kc: "k mod 512 + c \<le> 512"
    using c mod_less_divisor [of 512 k] by linarith
  then have new: "length ?new = 512"
    using sec(2) c(3) by simp
  have ext: "{?n} \<subseteq> extent i"
    using sector_in_extent(1) [OF ok(2) k] by simp
  note patch = byte_at_patch [OF kc c(3) refl refl sec(2)]
  show ?thesis
  proof (cases "sector_ofs (int k) = 0 \<and> int c = int DISK_SECTOR_SIZE")
    case True
    then have "take DISK_SECTOR_SIZE buffer = ?new"
      using sec(2) by (simp add: sector_ofs_eq)
    then have eq: "write_chunk i buffer (int k) (int c) bounce s = do { s \<leftarrow> disk_write ?n ?new s; Some (Some bounce, s) }"
      unfolding write_chunk_def Let_def idx if_P [OF True] by (simp only:)
    obtain s' where "disk_write ?n ?new s = Some s'" "writes_in {?n} s s'" "sectors (fs_disk s') = (sectors (fs_disk s))(?n := ?new)"
      using disk_write_eq [OF sec(1) new] by blast
    then show ?thesis
      using eq patch writes_in_mono [OF _ ext] by auto
  next
    case False
    define m where "m = (if bounce then (True, s) else try_malloc s)"
    have m: "reads_only s (snd m)" "bounce \<or> mallocs s = [] \<Longrightarrow> fst m"
      using try_malloc_reads [of s] by (auto simp: m_def reads_only_refl)
    show ?thesis
    proof (cases "fst m")
      case got: False
      then have "write_chunk i buffer (int k) (int c) bounce s = Some (None, snd m)"
        unfolding write_chunk_def Let_def if_not_P [OF False] by (simp add: case_prod_beta flip: m_def)
      then show ?thesis
        using m got reads_only_writes reads_only_facts(1) by auto
    next
      case got: True
      have rd: "sector_ofs (int k) > 0 \<or> int c < sector_left (int k)"
        using False kc by (auto simp: sector_left_def sector_ofs_eq)
      have "sector_ok (fs_disk (snd m)) ?n" "sectors (fs_disk (snd m)) = sectors (fs_disk s)"
        using sec(1) same_sectors(5) [OF reads_only_facts(1,2) [OF m(1)]] reads_only_facts(1) [OF m(1)] by auto
      then obtain s1 where s1: "disk_read ?n (snd m) = Some (?S, s1)" "reads_only (snd m) s1"
        using disk_read_eq [of "snd m" ?n] by auto
      note r1 = reads_only_trans [OF m(1) s1(2)]
      have sec1: "sector_ok (fs_disk s1) ?n" "sectors (fs_disk s1) = sectors (fs_disk s)"
        using sec(1) same_sectors(5) [OF reads_only_facts(1,2) [OF r1]] reads_only_facts(1) [OF r1] by auto
      obtain s' where s': "disk_write ?n ?new s1 = Some s'" "writes_in {?n} s1 s'" "sectors (fs_disk s') = (sectors (fs_disk s))(?n := ?new)"
        using disk_write_eq [OF sec1(1) new] sec1(2) by auto
      have "write_chunk i buffer (int k) (int c) bounce s = Some (Some True, s')"
        using got s1(1) s'(1) kc rd unfolding write_chunk_def Let_def if_not_P [OF False]
        by (simp add: case_prod_beta idx sector_ofs_eq flip: m_def)
      then show ?thesis
        using writes_in_trans [OF reads_only_writes [OF r1] writes_in_mono [OF s'(2) ext]] patch [OF s'(3)] by auto
    qed
  qed
qed

lemma chunk_rest:
  "c \<le> n \<Longrightarrow> k + c \<le> l \<Longrightarrow> c + min (n - c) (l - (k + c)) = min n (l - (k::nat))"
  by linarith

lemma write_loop_result:
  assumes "disk_ok (fs_disk s)" "inode_ok (fs_disk s) i" "k < 2 ^ 31" "0 \<le> sz" "nat sz \<le> length buffer"
  shows "\<exists>w s'. write_loop i buffer sz (int k) bounce bw s = Some (bw + int w, s') \<and> writes_in (extent i) s s'
    \<and> w \<le> min (nat sz) (file_len i - k) \<and> (bounce \<or> mallocs s = [] \<longrightarrow> w = min (nat sz) (file_len i - k))
    \<and> (\<forall>m. byte_at (fs_disk s') i m = (if k \<le> m \<and> m < k + w then buffer ! (m - k) else byte_at (fs_disk s) i m))"
  using assms
proof (induction "nat sz" arbitrary: sz k bounce bw buffer s rule: less_induct)
  case less
  show ?case
  proof (cases "0 < sz \<and> k < file_len i")
    case False
    then have "write_loop i buffer sz (int k) bounce bw s = Some (bw + int 0, s)"
      using chunk_size_eq(1) [OF less.prems(2,3), of sz] by (subst write_loop.simps) (auto simp: Let_def)
    moreover have "min (nat sz) (file_len i - k) = 0"
      using False by auto
    ultimately show ?thesis
      using writes_in_refl by (intro exI [of _ 0] exI [of _ s]) auto
  next
    case True
    define c where "c = chunk_of i (nat sz) k"
    have c: "0 < c" "c \<le> 512 - k mod 512" "k + c \<le> file_len i" "c \<le> nat sz"
      using chunk_of_facts [of k i "nat sz"] True by (auto simp: c_def)
    have chunk: "chunk_size i sz (int k) = int c"
      using chunk_size_eq(2) [OF less.prems(2,3)] True by (simp add: c_def)
    have "c \<le> length buffer"
      using c(4) less.prems(5) by simp
    then obtain r s1 where r: "write_chunk i buffer (int k) (int c) bounce s = Some (r, s1)" "writes_in (extent i) s s1"
      "case r of None \<Rightarrow> \<not> bounce \<and> mallocs s \<noteq> [] \<and> sectors (fs_disk s1) = sectors (fs_disk s)
       | Some b \<Rightarrow> (bounce \<longrightarrow> b) \<and> (\<forall>m. byte_at (fs_disk s1) i m =
           (if k \<le> m \<and> m < k + c then buffer ! (m - k) else byte_at (fs_disk s) i m))"
      using write_chunk_result [OF less.prems(1,2) conjunct2 [OF True] c(1,2)] by blast
    have step: "write_loop i buffer sz (int k) bounce bw s = (case r of None \<Rightarrow> Some (bw, s1)
        | Some b \<Rightarrow> write_loop i (drop c buffer) (sz - int c) (int (k + c)) b (bw + int c) s1)"
      using True c(1) by (subst write_loop.simps) (simp add: chunk r(1) Let_def split: option.splits)
    show ?thesis
    proof (cases r)
      case None
      then show ?thesis
        using step r by (intro exI [of _ 0] exI [of _ s1]) (auto simp: byte_at_def)
    next
      case (Some b)
      have b: "bounce \<longrightarrow> b" "\<And>m. byte_at (fs_disk s1) i m =
           (if k \<le> m \<and> m < k + c then buffer ! (m - k) else byte_at (fs_disk s) i m)"
        using r(3) Some by auto
      have nn: "nat (sz - int c) = nat sz - c"
        using c by simp
      have "nat (sz - int c) < nat sz" "k + c < 2 ^ 31" "0 \<le> sz - int c" "nat (sz - int c) \<le> length (drop c buffer)"
        using c True inode_ok_len [OF less.prems(2)] less.prems(5) by auto
      then obtain w s2 where rec: "write_loop i (drop c buffer) (sz - int c) (int (k + c)) b (bw + int c) s1
            = Some (bw + int c + int w, s2)" "writes_in (extent i) s1 s2"
          "w \<le> min (nat sz - c) (file_len i - (k + c))" "b \<or> mallocs s1 = [] \<longrightarrow> w = min (nat sz - c) (file_len i - (k + c))"
          "\<forall>m. byte_at (fs_disk s2) i m = (if k + c \<le> m \<and> m < k + c + w then drop c buffer ! (m - (k + c)) else byte_at (fs_disk s1) i m)"
        using less.hyps [of "sz - int c" s1 "k + c" "drop c buffer" b "bw + int c"] less.prems(1,2) writes_in_facts(8) [OF r(2)]
        unfolding nn writes_in_inode_ok [OF r(2)] by blast
      have "write_loop i buffer sz (int k) bounce bw s = Some (bw + int (c + w), s2)"
        using step Some rec(1) by simp
      moreover have "c + w \<le> min (nat sz) (file_len i - k)"
        and "b \<or> mallocs s1 = [] \<longrightarrow> c + w = min (nat sz) (file_len i - k)"
        using rec(3,4) unfolding chunk_rest [OF c(4,3), symmetric] by (auto simp del: min.bounded_iff)
      moreover have "byte_at (fs_disk s2) i m = (if k \<le> m \<and> m < k + (c + w) then buffer ! (m - k) else byte_at (fs_disk s) i m)" for m
        using rec(5) b(2) \<open>c \<le> length buffer\<close> by auto
      ultimately show ?thesis
        using writes_in_trans [OF r(2) rec(2)] b(1) writes_in_facts(6) [OF r(2)] by blast
    qed
  qed
qed

lemma file_bytes_patch:
  assumes "k \<le> file_len i" "w \<le> length buffer" "w \<le> file_len i - k"
    and "\<forall>m. byte_at d' i m = (if k \<le> m \<and> m < k + w then buffer ! (m - k) else byte_at d i m)"
  shows "file_bytes d' i = take k (file_bytes d i) @ take w buffer @ drop (k + w) (file_bytes d i)"
  using assms by (intro nth_equalityI) (auto simp: file_bytes_def nth_append)

lemma inode_read_at_result:
  assumes "disk_ok (fs_disk s)" "get_inode p s = Some i" "inode_ok (fs_disk s) i" "k < 2 ^ 31" "0 \<le> sz"
  shows "\<exists>bs s'. inode_read_at p sz (int k) s = Some (bs, s') \<and> reads_only s s'
    \<and> (\<exists>m. bs = take m (take (nat sz) (drop k (file_bytes (fs_disk s) i))))
    \<and> (mallocs s = [] \<longrightarrow> bs = take (nat sz) (drop k (file_bytes (fs_disk s) i)))"
  using read_loop_result [OF assms(1,3-5), of False "[]"] assms(2) by (simp add: inode_read_at_def)

lemma inode_write_at_result:
  assumes "disk_ok (fs_disk s)" "get_inode p s = Some i" "inode_ok (fs_disk s) i" "k < 2 ^ 31" "0 \<le> sz" "nat sz \<le> length buffer"
    "deny_write_cnt i = 0"
  shows "\<exists>w s'. inode_write_at p buffer sz (int k) s = Some (int w, s') \<and> writes_in (extent i) s s'
    \<and> w \<le> min (nat sz) (file_len i - k) \<and> (mallocs s = [] \<longrightarrow> w = min (nat sz) (file_len i - k))
    \<and> (w = 0 \<or> k \<le> file_len i) \<and> file_bytes (fs_disk s') i =
        (if w = 0 then file_bytes (fs_disk s) i
         else take k (file_bytes (fs_disk s) i) @ take w buffer @ drop (k + w) (file_bytes (fs_disk s) i))"
proof -
  obtain w s' where w: "write_loop i buffer sz (int k) False 0 s = Some (0 + int w, s')" "writes_in (extent i) s s'"
      "w \<le> min (nat sz) (file_len i - k)" "mallocs s = [] \<longrightarrow> w = min (nat sz) (file_len i - k)"
      "\<forall>m. byte_at (fs_disk s') i m = (if k \<le> m \<and> m < k + w then buffer ! (m - k) else byte_at (fs_disk s) i m)"
    using write_loop_result [OF assms(1,3-6), of False 0] by blast
  have "file_bytes (fs_disk s') i = file_bytes (fs_disk s) i" if "w = 0"
    using w(5) that by (auto simp: file_bytes_def)
  moreover have "file_bytes (fs_disk s') i = take k (file_bytes (fs_disk s) i) @ take w buffer @ drop (k + w) (file_bytes (fs_disk s) i)"
    if "w \<noteq> 0"
    using w(3,5) that assms(6) by (intro file_bytes_patch) auto
  moreover have "inode_write_at p buffer sz (int k) s = Some (int w, s')"
    using w(1) assms(2,7) by (simp add: inode_write_at_def)
  moreover have "w = 0 \<or> k \<le> file_len i"
    using w(3) by auto
  ultimately show ?thesis
    using w by auto
qed

subsection \<open>The layout on disk\<close>

lemma inode_disk_roundtrip:
  assumes "d_start d < 2 ^ 32" "- (2 ^ 31) \<le> d_length d" "d_length d < 2 ^ 31"
  shows "inode_disk_of (inode_disk_bytes d) = d" "length (inode_disk_bytes d) = 512"
proof -
  have "sint (of_int (d_length d) :: 32 word) = d_length d"
    using assms(2,3) by (simp add: sint_uint unsigned_of_int signed_take_bit_take_bit signed_take_bit_int_eq_self)
  moreover have "drop 4 (inode_disk_bytes d) = le32 (of_int (d_length d)) @ le32 (d_magic d) @ replicate 500 0"
    "drop 8 (inode_disk_bytes d) = le32 (d_magic d) @ replicate 500 0"
    by (simp_all add: inode_disk_bytes_def)
  moreover have "of_le32 (inode_disk_bytes d) = of_nat (d_start d)"
    by (simp add: inode_disk_bytes_def of_le32_le32)
  ultimately show "inode_disk_of (inode_disk_bytes d) = d"
    using assms(1) by (simp add: inode_disk_of_def of_le32_le32 unat_of_nat)
  show "length (inode_disk_bytes d) = 512"
    by (simp add: inode_disk_bytes_def)
qed

subsection \<open>Reading and writing as operations on byte sequences\<close>

text \<open>
  What the file operations promise: a file is a sequence of bytes of fixed length, a read takes a
  slice of it and a write overwrites a slice.
\<close>

definition slice :: "nat \<Rightarrow> nat \<Rightarrow> 'b list \<Rightarrow> 'b list" where
  "slice k n xs = take n (drop k xs)"

definition overwrite :: "nat \<Rightarrow> 'b list \<Rightarrow> 'b list \<Rightarrow> 'b list" where
  "overwrite k ys xs = (if ys = [] then xs else take k xs @ ys @ drop (k + length ys) xs)"

lemma length_overwrite [simp]: "k + length ys \<le> length xs \<Longrightarrow> length (overwrite k ys xs) = length xs"
  by (simp add: overwrite_def)

lemma overwrite_Nil [simp]: "overwrite k [] xs = xs"
  by (simp add: overwrite_def)

lemma slice_overwrite: "k + length ys \<le> length xs \<Longrightarrow> slice k (length ys) (overwrite k ys xs) = ys"
  by (cases "ys = []") (simp_all add: slice_def overwrite_def)

lemma slice_overwrite_before: "k + n \<le> j \<Longrightarrow> j + length ys \<le> length xs \<Longrightarrow> slice k n (overwrite j ys xs) = slice k n xs"
  by (intro nth_equalityI) (auto simp: slice_def overwrite_def nth_append)

lemma slice_overwrite_after: "j + length ys \<le> k \<Longrightarrow> j + length ys \<le> length xs \<Longrightarrow> slice k n (overwrite j ys xs) = slice k n xs"
  by (intro nth_equalityI) (auto simp: slice_def overwrite_def nth_append)

lemma length_file_bytes [simp]: "length (file_bytes d i) = file_len i"
  by (simp add: file_bytes_def)

lemma inode_read_at_slice:
  assumes "disk_ok (fs_disk s)" "get_inode p s = Some i" "inode_ok (fs_disk s) i" "k < 2 ^ 31" "0 \<le> sz"
  obtains m s' where "inode_read_at p sz (int k) s = Some (take m (slice k (nat sz) (file_bytes (fs_disk s) i)), s')"
    "reads_only s s'" "mallocs s = [] \<longrightarrow> m = nat sz"
proof -
  obtain bs s' m where bs: "inode_read_at p sz (int k) s = Some (bs, s')" "reads_only s s'"
      "bs = take m (take (nat sz) (drop k (file_bytes (fs_disk s) i)))"
      "mallocs s = [] \<longrightarrow> bs = take (nat sz) (drop k (file_bytes (fs_disk s) i))"
    using inode_read_at_result [OF assms] by blast
  show ?thesis
  proof (cases "mallocs s = []")
    case True
    then show ?thesis
      using bs by (intro that [of "nat sz" s']) (simp_all add: slice_def)
  next
    case False
    then show ?thesis
      using bs by (intro that [of m s']) (simp_all add: slice_def)
  qed
qed

lemma inode_write_at_overwrite:
  assumes "disk_ok (fs_disk s)" "get_inode p s = Some i" "inode_ok (fs_disk s) i" "k < 2 ^ 31" "0 \<le> sz" "nat sz \<le> length buffer"
    "deny_write_cnt i = 0"
  obtains w s' where "inode_write_at p buffer sz (int k) s = Some (int w, s')" "writes_in (extent i) s s'"
    "w \<le> min (nat sz) (file_len i - k)" "mallocs s = [] \<longrightarrow> w = min (nat sz) (file_len i - k)"
    "file_bytes (fs_disk s') i = overwrite k (take w buffer) (file_bytes (fs_disk s) i)"
proof -
  obtain w s' where w: "inode_write_at p buffer sz (int k) s = Some (int w, s')" "writes_in (extent i) s s'"
    "w \<le> min (nat sz) (file_len i - k)" "mallocs s = [] \<longrightarrow> w = min (nat sz) (file_len i - k)"
    "file_bytes (fs_disk s') i = (if w = 0 then file_bytes (fs_disk s) i
         else take k (file_bytes (fs_disk s) i) @ take w buffer @ drop (k + w) (file_bytes (fs_disk s) i))"
    using inode_write_at_result [OF assms] by blast
  then show ?thesis
    using assms(6) by (intro that [of w s']) (auto simp: overwrite_def)
qed

definition demo_fs :: fs where
  "demo_fs = \<lparr>fs_disk = \<lparr>sectors = (\<lambda>n. replicate 512 7), capacity = 8, read_cnt = 0, write_cnt = 0\<rparr>,
     fs_inodes = [1 \<mapsto> \<lparr>i_sector = 2, open_cnt = 1, removed = False, deny_write_cnt = 0,
       i_data = \<lparr>d_start = 3, d_length = 700, d_magic = INODE_MAGIC\<rparr>\<rparr>],
     open_inodes = [1], next_block = 2, mallocs = []\<rparr>"

text \<open>C34: The contents of an inode behave as a sequence of bytes of fixed length. A write at an offset
  overwrites a slice with a prefix of the buffer and changes no sector outside the file's extent; it is
  shortened only by the end of the file or a failed allocation of the bounce buffer. A read returns a prefix
  of the slice, the whole slice when memory can be allocated, and changes no sector. A read after a write
  at the same place returns what was written.\<close>

theorem inode_io_refines:
  assumes "disk_ok (fs_disk s)" "get_inode p s = Some i" "inode_ok (fs_disk s) i" "deny_write_cnt i = 0"
    and "k < 2 ^ 31" "0 \<le> sz" "nat sz \<le> length buffer"
  shows "\<exists>w s1 m s2. inode_write_at p buffer sz (int k) s = Some (int w, s1)
    \<and> w \<le> min (nat sz) (file_len i - k) \<and> (mallocs s = [] \<longrightarrow> w = min (nat sz) (file_len i - k))
    \<and> file_bytes (fs_disk s1) i = overwrite k (take w buffer) (file_bytes (fs_disk s) i)
    \<and> (\<forall>n. n \<notin> extent i \<longrightarrow> sectors (fs_disk s1) n = sectors (fs_disk s) n)
    \<and> inode_read_at p sz (int k) s1 = Some (take m (slice k (nat sz) (file_bytes (fs_disk s1) i)), s2)
    \<and> sectors (fs_disk s2) = sectors (fs_disk s1) \<and> get_inode p s2 = Some i
    \<and> (mallocs s = [] \<longrightarrow> take m (slice k (nat sz) (file_bytes (fs_disk s1) i)) = take w buffer)"
proof -
  obtain w s1 where w: "inode_write_at p buffer sz (int k) s = Some (int w, s1)" "writes_in (extent i) s s1"
    "w \<le> min (nat sz) (file_len i - k)" "mallocs s = [] \<longrightarrow> w = min (nat sz) (file_len i - k)"
    "file_bytes (fs_disk s1) i = overwrite k (take w buffer) (file_bytes (fs_disk s) i)"
    by (rule inode_write_at_overwrite [OF assms(1-3,5-7,4)])
  have s1: "disk_ok (fs_disk s1)" "get_inode p s1 = Some i" "inode_ok (fs_disk s1) i"
    using writes_in_facts [OF w(2)] writes_in_inode_ok [OF w(2)] assms(1-3) by (simp_all add: get_inode_def)
  obtain m s2 where m: "inode_read_at p sz (int k) s1 = Some (take m (slice k (nat sz) (file_bytes (fs_disk s1) i)), s2)"
    "reads_only s1 s2" "mallocs s1 = [] \<longrightarrow> m = nat sz"
    by (rule inode_read_at_slice [OF s1 assms(5,6)])
  have "take m (slice k (nat sz) (file_bytes (fs_disk s1) i)) = take w buffer" if "mallocs s = []"
  proof (cases "w = 0")
    case True
    then have "nat sz = 0 \<or> file_len i \<le> k"
      using w(4) that by auto
    then show ?thesis
      using True by (auto simp: slice_def)
  next
    case False
    then have "slice k (length (take w buffer)) (file_bytes (fs_disk s1) i) = take w buffer"
      using w(3) unfolding w(5) by (intro slice_overwrite) auto
    moreover have "slice k (nat sz) (file_bytes (fs_disk s1) i) = slice k w (file_bytes (fs_disk s1) i)"
      using w(4) that by (auto simp: slice_def min_def)
    moreover have "length (take w buffer) = w"
      using w(3) assms(7) by simp
    ultimately show ?thesis
      using m(3) writes_in_facts(6) [OF w(2) that] w(3) by simp
  qed
  then show ?thesis
    using w(1,3-5) writes_in_facts(2) [OF w(2)] m(1) reads_only_facts(1,3) [OF m(2)] s1(2)
    by (intro exI [of _ w] exI [of _ s1] exI [of _ m] exI [of _ s2]) (simp add: get_inode_def)
qed

theorem inode_io_refines_witness:
  "\<exists>s1 m s2. inode_write_at 1 [1, 2, 3, 4, 5] 5 510 demo_fs = Some (5, s1)
     \<and> inode_read_at 1 5 510 s1 = Some ([1, 2, 3, 4, 5], s2)"
proof -
  define i where "i = \<lparr>i_sector = 2, open_cnt = 1, removed = False, deny_write_cnt = 0,
       i_data = \<lparr>d_start = 3, d_length = 700, d_magic = INODE_MAGIC\<rparr>\<rparr>"
  have 1: "disk_ok (fs_disk demo_fs)" "get_inode 1 demo_fs = Some i" "deny_write_cnt i = 0" "mallocs demo_fs = []" "file_len i = 700"
    by (simp_all add: demo_fs_def disk_ok_def get_inode_def i_def file_len_def inode_length_def)
  have 2: "inode_ok (fs_disk demo_fs) i"
    using bytes_to_sectors_eq [of 700] by (simp add: demo_fs_def inode_ok_def inode_length_def i_def)
  obtain w s1 m s2 where "inode_write_at 1 [1, 2, 3, 4, 5] 5 (int 510) demo_fs = Some (int w, s1)" "w = min (nat 5) (file_len i - 510)"
    "inode_read_at 1 5 (int 510) s1 = Some (take w [1, 2, 3, 4, 5], s2)"
    using inode_io_refines [OF 1(1,2) 2 1(3), of 510 5 "[1, 2, 3, 4, 5]"] 1(4) by auto
  then show ?thesis
    using 1(5) by simp
qed

end
