(* ===== verification/Files.thy ===== *)
theory Files
  imports Inodes Bitmaps
begin

section \<open>Open files and the free map (\<^verbatim>\<open>filesys/file.c\<close>, \<^verbatim>\<open>filesys/free-map.c\<close>)\<close>

text \<open>
  The open files, the bitmap of the free sectors and the file it is stored in, and the operations on
  inodes that allocate and release sectors. Files and directories are records behind pointers, as the
  inodes are; the null pointer is \<^term>\<open>None\<close>.
\<close>

subsection \<open>State\<close>

record open_file =
  f_inode :: nat
  f_pos :: int
  f_deny_write :: bool

record dir =
  dir_inode :: nat
  dir_pos :: int

record fsys = fs +
  fs_files :: "nat \<Rightarrow> open_file option"
  fs_dirs :: "nat \<Rightarrow> dir option"
  free_map :: bitmap
  free_map_file :: "nat option"

definition FREE_MAP_SECTOR :: nat where "FREE_MAP_SECTOR = 0"

definition ROOT_DIR_SECTOR :: nat where "ROOT_DIR_SECTOR = 1"

definition get_file :: "nat \<Rightarrow> fsys \<Rightarrow> open_file option" where
  "get_file p s = fs_files s p"

definition put_file :: "nat \<Rightarrow> open_file \<Rightarrow> fsys \<Rightarrow> fsys" where
  "put_file p f s = s\<lparr>fs_files := (fs_files s)(p \<mapsto> f)\<rparr>"

subsection \<open>Files\<close>

definition file_get_inode :: "nat \<Rightarrow> fsys \<Rightarrow> nat option" where
  "file_get_inode p s = do { f \<leftarrow> get_file p s; Some (f_inode f) }"

definition file_read :: "nat \<Rightarrow> int \<Rightarrow> fsys \<Rightarrow> (8 word list \<times> fsys) option" where
  "file_read p sz s = do {
     f \<leftarrow> get_file p s;
     (bs, s) \<leftarrow> inode_read_at (f_inode f) sz (f_pos f) s;
     Some (bs, put_file p (f\<lparr>f_pos := s32 (f_pos f + int (length bs))\<rparr>) s)
   }"

definition file_read_at :: "nat \<Rightarrow> int \<Rightarrow> int \<Rightarrow> fsys \<Rightarrow> (8 word list \<times> fsys) option" where
  "file_read_at p sz file_ofs s = do {
     f \<leftarrow> get_file p s;
     inode_read_at (f_inode f) sz file_ofs s
   }"

definition file_write :: "nat \<Rightarrow> 8 word list \<Rightarrow> int \<Rightarrow> fsys \<Rightarrow> (int \<times> fsys) option" where
  "file_write p buffer sz s = do {
     f \<leftarrow> get_file p s;
     (bytes_written, s) \<leftarrow> inode_write_at (f_inode f) buffer sz (f_pos f) s;
     Some (bytes_written, put_file p (f\<lparr>f_pos := s32 (f_pos f + bytes_written)\<rparr>) s)
   }"

definition file_write_at :: "nat \<Rightarrow> 8 word list \<Rightarrow> int \<Rightarrow> int \<Rightarrow> fsys \<Rightarrow> (int \<times> fsys) option" where
  "file_write_at p buffer sz file_ofs s = do {
     f \<leftarrow> get_file p s;
     inode_write_at (f_inode f) buffer sz file_ofs s
   }"

definition file_deny_write :: "nat \<Rightarrow> fsys \<Rightarrow> fsys option" where
  "file_deny_write p s = do {
     f \<leftarrow> get_file p s;
     if \<not> f_deny_write f then inode_deny_write (f_inode f) (put_file p (f\<lparr>f_deny_write := True\<rparr>) s)
     else Some s
   }"

definition file_allow_write :: "nat \<Rightarrow> fsys \<Rightarrow> fsys option" where
  "file_allow_write p s = do {
     f \<leftarrow> get_file p s;
     if f_deny_write f then inode_allow_write (f_inode f) (put_file p (f\<lparr>f_deny_write := False\<rparr>) s)
     else Some s
   }"

definition file_length :: "nat \<Rightarrow> fsys \<Rightarrow> int option" where
  "file_length p s = do {
     f \<leftarrow> get_file p s;
     i \<leftarrow> get_inode (f_inode f) s;
     Some (inode_length i)
   }"

definition file_seek :: "nat \<Rightarrow> int \<Rightarrow> fsys \<Rightarrow> fsys option" where
  "file_seek p new_pos s = do {
     f \<leftarrow> get_file p s;
     ASSERT (new_pos \<ge> 0);
     Some (put_file p (f\<lparr>f_pos := new_pos\<rparr>) s)
   }"

definition file_tell :: "nat \<Rightarrow> fsys \<Rightarrow> int option" where
  "file_tell p s = do { f \<leftarrow> get_file p s; Some (f_pos f) }"

subsection \<open>Bitmaps in files\<close>

definition elems_bytes :: "64 word list \<Rightarrow> 8 word list" where
  "elems_bytes ws = concat (map le64 ws)"

definition elems_of :: "8 word list \<Rightarrow> 64 word list" where
  "elems_of bs = map (\<lambda>i. of_le64 (drop (8 * i) bs)) [0..<length bs div 8]"

definition bitmap_read :: "bitmap \<Rightarrow> nat \<Rightarrow> fsys \<Rightarrow> (bool \<times> bitmap \<times> fsys) option" where
  "bitmap_read b file s =
     (if bit_cnt b > 0 then do {
        let sz = s32 (int (byte_cnt (bit_cnt b)));
        (bs, s) \<leftarrow> file_read_at file sz 0 s;
        let b = b\<lparr>bits := elems_of (bs @ drop (length bs) (elems_bytes (bits b)))\<rparr>;
        w \<leftarrow> get_elem b (elem_cnt (bit_cnt b) - 1);
        b \<leftarrow> put_elem b (elem_cnt (bit_cnt b) - 1) (w AND last_mask b);
        Some (int (length bs) = sz, b, s)
      } else Some (True, b, s))"

definition bitmap_write :: "bitmap \<Rightarrow> nat \<Rightarrow> fsys \<Rightarrow> (bool \<times> fsys) option" where
  "bitmap_write b file s = do {
     let sz = s32 (int (byte_cnt (bit_cnt b)));
     (n, s) \<leftarrow> file_write_at file (elems_bytes (bits b)) sz 0 s;
     Some (n = sz, s)
   }"

subsection \<open>The free map\<close>

definition free_map_init :: "64 word list \<Rightarrow> fsys \<Rightarrow> fsys option" where
  "free_map_init block s =
     (let n = capacity (fs_disk s);
          (got_struct, s) = try_malloc s;
          (got_block, s) = (if got_struct \<and> byte_cnt n > 0 then try_malloc s else (False, s))
      in do {
        r \<leftarrow> bitmap_create got_struct (if got_block then Some block else None) n;
        case r of
          Inl u \<Rightarrow> None
        | Inr b \<Rightarrow> do {
            b \<leftarrow> bitmap_mark b FREE_MAP_SECTOR;
            b \<leftarrow> bitmap_mark b ROOT_DIR_SECTOR;
            Some (s\<lparr>free_map := b\<rparr>)
          }
      })"

definition free_map_allocate :: "nat \<Rightarrow> fsys \<Rightarrow> (nat option \<times> fsys) option" where
  "free_map_allocate cnt s = do {
     (idx, b) \<leftarrow> bitmap_scan_and_flip (free_map s) 0 cnt False;
     let s = s\<lparr>free_map := b\<rparr>;
     let sector = idx mod 2 ^ 32;
     (sector, s) \<leftarrow>
       (case free_map_file s of
          Some file \<Rightarrow>
            if sector \<noteq> BITMAP_ERROR then do {
              (ok, s) \<leftarrow> bitmap_write (free_map s) file s;
              if \<not> ok then do {
                b \<leftarrow> bitmap_set_multiple (free_map s) sector cnt False;
                Some (BITMAP_ERROR mod 2 ^ 32, s\<lparr>free_map := b\<rparr>)
              } else Some (sector, s)
            } else Some (sector, s)
        | None \<Rightarrow> Some (sector, s));
     Some (if sector \<noteq> BITMAP_ERROR then Some sector else None, s)
   }"

definition free_map_release :: "nat \<Rightarrow> nat \<Rightarrow> fsys \<Rightarrow> fsys option" where
  "free_map_release sector cnt s = do {
     all_used \<leftarrow> bitmap_all (free_map s) sector cnt;
     ASSERT all_used;
     b \<leftarrow> bitmap_set_multiple (free_map s) sector cnt False;
     let s = s\<lparr>free_map := b\<rparr>;
     file \<leftarrow> free_map_file s;
     (ok, s) \<leftarrow> bitmap_write b file s;
     Some s
   }"

subsection \<open>Creating and closing inodes\<close>

fun zero_sectors :: "nat \<Rightarrow> nat \<Rightarrow> fsys \<Rightarrow> fsys option" where
  "zero_sectors start 0 s = Some s"
| "zero_sectors start (Suc n) s = do {
     s \<leftarrow> disk_write (start mod 2 ^ 32) (replicate DISK_SECTOR_SIZE 0) s;
     zero_sectors (start + 1) n s
   }"

definition inode_create :: "nat \<Rightarrow> int \<Rightarrow> fsys \<Rightarrow> (bool \<times> fsys) option" where
  "inode_create sector len s = do {
     ASSERT (len \<ge> 0);
     let (got, s) = try_malloc s;
     if got then do {
       let cnt = bytes_to_sectors len;
       (r, s) \<leftarrow> free_map_allocate cnt s;
       case r of
         None \<Rightarrow> Some (False, s)
       | Some start \<Rightarrow> do {
           s \<leftarrow> disk_write sector (inode_disk_bytes \<lparr>d_start = start, d_length = len, d_magic = INODE_MAGIC\<rparr>) s;
           s \<leftarrow> zero_sectors start cnt s;
           Some (True, s)
         }
     } else Some (False, s)
   }"

definition inode_close :: "nat option \<Rightarrow> fsys \<Rightarrow> fsys option" where
  "inode_close inode s =
     (case inode of
        None \<Rightarrow> Some s
      | Some p \<Rightarrow> do {
          i \<leftarrow> get_inode p s;
          let i = i\<lparr>open_cnt := s32 (open_cnt i - 1)\<rparr>;
          let s = put_inode p i s;
          if open_cnt i = 0 then do {
            let s = s\<lparr>open_inodes := remove1 p (open_inodes s)\<rparr>;
            s \<leftarrow> (if removed i then do {
                   s \<leftarrow> free_map_release (i_sector i) 1 s;
                   free_map_release (d_start (i_data i)) (bytes_to_sectors (d_length (i_data i))) s
                 } else Some s);
            Some (s\<lparr>fs_inodes := (fs_inodes s)(p := None)\<rparr>)
          } else Some s
        })"

subsection \<open>Opening and closing files\<close>

definition file_open :: "nat option \<Rightarrow> fsys \<Rightarrow> (nat option \<times> fsys) option" where
  "file_open inode s =
     (let (got, s) = try_malloc s
      in case inode of
           Some p \<Rightarrow>
             if got then
               Some (Some (next_block s),
                 put_file (next_block s) \<lparr>f_inode = p, f_pos = 0, f_deny_write = False\<rparr> s\<lparr>next_block := next_block s + 1\<rparr>)
             else do { s \<leftarrow> inode_close inode s; Some (None, s) }
         | None \<Rightarrow> do { s \<leftarrow> inode_close inode s; Some (None, s) })"

definition file_reopen :: "nat \<Rightarrow> fsys \<Rightarrow> (nat option \<times> fsys) option" where
  "file_reopen p s = do {
     f \<leftarrow> get_file p s;
     (inode, s) \<leftarrow> inode_reopen (Some (f_inode f)) s;
     file_open inode s
   }"

definition file_close :: "nat option \<Rightarrow> fsys \<Rightarrow> fsys option" where
  "file_close file s =
     (case file of
        None \<Rightarrow> Some s
      | Some p \<Rightarrow> do {
          s \<leftarrow> file_allow_write p s;
          f \<leftarrow> get_file p s;
          s \<leftarrow> inode_close (Some (f_inode f)) s;
          Some (s\<lparr>fs_files := (fs_files s)(p := None)\<rparr>)
        })"

subsection \<open>The free-map file\<close>

definition free_map_open :: "fsys \<Rightarrow> fsys option" where
  "free_map_open s = do {
     (inode, s) \<leftarrow> inode_open FREE_MAP_SECTOR s;
     (file, s) \<leftarrow> file_open inode s;
     let s = s\<lparr>free_map_file := file\<rparr>;
     f \<leftarrow> file;
     (ok, b, s) \<leftarrow> bitmap_read (free_map s) f s;
     ASSERT ok;
     Some (s\<lparr>free_map := b\<rparr>)
   }"

definition free_map_close :: "fsys \<Rightarrow> fsys option" where
  "free_map_close s = file_close (free_map_file s) s"

definition free_map_create :: "fsys \<Rightarrow> fsys option" where
  "free_map_create s = do {
     (ok, s) \<leftarrow> inode_create FREE_MAP_SECTOR (s32 (int (bitmap_file_size (free_map s)))) s;
     ASSERT ok;
     (inode, s) \<leftarrow> inode_open FREE_MAP_SECTOR s;
     (file, s) \<leftarrow> file_open inode s;
     let s = s\<lparr>free_map_file := file\<rparr>;
     f \<leftarrow> file;
     (ok, s) \<leftarrow> bitmap_write (free_map s) f s;
     ASSERT ok;
     Some s
   }"

subsection \<open>Bitmaps in files\<close>

lemma elems_bytes_simps [simp]: "elems_bytes [] = []" "elems_bytes (w # ws) = le64 w @ elems_bytes ws"
  by (simp_all add: elems_bytes_def)

lemma length_elems_bytes [simp]: "length (elems_bytes ws) = 8 * length ws"
  by (induction ws) simp_all

lemma elems_of_elems_bytes: "elems_of (elems_bytes ws) = ws"
proof (rule nth_equalityI)
  fix i assume "i < length (elems_of (elems_bytes ws))"
  then have i: "i < length ws"
    by (simp add: elems_of_def)
  have "drop (8 * i) (elems_bytes ws) = le64 (ws ! i) @ elems_bytes (drop (Suc i) ws)"
    using i
  proof (induction ws arbitrary: i)
    case (Cons w ws)
    then show ?case
      by (cases i) simp_all
  qed simp
  then show "elems_of (elems_bytes ws) ! i = ws ! i"
    using i by (simp add: elems_of_def of_le64_le64)
qed (simp add: elems_of_def)

lemma byte_cnt_eq:
  assumes "n \<le> 2 ^ 28"
  shows "elem_cnt n = (n + 63) div 64" "byte_cnt n = 8 * ((n + 63) div 64)" "byte_cnt n < 2 ^ 26" "s32 (int (byte_cnt n)) = int (byte_cnt n)"
proof -
  show e: "elem_cnt n = (n + 63) div 64"
    using assms by (simp add: elem_cnt_def ELEM_BITS_def SIZE_T_MAX_def)
  have "(n + 63) div 64 \<le> (2 ^ 28 + 63) div 64"
    using assms by (intro div_le_mono) simp
  then have b: "(n + 63) div 64 \<le> 2 ^ 22"
    by simp
  then show "byte_cnt n = 8 * ((n + 63) div 64)"
    unfolding byte_cnt_def e by (intro size_wrap_id) (simp add: SIZE_T_MAX_def)
  then show lt: "byte_cnt n < 2 ^ 26"
    using b by simp
  then show "s32 (int (byte_cnt n)) = int (byte_cnt n)"
    by (intro s32_id) simp_all
qed

lemma wf_bitmap_bytes:
  assumes "wf_bitmap b" "bit_cnt b \<le> 2 ^ 28"
  shows "byte_cnt (bit_cnt b) \<le> length (elems_bytes (bits b))" "elem_cnt (bit_cnt b) \<le> length (bits b)"
proof -
  have "(bit_cnt b + 63) div 64 < Suc (length (bits b))"
    using assms(1) by (intro less_mult_imp_div_less) (simp add: wf_bitmap_def)
  then show "byte_cnt (bit_cnt b) \<le> length (elems_bytes (bits b))" "elem_cnt (bit_cnt b) \<le> length (bits b)"
    using byte_cnt_eq(1,2) [OF assms(2)] by simp_all
qed

text \<open>A file of the file system whose contents can be read and written.\<close>

definition writable :: "nat \<Rightarrow> inode \<Rightarrow> fsys \<Rightarrow> bool" where
  "writable p i s \<longleftrightarrow> disk_ok (fs_disk s) \<and> get_inode p s = Some i \<and> inode_ok (fs_disk s) i \<and> deny_write_cnt i = 0"


lemma bitmap_write_result:
  assumes "writable p i s" "mallocs s = []" "get_file f s = Some fl" "f_inode fl = p"
    and "wf_bitmap b" "bit_cnt b \<le> 2 ^ 28" "byte_cnt (bit_cnt b) \<le> file_len i"
  shows "\<exists>s'. bitmap_write b f s = Some (True, s') \<and> writes_in (extent i) s s'
    \<and> file_bytes (fs_disk s') i = overwrite 0 (take (byte_cnt (bit_cnt b)) (elems_bytes (bits b))) (file_bytes (fs_disk s) i)"
proof -
  let ?n = "byte_cnt (bit_cnt b)" and ?bs = "elems_bytes (bits b)"
  have n: "?n \<le> length ?bs" "s32 (int ?n) = int ?n"
    using wf_bitmap_bytes [OF assms(5,6)] byte_cnt_eq(4) [OF assms(6)] by simp_all
  obtain w s' where w: "inode_write_at p ?bs (int ?n) (int 0) s = Some (int w, s')" "writes_in (extent i) s s'"
    "mallocs s = [] \<longrightarrow> w = min (nat (int ?n)) (file_len i - 0)"
    "file_bytes (fs_disk s') i = overwrite 0 (take w ?bs) (file_bytes (fs_disk s) i)"
    using assms(1) n(1) unfolding writable_def
    by (elim conjE) (rule inode_write_at_overwrite [of s p i 0 "int ?n" ?bs], auto)
  have "w = ?n"
    using w(3) assms(2,7) by simp
  then show ?thesis
    using w assms(3,4) n(2) by (simp add: bitmap_write_def file_write_at_def)
qed

lemma bitmap_read_result:
  assumes "writable p i s" "mallocs s = []" "get_file f s = Some fl" "f_inode fl = p"
    and "wf_bitmap b" "bit_cnt b \<le> 2 ^ 28" "0 < bit_cnt b" "byte_cnt (bit_cnt b) \<le> file_len i" "length (bits b) = elem_cnt (bit_cnt b)"
  shows "\<exists>b' s'. bitmap_read b f s = Some (True, b', s') \<and> reads_only s s' \<and> bit_cnt b' = bit_cnt b
    \<and> bits b' = (let ws = elems_of (take (byte_cnt (bit_cnt b)) (file_bytes (fs_disk s) i)); k = elem_cnt (bit_cnt b) - 1
                 in ws[k := ws ! k AND last_mask b])"
proof -
  let ?n = "byte_cnt (bit_cnt b)"
  have n: "?n = 8 * elem_cnt (bit_cnt b)" "s32 (int ?n) = int ?n"
    using byte_cnt_eq [OF assms(6)] by simp_all
  obtain m s' where m: "inode_read_at p (int ?n) (int 0) s = Some (take m (slice 0 (nat (int ?n)) (file_bytes (fs_disk s) i)), s')"
      "reads_only s s'" "mallocs s = [] \<longrightarrow> m = nat (int ?n)"
    using assms(1) unfolding writable_def by (elim conjE) (rule inode_read_at_slice [of s p i 0 "int ?n"], auto)
  let ?bs = "take ?n (file_bytes (fs_disk s) i)"
  have read: "inode_read_at p (int ?n) 0 s = Some (?bs, s')" and len: "length ?bs = ?n"
    using m(1,3) assms(2,8) by (simp_all add: slice_def)
  have "0 < elem_cnt (bit_cnt b)"
    using assms(7) byte_cnt_eq(1) [OF assms(6)] by simp
  moreover have "length (elems_of ?bs) = elem_cnt (bit_cnt b)"
    using len n(1) by (simp add: elems_of_def)
  moreover have "drop (length ?bs) (elems_bytes (bits b)) = []"
    using len n(1) assms(9) by simp
  ultimately show ?thesis
    using read len n(2) assms(3,4,7) m(2)
    by (simp add: bitmap_read_def file_read_at_def get_elem_def put_elem_def Let_def last_mask_def)
qed

end
