(* ===== verification/Directories.thy ===== *)
theory Directories
  imports Files
begin

section \<open>Directories and the file system's entry points (\<^verbatim>\<open>filesys/directory.c\<close>, \<^verbatim>\<open>filesys/filesys.c\<close>)\<close>

text \<open>
  A directory is a file of entries of 20 bytes: the sector of an inode (4 bytes), a name that is
  terminated by a zero byte (15 bytes) and the flag that the entry is in use. An entry in memory is its
  20 bytes, so that the bytes behind the name that \<^verbatim>\<open>strlcpy\<close> does not touch are modelled too;
  the argument \<open>e\<close> of an operation is what its local variable of that type holds at the start.
  A file name is the sequence of its characters without the terminator, and \<^verbatim>\<open>strcmp\<close> returns zero
  exactly when these sequences are equal.
\<close>

subsection \<open>Entries\<close>

definition NAME_MAX :: nat where "NAME_MAX = 14"

definition DIR_ENTRY_SIZE :: nat where "DIR_ENTRY_SIZE = 20"

definition inode_sector :: "8 word list \<Rightarrow> nat" where
  "inode_sector e = unat (of_le32 e)"

definition entry_name :: "8 word list \<Rightarrow> 8 word list" where
  "entry_name e = takeWhile (\<lambda>c. c \<noteq> 0) (take (NAME_MAX + 1) (drop 4 e))"

definition in_use :: "8 word list \<Rightarrow> bool" where
  "in_use e \<longleftrightarrow> e ! 19 \<noteq> 0"

definition set_in_use :: "bool \<Rightarrow> 8 word list \<Rightarrow> 8 word list" where
  "set_in_use b e = e[19 := (if b then 1 else 0)]"

definition set_name :: "8 word list \<Rightarrow> 8 word list \<Rightarrow> 8 word list" where
  "set_name name e = (let n = take NAME_MAX name in take 4 e @ n @ [0] @ drop (5 + length n) e)"

definition set_inode_sector :: "nat \<Rightarrow> 8 word list \<Rightarrow> 8 word list" where
  "set_inode_sector sector e = le32 (of_nat sector) @ drop 4 e"

definition read_entry :: "nat \<Rightarrow> int \<Rightarrow> 8 word list \<Rightarrow> fsys \<Rightarrow> (bool \<times> 8 word list \<times> fsys) option" where
  "read_entry inode ofs e s = do {
     (bs, s) \<leftarrow> inode_read_at inode (int DIR_ENTRY_SIZE) ofs s;
     Some (length bs = DIR_ENTRY_SIZE, bs @ drop (length bs) e, s)
   }"

subsection \<open>Opening and closing\<close>

definition get_dir :: "nat \<Rightarrow> fsys \<Rightarrow> dir option" where
  "get_dir p s = fs_dirs s p"

definition dir_create :: "nat \<Rightarrow> nat \<Rightarrow> fsys \<Rightarrow> (bool \<times> fsys) option" where
  "dir_create sector entry_cnt s = inode_create sector (s32 (int (entry_cnt * DIR_ENTRY_SIZE))) s"

definition dir_open :: "nat option \<Rightarrow> fsys \<Rightarrow> (nat option \<times> fsys) option" where
  "dir_open inode s =
     (let (got, s) = try_malloc s
      in case inode of
           Some p \<Rightarrow>
             if got then
               Some (Some (next_block s),
                 s\<lparr>fs_dirs := (fs_dirs s)(next_block s \<mapsto> \<lparr>dir_inode = p, dir_pos = 0\<rparr>), next_block := next_block s + 1\<rparr>)
             else do { s \<leftarrow> inode_close inode s; Some (None, s) }
         | None \<Rightarrow> do { s \<leftarrow> inode_close inode s; Some (None, s) })"

definition dir_open_root :: "fsys \<Rightarrow> (nat option \<times> fsys) option" where
  "dir_open_root s = do { (inode, s) \<leftarrow> inode_open ROOT_DIR_SECTOR s; dir_open inode s }"

definition dir_get_inode :: "nat \<Rightarrow> fsys \<Rightarrow> nat option" where
  "dir_get_inode p s = do { d \<leftarrow> get_dir p s; Some (dir_inode d) }"

definition dir_reopen :: "nat \<Rightarrow> fsys \<Rightarrow> (nat option \<times> fsys) option" where
  "dir_reopen p s = do {
     d \<leftarrow> get_dir p s;
     (inode, s) \<leftarrow> inode_reopen (Some (dir_inode d)) s;
     dir_open inode s
   }"

definition dir_close :: "nat option \<Rightarrow> fsys \<Rightarrow> fsys option" where
  "dir_close dir s =
     (case dir of
        None \<Rightarrow> Some s
      | Some p \<Rightarrow> do {
          d \<leftarrow> get_dir p s;
          s \<leftarrow> inode_close (Some (dir_inode d)) s;
          Some (s\<lparr>fs_dirs := (fs_dirs s)(p := None)\<rparr>)
        })"

subsection \<open>Entries by name\<close>

partial_function (option) lookup_loop ::
  "nat \<Rightarrow> 8 word list \<Rightarrow> nat \<Rightarrow> 8 word list \<Rightarrow> fsys \<Rightarrow> ((8 word list \<times> nat) option \<times> fsys) option" where
  "lookup_loop inode name ofs e s = do {
     (full, e, s) \<leftarrow> read_entry inode (s32 (int ofs)) e s;
     if full then
       if in_use e \<and> name = entry_name e then Some (Some (e, ofs), s)
       else lookup_loop inode name (size_wrap (ofs + DIR_ENTRY_SIZE)) e s
     else Some (None, s)
   }"

declare lookup_loop.simps [code]

definition lookup :: "nat \<Rightarrow> 8 word list \<Rightarrow> 8 word list \<Rightarrow> fsys \<Rightarrow> ((8 word list \<times> nat) option \<times> fsys) option" where
  "lookup dir name e s = do {
     d \<leftarrow> get_dir dir s;
     lookup_loop (dir_inode d) name 0 e s
   }"

definition dir_lookup :: "nat \<Rightarrow> 8 word list \<Rightarrow> 8 word list \<Rightarrow> fsys \<Rightarrow> (nat option \<times> fsys) option" where
  "dir_lookup dir name e s = do {
     (r, s) \<leftarrow> lookup dir name e s;
     case r of
       Some (e, ofs) \<Rightarrow> inode_open (inode_sector e) s
     | None \<Rightarrow> Some (None, s)
   }"

partial_function (option) free_slot_loop ::
  "nat \<Rightarrow> int \<Rightarrow> 8 word list \<Rightarrow> fsys \<Rightarrow> (int \<times> 8 word list \<times> fsys) option" where
  "free_slot_loop inode ofs e s = do {
     (full, e, s) \<leftarrow> read_entry inode ofs e s;
     if full \<and> in_use e then free_slot_loop inode (s32 (ofs + int DIR_ENTRY_SIZE)) e s
     else Some (ofs, e, s)
   }"

declare free_slot_loop.simps [code]

definition dir_add :: "nat \<Rightarrow> 8 word list \<Rightarrow> nat \<Rightarrow> 8 word list \<Rightarrow> fsys \<Rightarrow> (bool \<times> fsys) option" where
  "dir_add dir name sector e s = do {
     d \<leftarrow> get_dir dir s;
     if name = [] \<or> length name > NAME_MAX then Some (False, s)
     else do {
       (r, s) \<leftarrow> lookup dir name e s;
       case r of
         Some x \<Rightarrow> Some (False, s)
       | None \<Rightarrow> do {
           (ofs, e, s) \<leftarrow> free_slot_loop (dir_inode d) 0 e s;
           let e = set_inode_sector sector (set_name name (set_in_use True e));
           (n, s) \<leftarrow> inode_write_at (dir_inode d) e (int DIR_ENTRY_SIZE) ofs s;
           Some (n = int DIR_ENTRY_SIZE, s)
         }
     }
   }"

definition dir_remove :: "nat \<Rightarrow> 8 word list \<Rightarrow> 8 word list \<Rightarrow> fsys \<Rightarrow> (bool \<times> fsys) option" where
  "dir_remove dir name e s = do {
     d \<leftarrow> get_dir dir s;
     (r, s) \<leftarrow> lookup dir name e s;
     case r of
       None \<Rightarrow> Some (False, s)
     | Some (e, ofs) \<Rightarrow> do {
         (inode, s) \<leftarrow> inode_open (inode_sector e) s;
         case inode of
           None \<Rightarrow> do { s \<leftarrow> inode_close inode s; Some (False, s) }
         | Some i \<Rightarrow> do {
             (n, s) \<leftarrow> inode_write_at (dir_inode d) (set_in_use False e) (int DIR_ENTRY_SIZE) (s32 (int ofs)) s;
             if n \<noteq> int DIR_ENTRY_SIZE then do { s \<leftarrow> inode_close inode s; Some (False, s) }
             else do {
               s \<leftarrow> inode_remove i s;
               s \<leftarrow> inode_close inode s;
               Some (True, s)
             }
           }
       }
   }"

partial_function (option) dir_readdir :: "nat \<Rightarrow> 8 word list \<Rightarrow> fsys \<Rightarrow> (8 word list option \<times> fsys) option" where
  "dir_readdir dir e s = do {
     d \<leftarrow> get_dir dir s;
     (full, e, s) \<leftarrow> read_entry (dir_inode d) (dir_pos d) e s;
     if full then
       let s = s\<lparr>fs_dirs := (fs_dirs s)(dir \<mapsto> d\<lparr>dir_pos := s32 (dir_pos d + int DIR_ENTRY_SIZE)\<rparr>)\<rparr>
       in if in_use e then Some (Some (take NAME_MAX (entry_name e)), s)
          else dir_readdir dir e s
     else Some (None, s)
   }"

declare dir_readdir.simps [code]

subsection \<open>The file system\<close>

definition filesys_create :: "8 word list \<Rightarrow> int \<Rightarrow> 8 word list \<Rightarrow> fsys \<Rightarrow> (bool \<times> fsys) option" where
  "filesys_create name initial_size e s = do {
     (dir, s) \<leftarrow> dir_open_root s;
     (success, sector, s) \<leftarrow>
       (case dir of
          None \<Rightarrow> Some (False, 0, s)
        | Some d \<Rightarrow> do {
            (r, s) \<leftarrow> free_map_allocate 1 s;
            case r of
              None \<Rightarrow> Some (False, 0, s)
            | Some sector \<Rightarrow> do {
                (ok, s) \<leftarrow> inode_create sector initial_size s;
                if \<not> ok then Some (False, sector, s)
                else do {
                  (ok, s) \<leftarrow> dir_add d name sector e s;
                  Some (ok, sector, s)
                }
              }
          });
     s \<leftarrow> (if \<not> success \<and> sector \<noteq> 0 then free_map_release sector 1 s else Some s);
     s \<leftarrow> dir_close dir s;
     Some (success, s)
   }"

definition filesys_open :: "8 word list \<Rightarrow> 8 word list \<Rightarrow> fsys \<Rightarrow> (nat option \<times> fsys) option" where
  "filesys_open name e s = do {
     (dir, s) \<leftarrow> dir_open_root s;
     (inode, s) \<leftarrow> (case dir of None \<Rightarrow> Some (None, s) | Some d \<Rightarrow> dir_lookup d name e s);
     s \<leftarrow> dir_close dir s;
     file_open inode s
   }"

definition filesys_remove :: "8 word list \<Rightarrow> 8 word list \<Rightarrow> fsys \<Rightarrow> (bool \<times> fsys) option" where
  "filesys_remove name e s = do {
     (dir, s) \<leftarrow> dir_open_root s;
     (success, s) \<leftarrow> (case dir of None \<Rightarrow> Some (False, s) | Some d \<Rightarrow> dir_remove d name e s);
     s \<leftarrow> dir_close dir s;
     Some (success, s)
   }"

definition do_format :: "fsys \<Rightarrow> fsys option" where
  "do_format s = do {
     s \<leftarrow> free_map_create s;
     (ok, s) \<leftarrow> dir_create ROOT_DIR_SECTOR 16 s;
     ASSERT ok;
     free_map_close s
   }"

text \<open>The first argument is whether \<^verbatim>\<open>disk_get\<close> finds the disk, the second what the new block of the free map holds.\<close>

definition filesys_init :: "bool \<Rightarrow> 64 word list \<Rightarrow> bool \<Rightarrow> fsys \<Rightarrow> fsys option" where
  "filesys_init present block format s = do {
     ASSERT present;
     let s = inode_init s;
     s \<leftarrow> free_map_init block s;
     s \<leftarrow> (if format then do_format s else Some s);
     free_map_open s
   }"

definition filesys_done :: "fsys \<Rightarrow> fsys option" where
  "filesys_done s = free_map_close s"

subsection \<open>Directory entries\<close>

definition entry_at :: "8 word list \<Rightarrow> nat \<Rightarrow> 8 word list" where
  "entry_at bs j = slice (20 * j) 20 bs"

definition named :: "8 word list \<Rightarrow> 8 word list \<Rightarrow> nat \<Rightarrow> bool" where
  "named name bs j \<longleftrightarrow> in_use (entry_at bs j) \<and> name = entry_name (entry_at bs j)"

definition slots :: "8 word list \<Rightarrow> nat" where
  "slots bs = length bs div 20"

definition new_entry :: "8 word list \<Rightarrow> nat \<Rightarrow> 8 word list \<Rightarrow> 8 word list" where
  "new_entry name sector e = set_inode_sector sector (set_name name (set_in_use True e))"

lemma entry_size [simp]: "DIR_ENTRY_SIZE = 20"
  by (simp add: DIR_ENTRY_SIZE_def)

lemma slot_fits: "j < slots bs \<Longrightarrow> 20 * j + 20 \<le> length bs"
proof -
  assume "j < slots bs"
  then have "20 * Suc j \<le> 20 * (length bs div 20)"
    unfolding slots_def by (intro mult_le_mono2) simp
  also have "\<dots> \<le> length bs"
    by simp
  finally show ?thesis
    by simp
qed

lemma slot_iff: "20 * j + 20 \<le> length bs \<longleftrightarrow> j < slots bs"
proof
  assume "20 * j + 20 \<le> length bs"
  then have "(20 * Suc j) div 20 \<le> length bs div 20"
    by (intro div_le_mono) simp
  then show "j < slots bs"
    by (simp add: slots_def)
qed (rule slot_fits)

lemma length_entry_at [simp]: "j < slots bs \<Longrightarrow> length (entry_at bs j) = 20"
  using slot_fits [of j bs] by (simp add: entry_at_def slice_def)

lemma new_entry_facts:
  assumes "length e = 20" "length name \<le> 14" "0 \<notin> set name" "sector < 2 ^ 32"
  shows "length (new_entry name sector e) = 20" "in_use (new_entry name sector e)" "entry_name (new_entry name sector e) = name"
    "inode_sector (new_entry name sector e) = sector"
proof -
  have eq: "new_entry name sector e = le32 (of_nat sector) @ name @ [0] @ drop (5 + length name) (e[19 := 1])"
    using assms(1,2) by (simp add: new_entry_def set_inode_sector_def set_name_def set_in_use_def NAME_MAX_def Let_def)
  then show "length (new_entry name sector e) = 20"
    using assms(1,2) by simp
  have "new_entry name sector e ! 19 = 1"
    using assms(1,2) unfolding eq by (auto simp: nth_append)
  then show "in_use (new_entry name sector e)"
    by (simp add: in_use_def)
  have "15 - length name = Suc (14 - length name)"
    using assms(2) by simp
  then have "take 15 (drop 4 (new_entry name sector e)) = name @ 0 # take (14 - length name) (drop (5 + length name) (e[19 := 1]))"
    using assms(2) unfolding eq by simp
  moreover have "takeWhile (\<lambda>c. c \<noteq> 0) (name @ 0 # rest) = name" for rest
    using assms(3) by (subst takeWhile_append2) auto
  ultimately show "entry_name (new_entry name sector e) = name"
    by (simp add: entry_name_def NAME_MAX_def)
  show "inode_sector (new_entry name sector e) = sector"
    using assms(4) unfolding eq inode_sector_def of_le32_le32 by (simp add: unat_of_nat)
qed

lemma erased_entry_facts:
  assumes "length e = 20"
  shows "length (set_in_use False e) = 20" "\<not> in_use (set_in_use False e)"
  using assms by (simp_all add: set_in_use_def in_use_def)

text \<open>Overwriting one entry.\<close>

lemma entry_at_overwrite:
  assumes "j < slots bs" "length e = 20" "k < slots bs"
  shows "entry_at (overwrite (20 * j) e bs) k = (if k = j then e else entry_at bs k)"
proof -
  consider "k = j" | "k < j" | "j < k"
    by linarith
  then show ?thesis
  proof cases
    case 1
    then show ?thesis
      using slice_overwrite [of "20 * j" e bs] slot_fits [OF assms(1)] assms(2) by (simp add: entry_at_def)
  next
    case 2
    then show ?thesis
      using slice_overwrite_before [of "20 * k" 20 "20 * j" e bs] slot_fits [OF assms(1)] assms(2) by (simp add: entry_at_def)
  next
    case 3
    then show ?thesis
      using slice_overwrite_after [of "20 * j" e "20 * k" bs 20] slot_fits [OF assms(1)] assms(2) by (simp add: entry_at_def)
  qed
qed

lemma slots_overwrite [simp]: "j < slots bs \<Longrightarrow> length e = 20 \<Longrightarrow> slots (overwrite (20 * j) e bs) = slots bs"
  using slot_fits [of j bs] by (simp add: slots_def)

subsection \<open>Reading entries\<close>

lemma writable_reads: "writable p i s \<Longrightarrow> reads_only s s' \<Longrightarrow> writable p i s'"
  using reads_only_facts [of s s'] same_sectors [of "fs_disk s'" "fs_disk s"]
  by (simp add: writable_def get_inode_def)

lemma read_entry_result:
  assumes "writable p i s" "mallocs s = []" "k < 2 ^ 31" "length e = 20"
  shows "\<exists>e' s'. read_entry p (int k) e s = Some (k + 20 \<le> file_len i, e', s') \<and> reads_only s s' \<and> length e' = 20
    \<and> (k + 20 \<le> file_len i \<longrightarrow> e' = slice k 20 (file_bytes (fs_disk s) i))"
proof -
  let ?F = "file_bytes (fs_disk s) i"
  obtain m s' where m: "inode_read_at p (int 20) (int k) s = Some (take m (slice k (nat (int 20)) ?F), s')"
      "reads_only s s'" "mallocs s = [] \<longrightarrow> m = nat (int 20)"
    using assms(1,3) unfolding writable_def by (elim conjE) (rule inode_read_at_slice [of s p i k "int 20"], auto)
  have read: "inode_read_at p 20 (int k) s = Some (slice k 20 ?F, s')"
    using m(1,3) assms(2) by (simp add: slice_def)
  have "length (slice k 20 ?F) = 20 \<longleftrightarrow> k + 20 \<le> file_len i" "length (slice k 20 ?F) \<le> 20"
    by (auto simp: slice_def)
  then show ?thesis
    using read m(2) assms(4) by (simp add: read_entry_def)
qed

lemma find_upt: "find P [j..<n] = (if j < n then if P j then Some j else find P [Suc j..<n] else None)"
  by (simp add: upt_rec)

lemma lookup_loop_result:
  assumes "writable p i s" "mallocs s = []" "length e = 20" "20 * j \<le> file_len i + 20"
  shows "\<exists>s'. lookup_loop p name (20 * j) e s
      = Some (map_option (\<lambda>m. (entry_at (file_bytes (fs_disk s) i) m, 20 * m))
               (find (named name (file_bytes (fs_disk s) i)) [j..<slots (file_bytes (fs_disk s) i)]), s')
    \<and> reads_only s s'"
  using assms
proof (induction "file_len i + 20 - 20 * j" arbitrary: j e s rule: less_induct)
  case less
  let ?F = "file_bytes (fs_disk s) i"
  have len: "file_len i + 511 < 2 ^ 31"
    using inode_ok_len [of "fs_disk s" i] less.prems(1) by (simp add: writable_def)
  then have small: "20 * j < 2 ^ 31" "s32 (int (20 * j)) = int (20 * j)" "size_wrap (20 * j + 20) = 20 * Suc j"
    using less.prems(4) by (simp_all add: SIZE_T_MAX_def)
  obtain e' s' where e': "read_entry p (int (20 * j)) e s = Some (20 * j + 20 \<le> file_len i, e', s')" "reads_only s s'"
      "length e' = 20" "20 * j + 20 \<le> file_len i \<longrightarrow> e' = entry_at ?F j"
    using read_entry_result [OF less.prems(1,2) small(1) less.prems(3)] unfolding entry_at_def by blast
  have full: "20 * j + 20 \<le> file_len i \<longleftrightarrow> j < slots ?F"
    using slot_iff [of j ?F] by simp
  have F: "file_bytes (fs_disk s') i = ?F"
    using reads_only_facts(1,2) [OF e'(2)] by (intro same_sectors(4))
  show ?case
  proof (cases "j < slots ?F")
    case False
    then show ?thesis
      using e'(1,2) small(2) full by (subst lookup_loop.simps) (simp add: find_upt [of _ j])
  next
    case True
    then have ent: "e' = entry_at ?F j"
      using e'(4) full by simp
    show ?thesis
    proof (cases "named name ?F j")
      case T: True
      then show ?thesis
        using e'(1,2) small(2) full True ent
        by (subst lookup_loop.simps) (simp add: find_upt [of _ j] named_def)
    next
      case F': False
      have "\<exists>s''. lookup_loop p name (20 * Suc j) e' s'
          = Some (map_option (\<lambda>m. (entry_at ?F m, 20 * m)) (find (named name ?F) [Suc j..<slots ?F]), s'') \<and> reads_only s' s''"
        using less.hyps [of "Suc j" s' e'] writable_reads [OF less.prems(1) e'(2)] reads_only_facts(6) [OF e'(2) less.prems(2)] e'(3)
          slot_fits [OF True] unfolding F by simp
      then obtain s'' where "lookup_loop p name (20 * Suc j) e' s'
          = Some (map_option (\<lambda>m. (entry_at ?F m, 20 * m)) (find (named name ?F) [Suc j..<slots ?F]), s'')" "reads_only s' s''"
        by blast
      moreover have "\<not> (in_use e' \<and> name = entry_name e')"
        using F' ent by (simp add: named_def)
      ultimately show ?thesis
        using e'(1,2) small(2,3) full True F' reads_only_trans [OF e'(2)]
        by (subst lookup_loop.simps) (auto simp: find_upt [of _ j])
    qed
  qed
qed

lemma free_slot_loop_result:
  assumes "writable p i s" "mallocs s = []" "length e = 20" "20 * j \<le> file_len i + 20" "j \<le> slots (file_bytes (fs_disk s) i)"
  shows "\<exists>e' s'. free_slot_loop p (int (20 * j)) e s
      = Some (int (20 * (case find (\<lambda>m. \<not> in_use (entry_at (file_bytes (fs_disk s) i) m)) [j..<slots (file_bytes (fs_disk s) i)] of
           None \<Rightarrow> slots (file_bytes (fs_disk s) i) | Some m \<Rightarrow> m)), e', s')
    \<and> reads_only s s' \<and> length e' = 20"
  using assms
proof (induction "file_len i + 20 - 20 * j" arbitrary: j e s rule: less_induct)
  case less
  let ?F = "file_bytes (fs_disk s) i"
  have len: "file_len i + 511 < 2 ^ 31"
    using inode_ok_len [of "fs_disk s" i] less.prems(1) by (simp add: writable_def)
  then have small: "20 * j < 2 ^ 31" "s32 (int (20 * j) + 20) = int (20 * Suc j)"
    using less.prems(4) by simp_all
  obtain e' s' where e': "read_entry p (int (20 * j)) e s = Some (20 * j + 20 \<le> file_len i, e', s')" "reads_only s s'"
      "length e' = 20" "20 * j + 20 \<le> file_len i \<longrightarrow> e' = entry_at ?F j"
    using read_entry_result [OF less.prems(1,2) small(1) less.prems(3)] unfolding entry_at_def by blast
  have full: "20 * j + 20 \<le> file_len i \<longleftrightarrow> j < slots ?F"
    using slot_iff [of j ?F] by simp
  have F: "file_bytes (fs_disk s') i = ?F"
    using reads_only_facts(1,2) [OF e'(2)] by (intro same_sectors(4))
  show ?case
  proof (cases "j < slots ?F \<and> in_use (entry_at ?F j)")
    case False
    then show ?thesis
      using e' full less.prems(5) by (subst free_slot_loop.simps) (auto simp: find_upt [of _ j])
  next
    case True
    then have "\<exists>e'' s''. free_slot_loop p (int (20 * Suc j)) e' s'
        = Some (int (20 * (case find (\<lambda>m. \<not> in_use (entry_at ?F m)) [Suc j..<slots ?F] of None \<Rightarrow> slots ?F | Some m \<Rightarrow> m)), e'', s'')
        \<and> reads_only s' s'' \<and> length e'' = 20"
      using less.hyps [of "Suc j" s' e'] writable_reads [OF less.prems(1) e'(2)] reads_only_facts(6) [OF e'(2) less.prems(2)] e'(3)
        slot_fits [of j ?F] unfolding F by simp
    then show ?thesis
      using e' small(2) full True reads_only_trans [OF e'(2)] by (subst free_slot_loop.simps) (auto simp: find_upt [of _ j])
  qed
qed

end
