(* ===== verification/Filesys_Inv.thy ===== *)
theory Filesys_Inv
  imports Directories
begin

section \<open>The invariant of the file system\<close>

text \<open>
  The sectors that the inodes on disk own (\<open>layout\<close>), the invariant \<open>fs_inv\<close> that ties the disk, the
  free map, the root directory and the open inodes together, and that allocating and releasing sectors,
  creating inodes and opening and closing them keep it.
\<close>

subsection \<open>Inodes on disk and the sectors they own\<close>

definition dnode :: "disk \<Rightarrow> nat \<Rightarrow> inode" where
  "dnode d x = \<lparr>i_sector = x, open_cnt = 0, removed = False, deny_write_cnt = 0, i_data = inode_disk_of (sectors d x)\<rparr>"

definition contents :: "disk \<Rightarrow> nat \<Rightarrow> 8 word list" where
  "contents d x = file_bytes d (dnode d x)"

definition blocks :: "disk \<Rightarrow> nat \<Rightarrow> nat set" where
  "blocks d x = insert x (extent (dnode d x))"

text \<open>The inodes in the sectors \<open>X\<close> own disjoint sets of sectors, which are all marked as used.\<close>

definition layout :: "disk \<Rightarrow> bool list \<Rightarrow> nat set \<Rightarrow> bool" where
  "layout d used X \<longleftrightarrow> length used = capacity d
     \<and> (\<forall>x \<in> X. x < capacity d \<and> inode_ok d (dnode d x) \<and> x \<notin> extent (dnode d x) \<and> (\<forall>n \<in> blocks d x. used ! n))
     \<and> (\<forall>x \<in> X. \<forall>y \<in> X. x \<noteq> y \<longrightarrow> blocks d x \<inter> blocks d y = {})"

lemma same_data:
  assumes "i_data i = i_data j"
  shows "file_len i = file_len j" "extent i = extent j" "file_bytes d i = file_bytes d j" "inode_ok d i = inode_ok d j"
    "inode_length i = inode_length j"
proof -
  have "byte_at d i = byte_at d j" for d
    using assms by (simp add: byte_at_def fun_eq_iff)
  then show "file_len i = file_len j" "extent i = extent j" "file_bytes d i = file_bytes d j" "inode_ok d i = inode_ok d j"
    "inode_length i = inode_length j"
    using assms by (simp_all add: file_len_def extent_def file_bytes_def inode_ok_def inode_length_def)
qed

lemma layoutD:
  assumes "layout d used X" "x \<in> X"
  shows "x < capacity d" "inode_ok d (dnode d x)" "x \<notin> extent (dnode d x)" "n \<in> blocks d x \<Longrightarrow> used ! n"
    "y \<in> X \<Longrightarrow> x \<noteq> y \<Longrightarrow> blocks d x \<inter> blocks d y = {}"
  using assms unfolding layout_def by blast+

lemma layout_subset: "layout d used X \<Longrightarrow> X' \<subseteq> X \<Longrightarrow> layout d used X'"
  unfolding layout_def by blast

lemma layout_used:
  assumes "layout d used X" "length used' = length used" "\<And>x n. x \<in> X \<Longrightarrow> n \<in> blocks d x \<Longrightarrow> used' ! n"
  shows "layout d used' X"
  using assms unfolding layout_def by metis

lemma blocks_below:
  assumes "layout d used X" "x \<in> X" "n \<in> blocks d x"
  shows "n < capacity d"
  using layoutD(1,2) [OF assms(1,2)] assms(3) by (auto simp: blocks_def extent_def inode_ok_def)

text \<open>The inode and its contents depend only on the sectors that it owns.\<close>

lemma same_blocks:
  assumes "inode_ok d (dnode d x)" "capacity d' = capacity d" "\<And>n. n \<in> blocks d x \<Longrightarrow> sectors d' n = sectors d n"
  shows "dnode d' x = dnode d x" "blocks d' x = blocks d x" "contents d' x = contents d x" "inode_ok d' (dnode d' x)"
proof -
  show n: "dnode d' x = dnode d x"
    using assms(3) [of x] by (simp add: dnode_def blocks_def)
  then show "blocks d' x = blocks d x"
    by (simp add: blocks_def)
  show "inode_ok d' (dnode d' x)"
    using assms(1,2) by (simp add: n inode_ok_def)
  have "byte_at d' (dnode d x) k = byte_at d (dnode d x) k" if "k < file_len (dnode d x)" for k
    using sector_in_extent(1) [OF assms(1) that] assms(3) unfolding byte_at_def blocks_def by simp
  then show "contents d' x = contents d x"
    by (simp add: contents_def n file_bytes_def)
qed

lemma layout_same_blocks:
  assumes "layout d used X" "capacity d' = capacity d" "\<And>x n. x \<in> X \<Longrightarrow> n \<in> blocks d x \<Longrightarrow> sectors d' n = sectors d n"
  shows "layout d' used X"
proof -
  have "dnode d' x = dnode d x" "blocks d' x = blocks d x" "inode_ok d' (dnode d' x)" if "x \<in> X" for x
    using same_blocks [OF layoutD(2) [OF assms(1) that] assms(2)] assms(3) [OF that] by auto
  then show ?thesis
    using assms(1,2) unfolding layout_def by simp
qed

text \<open>A write to the data of one inode keeps all inodes and the contents of the others.\<close>

lemma extent_write:
  assumes l: "layout d used X" and x: "x \<in> X" and cap: "capacity d' = capacity d"
    and same: "\<And>n. n \<notin> extent (dnode d x) \<Longrightarrow> sectors d' n = sectors d n"
  shows "y \<in> X \<Longrightarrow> dnode d' y = dnode d y" "y \<in> X \<Longrightarrow> y \<noteq> x \<Longrightarrow> contents d' y = contents d y" "layout d' used X"
proof -
  have y: "y \<notin> extent (dnode d x)" if "y \<in> X" for y
  proof (cases "y = x")
    case True
    then show ?thesis
      using layoutD(3) [OF l x] by simp
  next
    case False
    then show ?thesis
      using layoutD(5) [OF l x that] by (auto simp: blocks_def)
  qed
  show dn: "dnode d' y = dnode d y" if "y \<in> X" for y
    using same [OF y [OF that]] by (simp add: dnode_def)
  show "contents d' y = contents d y" if "y \<in> X" "y \<noteq> x"
  proof (rule same_blocks(3) [OF layoutD(2) [OF l that(1)] cap])
    fix n assume "n \<in> blocks d y"
    then have "n \<notin> extent (dnode d x)"
      using layoutD(5) [OF l x that(1)] that(2) by (auto simp: blocks_def)
    then show "sectors d' n = sectors d n"
      by (rule same)
  qed
  have "blocks d' y = blocks d y" "inode_ok d' (dnode d' y) = inode_ok d (dnode d y)" if "y \<in> X" for y
    using dn [OF that] cap by (simp_all add: blocks_def inode_ok_def)
  then show "layout d' used X"
    using l cap dn unfolding layout_def by simp
qed

text \<open>A new inode in free sectors.\<close>

lemma layout_insert:
  assumes l: "layout d used X" and cap: "capacity d' = capacity d" and len: "length used' = length used"
    and node: "dnode d' x = i" "inode_ok d' i" "x < capacity d" "x \<notin> extent i"
    and free: "\<And>n. n \<in> insert x (extent i) \<Longrightarrow> used' ! n" "\<And>y. y \<in> X \<Longrightarrow> blocks d y \<inter> insert x (extent i) = {}"
    and same: "\<And>n. n \<notin> insert x (extent i) \<Longrightarrow> sectors d' n = sectors d n"
    and used: "\<And>n. n < capacity d \<Longrightarrow> used ! n \<Longrightarrow> used' ! n"
  shows "layout d' used' (insert x X)" "y \<in> X \<Longrightarrow> contents d' y = contents d y" "y \<in> X \<Longrightarrow> dnode d' y = dnode d y"
proof -
  have y: "dnode d' y = dnode d y" "blocks d' y = blocks d y" "contents d' y = contents d y" "inode_ok d' (dnode d' y)"
    if "y \<in> X" for y
    using same_blocks [OF layoutD(2) [OF l that] cap] free(2) [OF that] same by blast+
  then show "y \<in> X \<Longrightarrow> contents d' y = contents d y" "y \<in> X \<Longrightarrow> dnode d' y = dnode d y"
    by simp_all
  have bx: "blocks d' x = insert x (extent i)"
    by (simp add: blocks_def node(1))
  have "used' ! n" if "y \<in> X" "n \<in> blocks d y" for y n
    using used [OF blocks_below [OF l that]] layoutD(4) [OF l that] by simp
  then have "layout d' used' X"
    using l y cap len unfolding layout_def by simp
  then show "layout d' used' (insert x X)"
    using node free bx y cap unfolding layout_def
    by (auto simp: Int_commute)
qed

subsection \<open>The invariant of the file system\<close>

definition used_slot :: "8 word list \<Rightarrow> nat \<Rightarrow> bool" where
  "used_slot bs j \<longleftrightarrow> j < slots bs \<and> in_use (entry_at bs j)"

definition dir_ok :: "8 word list \<Rightarrow> bool" where
  "dir_ok bs \<longleftrightarrow>
     (\<forall>j. used_slot bs j \<longrightarrow> 2 \<le> inode_sector (entry_at bs j)) \<and>
     (\<forall>j k. used_slot bs j \<longrightarrow> used_slot bs k \<longrightarrow>
        (entry_name (entry_at bs j) = entry_name (entry_at bs k) \<or> inode_sector (entry_at bs j) = inode_sector (entry_at bs k)) \<longrightarrow> j = k)"

definition dir_sectors :: "8 word list \<Rightarrow> nat set" where
  "dir_sectors bs = {inode_sector (entry_at bs j) |j. used_slot bs j}"

definition open_sectors :: "fsys \<Rightarrow> nat set" where
  "open_sectors s = {i_sector i |p i. fs_inodes s p = Some i}"

definition root :: "fsys \<Rightarrow> 8 word list" where
  "root s = contents (fs_disk s) ROOT_DIR_SECTOR"

definition live :: "fsys \<Rightarrow> nat set" where
  "live s = {FREE_MAP_SECTOR, ROOT_DIR_SECTOR} \<union> dir_sectors (root s) \<union> open_sectors s"

definition open_ok :: "fsys \<Rightarrow> inode \<Rightarrow> bool" where
  "open_ok s i \<longleftrightarrow> i_data i = i_data (dnode (fs_disk s) (i_sector i)) \<and> 0 < open_cnt i \<and> open_cnt i < 2 ^ 31
     \<and> (if i_sector i < 2 then deny_write_cnt i = 0 \<and> \<not> removed i
        else removed i \<longleftrightarrow> i_sector i \<notin> dir_sectors (root s))"

definition opens_ok :: "fsys \<Rightarrow> bool" where
  "opens_ok s \<longleftrightarrow> distinct (open_inodes s) \<and> (\<forall>p. p \<in> set (open_inodes s) \<longleftrightarrow> fs_inodes s p \<noteq> None)
     \<and> (\<forall>p. fs_inodes s p \<noteq> None \<longrightarrow> p < next_block s) \<and> (\<forall>p i. fs_inodes s p = Some i \<longrightarrow> open_ok s i)
     \<and> (\<forall>p q i j. fs_inodes s p = Some i \<longrightarrow> fs_inodes s q = Some j \<longrightarrow> i_sector i = i_sector j \<longrightarrow> p = q)"

definition map_file_ok :: "fsys \<Rightarrow> bool" where
  "map_file_ok s \<longleftrightarrow> (\<exists>f fl i. free_map_file s = Some f \<and> f < next_block s \<and> fs_files s f = Some fl \<and> fs_inodes s (f_inode fl) = Some i
     \<and> i_sector i = FREE_MAP_SECTOR \<and> byte_cnt (capacity (fs_disk s)) \<le> file_len (dnode (fs_disk s) FREE_MAP_SECTOR))"

text \<open>
  The live inodes (the two system files, the entries of the root directory and the open inodes), with the
  inodes in the sectors \<open>Y\<close> that are about to be entered, own disjoint used sectors.
\<close>

definition fs_inv :: "nat set \<Rightarrow> fsys \<Rightarrow> bool" where
  "fs_inv Y s \<longleftrightarrow> disk_ok (fs_disk s) \<and> wf_bitmap (free_map s) \<and> bit_cnt (free_map s) = capacity (fs_disk s)
     \<and> dir_ok (root s) \<and> opens_ok s \<and> map_file_ok s \<and> layout (fs_disk s) (bits_of (free_map s)) (live s \<union> Y)"

lemma fs_invD:
  assumes "fs_inv Y s"
  shows "disk_ok (fs_disk s)" "wf_bitmap (free_map s)" "bit_cnt (free_map s) = capacity (fs_disk s)" "dir_ok (root s)"
    "opens_ok s" "map_file_ok s" "layout (fs_disk s) (bits_of (free_map s)) (live s \<union> Y)" "capacity (fs_disk s) \<le> 2 ^ 28"
  using assms unfolding fs_inv_def disk_ok_def by blast+

lemma opens_okD:
  assumes "opens_ok s" "fs_inodes s p = Some i"
  shows "p \<in> set (open_inodes s)" "p < next_block s" "open_ok s i" "fs_inodes s q = Some j \<Longrightarrow> i_sector i = i_sector j \<Longrightarrow> p = q"
  using assms unfolding opens_ok_def by blast+

lemma system_live [simp]: "FREE_MAP_SECTOR \<in> live s" "ROOT_DIR_SECTOR \<in> live s" "0 \<in> live s" "1 \<in> live s" "Suc 0 \<in> live s"
  by (simp_all add: live_def FREE_MAP_SECTOR_def ROOT_DIR_SECTOR_def)

lemma open_live: "fs_inodes s p = Some i \<Longrightarrow> i_sector i \<in> live s"
  unfolding live_def open_sectors_def by blast

lemma open_writable:
  assumes "fs_inv Y s" "fs_inodes s p = Some i"
  shows "file_bytes d i = file_bytes d (dnode (fs_disk s) (i_sector i))" "extent i = extent (dnode (fs_disk s) (i_sector i))"
    "file_len i = file_len (dnode (fs_disk s) (i_sector i))" "deny_write_cnt i = 0 \<Longrightarrow> writable p i s"
proof -
  have "i_data i = i_data (dnode (fs_disk s) (i_sector i))"
    using opens_okD(3) [OF fs_invD(5) [OF assms(1)] assms(2)] by (simp add: open_ok_def)
  note same_data [OF this]
  moreover have "inode_ok (fs_disk s) (dnode (fs_disk s) (i_sector i))"
    using layoutD(2) [OF fs_invD(7) [OF assms(1)]] open_live [OF assms(2)] by blast
  ultimately show "file_bytes d i = file_bytes d (dnode (fs_disk s) (i_sector i))"
    "extent i = extent (dnode (fs_disk s) (i_sector i))" "file_len i = file_len (dnode (fs_disk s) (i_sector i))"
    "deny_write_cnt i = 0 \<Longrightarrow> writable p i s"
    using fs_invD(1) [OF assms(1)] assms(2) by (auto simp: writable_def get_inode_def)
qed

text \<open>A change of the disk and of the free map that keeps the live inodes and the root directory.\<close>

lemma fs_inv_disk:
  assumes inv: "fs_inv Y s" and d: "disk_ok d'" "capacity d' = capacity (fs_disk s)"
    and same: "\<And>x. x \<in> live s \<union> Y \<Longrightarrow> dnode d' x = dnode (fs_disk s) x" "contents d' 1 = contents (fs_disk s) 1"
    and map: "wf_bitmap b'" "bit_cnt b' = bit_cnt (free_map s)" and l: "layout d' (bits_of b') (live s \<union> Y)"
  shows "fs_inv Y (s\<lparr>fs_disk := d', free_map := b'\<rparr>)" "live (s\<lparr>fs_disk := d', free_map := b'\<rparr>) = live s"
    "root (s\<lparr>fs_disk := d', free_map := b'\<rparr>) = root s"
proof -
  let ?s = "s\<lparr>fs_disk := d', free_map := b'\<rparr>"
  show r: "root ?s = root s"
    using same(2) by (simp add: root_def ROOT_DIR_SECTOR_def)
  show lv: "live ?s = live s"
    by (simp add: live_def r open_sectors_def)
  have "open_ok ?s i" if "fs_inodes s p = Some i" for p i
    using opens_okD(3) [OF fs_invD(5) [OF inv] that] same(1) open_live [OF that] by (simp add: open_ok_def r)
  then have "opens_ok ?s"
    using fs_invD(5) [OF inv] by (simp add: opens_ok_def)
  moreover have "map_file_ok ?s"
    using fs_invD(6) [OF inv] same(1) [of FREE_MAP_SECTOR] d(2) by (simp add: map_file_ok_def)
  ultimately show "fs_inv Y ?s"
    using fs_invD [OF inv] d map l by (simp add: fs_inv_def lv r)
qed

lemma fs_inv_subset: "fs_inv Y s \<Longrightarrow> Y' \<subseteq> Y \<Longrightarrow> fs_inv Y' s"
  unfolding fs_inv_def by (blast intro: layout_subset)

text \<open>Writing to the data of a live file other than the root directory.\<close>

lemma fs_inv_data:
  assumes inv: "fs_inv Y s" and x: "x \<in> live s \<union> Y" "x \<noteq> 1" and d: "disk_ok d'" "capacity d' = capacity (fs_disk s)"
    and same: "\<And>n. n \<notin> extent (dnode (fs_disk s) x) \<Longrightarrow> sectors d' n = sectors (fs_disk s) n"
  shows "fs_inv Y (s\<lparr>fs_disk := d'\<rparr>)" "live (s\<lparr>fs_disk := d'\<rparr>) = live s" "root (s\<lparr>fs_disk := d'\<rparr>) = root s"
    "y \<in> live s \<union> Y \<Longrightarrow> y \<noteq> x \<Longrightarrow> contents d' y = contents (fs_disk s) y"
proof -
  note w = extent_write [OF fs_invD(7) [OF inv] x(1) d(2) same]
  have r: "contents d' 1 = contents (fs_disk s) 1"
    using x(2) by (intro w(2)) simp_all
  have "fs_inv Y (s\<lparr>fs_disk := d', free_map := free_map s\<rparr>) \<and> live (s\<lparr>fs_disk := d', free_map := free_map s\<rparr>) = live s
      \<and> root (s\<lparr>fs_disk := d', free_map := free_map s\<rparr>) = root s"
    using fs_inv_disk [OF inv d w(1) r fs_invD(2) [OF inv] refl w(3)] by blast
  then show "fs_inv Y (s\<lparr>fs_disk := d'\<rparr>)" "live (s\<lparr>fs_disk := d'\<rparr>) = live s" "root (s\<lparr>fs_disk := d'\<rparr>) = root s"
    by simp_all
  show "y \<in> live s \<union> Y \<Longrightarrow> y \<noteq> x \<Longrightarrow> contents d' y = contents (fs_disk s) y"
    by (rule w(2))
qed

lemma reads_only_disk:
  assumes "reads_only s s'" "mallocs s = []"
  obtains r where "s' = s\<lparr>fs_disk := (fs_disk s)\<lparr>read_cnt := r\<rparr>\<rparr>"
proof -
  obtain r ms where "s' = s\<lparr>fs_disk := (fs_disk s)\<lparr>read_cnt := r\<rparr>, mallocs := ms\<rparr>" "ms = []"
    using assms unfolding reads_only_def by blast
  moreover have "s\<lparr>fs_disk := (fs_disk s)\<lparr>read_cnt := r\<rparr>, mallocs := []\<rparr> = s\<lparr>fs_disk := (fs_disk s)\<lparr>read_cnt := r\<rparr>\<rparr>"
    using assms(2) by (cases s) simp
  ultimately show ?thesis
    using that [of r] by simp
qed

lemma writes_in_disk:
  assumes "writes_in E s s'" "mallocs s = []" "disk_ok (fs_disk s)"
  obtains d' where "s' = s\<lparr>fs_disk := d'\<rparr>" "disk_ok d'" "capacity d' = capacity (fs_disk s)"
    "\<And>n. n \<notin> E \<Longrightarrow> sectors d' n = sectors (fs_disk s) n"
proof -
  obtain d' ms where d': "s' = s\<lparr>fs_disk := d', mallocs := ms\<rparr>" "ms = []" "capacity d' = capacity (fs_disk s)"
      "\<forall>n. n \<notin> E \<longrightarrow> sectors d' n = sectors (fs_disk s) n" "disk_ok d'"
    using assms unfolding writes_in_def by blast
  moreover have "s\<lparr>fs_disk := d', mallocs := []\<rparr> = s\<lparr>fs_disk := d'\<rparr>"
    using assms(2) by (cases s) simp
  ultimately show ?thesis
    using that [of d'] by simp
qed

subsection \<open>The free map\<close>

text \<open>What the write of the free map to its file needs of the state.\<close>

definition map_writable :: "fsys \<Rightarrow> bool" where
  "map_writable s \<longleftrightarrow> (\<exists>f fl i. free_map_file s = Some f \<and> fs_files s f = Some fl \<and> writable (f_inode fl) i s
     \<and> i_data i = i_data (dnode (fs_disk s) 0) \<and> byte_cnt (capacity (fs_disk s)) \<le> file_len i \<and> capacity (fs_disk s) \<le> 2 ^ 28)"

lemma fs_inv_map_writable:
  assumes inv: "fs_inv Y s" and p: "fs_inodes s p = None"
  shows "map_writable s" "map_writable (s\<lparr>fs_inodes := (fs_inodes s)(p \<mapsto> j)\<rparr>)"
proof -
  obtain f fl i where f: "free_map_file s = Some f" "fs_files s f = Some fl" "fs_inodes s (f_inode fl) = Some i"
      "i_sector i = 0" "byte_cnt (capacity (fs_disk s)) \<le> file_len (dnode (fs_disk s) 0)"
    using fs_invD(6) [OF inv] unfolding map_file_ok_def FREE_MAP_SECTOR_def by blast
  have i: "deny_write_cnt i = 0" "i_data i = i_data (dnode (fs_disk s) 0)"
    using opens_okD(3) [OF fs_invD(5) [OF inv] f(3)] f(4) by (simp_all add: open_ok_def)
  have w: "writable (f_inode fl) i s"
    by (rule open_writable(4) [OF inv f(3) i(1)])
  show "map_writable s"
    unfolding map_writable_def
    using f(1,2,5) i w same_data(1) [OF i(2)] fs_invD(8) [OF inv] by (intro exI [of _ f] exI [of _ fl] exI [of _ i]) simp
  have "f_inode fl \<noteq> p"
    using f(3) p by auto
  then have "writable (f_inode fl) i (s\<lparr>fs_inodes := (fs_inodes s)(p \<mapsto> j)\<rparr>)"
    using w by (simp add: writable_def get_inode_def)
  then show "map_writable (s\<lparr>fs_inodes := (fs_inodes s)(p \<mapsto> j)\<rparr>)"
    unfolding map_writable_def
    using f(1,2,5) i same_data(1) [OF i(2)] fs_invD(8) [OF inv] by (intro exI [of _ f] exI [of _ fl] exI [of _ i]) simp
qed

lemma no_inode: "fs_inv Y s \<Longrightarrow> fs_inodes s (next_block s) = None"
  using fs_invD(5) [of Y s] unfolding opens_ok_def by blast

lemma free_map_write:
  assumes ok: "map_writable s" and m: "mallocs s = []" and b: "wf_bitmap b" "bit_cnt b = capacity (fs_disk s)"
  obtains f d' where "free_map_file s = Some f" "bitmap_write b f (s\<lparr>free_map := b\<rparr>) = Some (True, s\<lparr>fs_disk := d', free_map := b\<rparr>)"
    "disk_ok d'" "capacity d' = capacity (fs_disk s)"
    "\<And>n. n \<notin> extent (dnode (fs_disk s) 0) \<Longrightarrow> sectors d' n = sectors (fs_disk s) n"
proof -
  obtain f fl i where f: "free_map_file s = Some f" "fs_files s f = Some fl" "writable (f_inode fl) i s"
      "i_data i = i_data (dnode (fs_disk s) 0)" "byte_cnt (capacity (fs_disk s)) \<le> file_len i" "capacity (fs_disk s) \<le> 2 ^ 28"
    using ok unfolding map_writable_def by blast
  let ?s = "s\<lparr>free_map := b\<rparr>"
  have w: "writable (f_inode fl) i ?s"
    using f(3) by (simp add: writable_def get_inode_def)
  have len: "byte_cnt (bit_cnt b) \<le> file_len i" and cap: "bit_cnt b \<le> 2 ^ 28"
    using f(5,6) b(2) by simp_all
  have fl: "get_file f ?s = Some fl"
    using f(2) by (simp add: get_file_def)
  obtain s' where s': "bitmap_write b f ?s = Some (True, s')" "writes_in (extent i) ?s s'"
    using bitmap_write_result [OF w _ fl refl b(1) cap len] m by auto
  obtain d' where d': "s' = ?s\<lparr>fs_disk := d'\<rparr>" "disk_ok d'" "capacity d' = capacity (fs_disk ?s)"
      "\<And>n. n \<notin> extent i \<Longrightarrow> sectors d' n = sectors (fs_disk ?s) n"
    using writes_in_disk [OF s'(2)] m f(3) unfolding writable_def by auto
  then show ?thesis
    using that [of f d'] f(1) s'(1) same_data(2) [OF f(4)] by simp
qed

lemma set_range_used:
  assumes "layout d used X" "k + n \<le> length used"
  shows "layout d (set_range used k n True) X"
proof (rule layout_used [OF assms(1)])
  fix x m assume "x \<in> X" "m \<in> blocks d x"
  then show "set_range used k n True ! m"
    using layoutD(4) [OF assms(1)] blocks_below [OF assms(1)] assms by (auto simp: nth_set_range layout_def)
qed (use assms(2) in simp)

lemma free_map_allocate_result:
  assumes inv: "fs_inv Y s" and m: "mallocs s = []" and k: "scan_from (bits_of (free_map s)) 0 n False = Some k"
  obtains d' b' where "free_map_allocate n s = Some (Some k, s\<lparr>fs_disk := d', free_map := b'\<rparr>)"
    "fs_inv Y (s\<lparr>fs_disk := d', free_map := b'\<rparr>)" "bits_of b' = set_range (bits_of (free_map s)) k n True"
    "capacity d' = capacity (fs_disk s)"
    "\<And>x. x \<in> live s \<union> Y \<Longrightarrow> dnode d' x = dnode (fs_disk s) x"
    "\<And>x. x \<in> live s \<union> Y \<Longrightarrow> x \<noteq> 0 \<Longrightarrow> contents d' x = contents (fs_disk s) x"
proof -
  have "group_at (bits_of (free_map s)) n k False"
    by (rule scan_from_Some(2) [OF k])
  then have kn: "k + n \<le> length (bits_of (free_map s))"
    by (simp add: group_at_def)
  then have kcap: "k + n \<le> capacity (fs_disk s)"
    using fs_invD(3) [OF inv] by simp
  obtain b' where b': "bitmap_scan_and_flip (free_map s) 0 n False = Some (k, b')" "wf_bitmap b'"
      "bit_cnt b' = bit_cnt (free_map s)" "bits_of b' = set_range (bits_of (free_map s)) k n True"
    using bitmap_scan_and_flip_bits [OF fs_invD(2) [OF inv], of 0 n False] k by auto
  have cnt: "bit_cnt b' = capacity (fs_disk s)"
    using b'(3) fs_invD(3) [OF inv] by simp
  obtain f d' where w: "free_map_file s = Some f" "bitmap_write b' f (s\<lparr>free_map := b'\<rparr>) = Some (True, s\<lparr>fs_disk := d', free_map := b'\<rparr>)"
    "disk_ok d'" "capacity d' = capacity (fs_disk s)"
    "\<And>n. n \<notin> extent (dnode (fs_disk s) 0) \<Longrightarrow> sectors d' n = sectors (fs_disk s) n"
    by (rule free_map_write [OF fs_inv_map_writable(1) [OF inv no_inode [OF inv]] m b'(2) cnt]) blast
  have "k mod 2 ^ 32 = k" "k \<noteq> BITMAP_ERROR"
    using kcap fs_invD(8) [OF inv] by (simp_all add: BITMAP_ERROR_def SIZE_MAX_def)
  then have "free_map_allocate n s = Some (Some k, s\<lparr>fs_disk := d', free_map := b'\<rparr>)"
    using b'(1) w(1,2) by (simp add: free_map_allocate_def)
  moreover have l: "layout (fs_disk s) (bits_of b') (live s \<union> Y)"
    unfolding b'(4) by (rule set_range_used [OF fs_invD(7) [OF inv] kn])
  note x = extent_write [OF l _ w(4,5), of 0]
  have "fs_inv Y (s\<lparr>fs_disk := d', free_map := b'\<rparr>)"
    using x by (intro fs_inv_disk [OF inv w(3,4) _ _ b'(2,3)]) simp_all
  ultimately show ?thesis
    using that [of b' d'] b'(4) x w(4) by simp
qed

lemma free_map_release_raw:
  assumes ok: "map_writable s" and m: "mallocs s = []" and b: "wf_bitmap (free_map s)" "bit_cnt (free_map s) = capacity (fs_disk s)"
    and k: "group_at (bits_of (free_map s)) n k True"
  obtains d' b' where "free_map_release k n s = Some (s\<lparr>fs_disk := d', free_map := b'\<rparr>)"
    "wf_bitmap b'" "bit_cnt b' = bit_cnt (free_map s)" "bits_of b' = set_range (bits_of (free_map s)) k n False"
    "disk_ok d'" "capacity d' = capacity (fs_disk s)"
    "\<And>n. n \<notin> extent (dnode (fs_disk s) 0) \<Longrightarrow> sectors d' n = sectors (fs_disk s) n"
proof -
  have kn: "k + n \<le> bit_cnt (free_map s)"
    using k by (simp add: group_at_def)
  obtain b' where b': "bitmap_set_multiple (free_map s) k n False = Some b'" "wf_bitmap b'"
      "bit_cnt b' = bit_cnt (free_map s)" "bits_of b' = set_range (bits_of (free_map s)) k n False"
    using bitmap_set_multiple_bits [OF b(1) kn, of False] by blast
  have cnt: "bit_cnt b' = capacity (fs_disk s)"
    using b'(3) b(2) by simp
  obtain f d' where w: "free_map_file s = Some f" "bitmap_write b' f (s\<lparr>free_map := b'\<rparr>) = Some (True, s\<lparr>fs_disk := d', free_map := b'\<rparr>)"
    "disk_ok d'" "capacity d' = capacity (fs_disk s)"
    "\<And>n. n \<notin> extent (dnode (fs_disk s) 0) \<Longrightarrow> sectors d' n = sectors (fs_disk s) n"
    by (rule free_map_write [OF ok m b'(2) cnt]) blast
  have "free_map_release k n s = Some (s\<lparr>fs_disk := d', free_map := b'\<rparr>)"
    using b'(1) w(1,2) bitmap_all_bits [OF b(1) kn] k by (simp add: free_map_release_def)
  then show ?thesis
    using that [of b' d'] b' w by simp
qed

lemma fs_inv_release:
  assumes inv: "fs_inv Y s" and kn: "k + n \<le> bit_cnt (free_map s)"
    and b': "wf_bitmap b'" "bit_cnt b' = bit_cnt (free_map s)" "bits_of b' = set_range (bits_of (free_map s)) k n False"
    and d': "disk_ok d'" "capacity d' = capacity (fs_disk s)"
      "\<And>n. n \<notin> extent (dnode (fs_disk s) 0) \<Longrightarrow> sectors d' n = sectors (fs_disk s) n"
    and free: "\<And>x. x \<in> live s \<union> Y \<Longrightarrow> blocks (fs_disk s) x \<inter> {k..<k + n} = {}"
  shows "fs_inv Y (s\<lparr>fs_disk := d', free_map := b'\<rparr>)" "live (s\<lparr>fs_disk := d', free_map := b'\<rparr>) = live s"
    "root (s\<lparr>fs_disk := d', free_map := b'\<rparr>) = root s"
    "x \<in> live s \<union> Y \<Longrightarrow> dnode d' x = dnode (fs_disk s) x"
    "x \<in> live s \<union> Y \<Longrightarrow> x \<noteq> 0 \<Longrightarrow> contents d' x = contents (fs_disk s) x"
proof -
  note l0 = fs_invD(7) [OF inv]
  have l: "layout (fs_disk s) (bits_of b') (live s \<union> Y)"
    unfolding b'(3)
  proof (rule layout_used [OF l0])
    fix x j assume x: "x \<in> live s \<union> Y" "j \<in> blocks (fs_disk s) x"
    then have "j < bit_cnt (free_map s)" "\<not> (k \<le> j \<and> j < k + n)"
      using blocks_below [OF l0 x] fs_invD(3) [OF inv] free [OF x(1)] by auto
    then show "set_range (bits_of (free_map s)) k n False ! j"
      using kn layoutD(4) [OF l0 x(1)] x(2) by (simp add: nth_set_range)
  qed (use kn in simp)
  have z: "0 \<in> live s \<union> Y"
    by simp
  note x = extent_write [OF l z d'(2,3)]
  have c: "contents d' 1 = contents (fs_disk s) 1"
    by (rule x(2)) simp_all
  show "fs_inv Y (s\<lparr>fs_disk := d', free_map := b'\<rparr>)" "live (s\<lparr>fs_disk := d', free_map := b'\<rparr>) = live s"
    "root (s\<lparr>fs_disk := d', free_map := b'\<rparr>) = root s"
    using fs_inv_disk [OF inv d'(1,2) x(1) c b'(1,2) x(3)] by blast+
  show "x \<in> live s \<union> Y \<Longrightarrow> dnode d' x = dnode (fs_disk s) x"
    by (rule x(1))
  show "x \<in> live s \<union> Y \<Longrightarrow> x \<noteq> 0 \<Longrightarrow> contents d' x = contents (fs_disk s) x"
    by (rule x(2))
qed

subsection \<open>New inodes\<close>

lemma disk_write_result:
  assumes "x < capacity (fs_disk s)" "capacity (fs_disk s) \<le> 2 ^ 28" "disk_ok (fs_disk s)" "length bs = 512"
  obtains d' where "disk_write x bs s = Some (s\<lparr>fs_disk := d'\<rparr>)" "sectors d' = (sectors (fs_disk s))(x := bs)"
    "capacity d' = capacity (fs_disk s)" "disk_ok d'"
  using assms that by (simp add: disk_write_def sector_ok_def disk_ok_def)

lemma zero_sectors_result:
  assumes "start + n \<le> capacity (fs_disk s)" "disk_ok (fs_disk s)"
  shows "\<exists>d'. zero_sectors start n s = Some (s\<lparr>fs_disk := d'\<rparr>) \<and> capacity d' = capacity (fs_disk s) \<and> disk_ok d'
    \<and> (\<forall>m. sectors d' m = (if start \<le> m \<and> m < start + n then replicate 512 0 else sectors (fs_disk s) m))"
  using assms
proof (induction n arbitrary: start s)
  case 0
  have "s = s\<lparr>fs_disk := fs_disk s\<rparr>"
    by simp
  then show ?case
    using 0 by (intro exI [of _ "fs_disk s"]) auto
next
  case (Suc n)
  have cap: "capacity (fs_disk s) \<le> 2 ^ 28"
    using Suc.prems(2) by (simp add: disk_ok_def)
  have "start < capacity (fs_disk s)"
    using Suc.prems(1) by simp
  then obtain d1 where d1: "disk_write start (replicate 512 0) s = Some (s\<lparr>fs_disk := d1\<rparr>)"
      "sectors d1 = (sectors (fs_disk s))(start := replicate 512 0)" "capacity d1 = capacity (fs_disk s)" "disk_ok d1"
    by (rule disk_write_result [OF _ cap Suc.prems(2), of start "replicate 512 0"]) simp_all
  moreover have "start mod 2 ^ 32 = start"
    using Suc.prems(1) cap by simp
  ultimately show ?case
    using Suc.IH [of "start + 1" "s\<lparr>fs_disk := d1\<rparr>"] Suc.prems(1) by auto
qed

lemma zero_file:
  assumes "inode_ok d i" "\<And>n. n \<in> extent i \<Longrightarrow> sectors d n = replicate 512 0"
  shows "file_bytes d i = replicate (file_len i) 0"
proof -
  have "byte_at d i k = 0" if "k < file_len i" for k
    using assms(2) [OF sector_in_extent(1) [OF assms(1) that]] by (simp add: byte_at_def)
  then show ?thesis
    by (intro nth_equalityI) (simp_all add: file_bytes_def)
qed

lemma inode_create_result:
  assumes inv: "fs_inv Y s" and m: "mallocs s = []" and len: "0 \<le> len" "len + 511 < 2 ^ 31"
    and x: "x < capacity (fs_disk s)" "bits_of (free_map s) ! x" "\<And>y. y \<in> live s \<union> Y \<Longrightarrow> x \<notin> blocks (fs_disk s) y"
    and k: "scan_from (bits_of (free_map s)) 0 (bytes_to_sectors len) False = Some k"
  obtains d' b' where "inode_create x len s = Some (True, s\<lparr>fs_disk := d', free_map := b'\<rparr>)"
    "fs_inv (insert x Y) (s\<lparr>fs_disk := d', free_map := b'\<rparr>)"
    "live (s\<lparr>fs_disk := d', free_map := b'\<rparr>) = live s" "root (s\<lparr>fs_disk := d', free_map := b'\<rparr>) = root s"
    "contents d' x = replicate (nat len) 0" "bits_of b' = set_range (bits_of (free_map s)) k (bytes_to_sectors len) True"
    "\<And>y. y \<in> live s \<union> Y \<Longrightarrow> y \<noteq> 0 \<Longrightarrow> contents d' y = contents (fs_disk s) y"
proof -
  let ?n = "bytes_to_sectors len" and ?used = "bits_of (free_map s)"
  have grp: "group_at ?used ?n k False"
    by (rule scan_from_Some(2) [OF k])
  have cap: "capacity (fs_disk s) \<le> 2 ^ 28" "length ?used = capacity (fs_disk s)"
    using fs_invD(3,8) [OF inv] by simp_all
  have kn: "k + ?n \<le> capacity (fs_disk s)"
    using grp cap(2) by (simp add: group_at_def)
  obtain d1 b1 where d1: "free_map_allocate ?n s = Some (Some k, s\<lparr>fs_disk := d1, free_map := b1\<rparr>)"
    "fs_inv Y (s\<lparr>fs_disk := d1, free_map := b1\<rparr>)" "bits_of b1 = set_range ?used k ?n True" "capacity d1 = capacity (fs_disk s)"
    "\<And>x. x \<in> live s \<union> Y \<Longrightarrow> dnode d1 x = dnode (fs_disk s) x"
    "\<And>x. x \<in> live s \<union> Y \<Longrightarrow> x \<noteq> 0 \<Longrightarrow> contents d1 x = contents (fs_disk s) x"
    by (rule free_map_allocate_result [OF inv m k]) blast
  let ?s1 = "s\<lparr>fs_disk := d1, free_map := b1\<rparr>"
  have r1: "root ?s1 = root s"
    using d1(6) [of 1] by (simp add: root_def ROOT_DIR_SECTOR_def)
  have lv1: "live ?s1 = live s"
    by (simp add: live_def r1 open_sectors_def)
  note inv1 = fs_invD [OF d1(2)]
  let ?id = "\<lparr>d_start = k, d_length = len, d_magic = INODE_MAGIC\<rparr>"
  have rt: "inode_disk_of (inode_disk_bytes ?id) = ?id" "length (inode_disk_bytes ?id) = 512"
    using inode_disk_roundtrip [of ?id] kn cap(1) len by simp_all
  obtain d2 where d2: "disk_write x (inode_disk_bytes ?id) ?s1 = Some (?s1\<lparr>fs_disk := d2\<rparr>)"
    "sectors d2 = (sectors d1)(x := inode_disk_bytes ?id)" "capacity d2 = capacity d1" "disk_ok d2"
    using disk_write_result [of x ?s1 "inode_disk_bytes ?id"] x(1) cap(1) d1(4) inv1(1) rt(2) by auto
  obtain d3 where d3: "zero_sectors k ?n (?s1\<lparr>fs_disk := d2\<rparr>) = Some (?s1\<lparr>fs_disk := d3\<rparr>)" "capacity d3 = capacity d2" "disk_ok d3"
    "\<And>m. sectors d3 m = (if k \<le> m \<and> m < k + ?n then replicate 512 0 else sectors d2 m)"
    using zero_sectors_result [of k ?n "?s1\<lparr>fs_disk := d2\<rparr>"] kn d1(4) d2(3,4) by auto
  have create: "inode_create x len s = Some (True, s\<lparr>fs_disk := d3, free_map := b1\<rparr>)"
    using len(1) d1(1) d2(1) d3(1) m by (simp add: inode_create_def try_malloc_def)
  define i where "i = dnode d3 x"
  have xk: "\<not> (k \<le> x \<and> x < k + ?n)"
    using grp x(2) by (auto simp: group_at_def) (metis add_diff_inverse_nat less_diff_conv2 linorder_not_less add.commute)
  have idata: "i_data i = ?id"
    using d3(4) [of x] d2(2) rt(1) xk by (simp add: i_def dnode_def)
  have ext: "extent i = {k..<k + ?n}" and flen: "file_len i = nat len"
    using idata by (simp_all add: extent_def file_len_def inode_length_def)
  have iok: "inode_ok d3 i"
    using len kn idata d1(4) d2(3) d3(2) by (simp add: inode_ok_def inode_length_def)
  have cap3: "capacity d3 = capacity d1"
    using d3(2) d2(3) by simp
  have disj: "blocks d1 y \<inter> insert x (extent i) = {}" if y: "y \<in> live ?s1 \<union> Y" for y
  proof -
    have y': "y \<in> live s \<union> Y" "blocks d1 y = blocks (fs_disk s) y"
      using y d1(5) [of y] by (simp_all add: lv1 blocks_def)
    have "\<not> (k \<le> n \<and> n < k + ?n)" if "n \<in> blocks (fs_disk s) y" for n
      using layoutD(4) [OF fs_invD(7) [OF inv] y'(1) that] grp unfolding group_at_def
      by (metis le_add_diff_inverse nat_add_left_cancel_less)
    then show ?thesis
      using x(3) [OF y'(1)] by (auto simp: y'(2) ext)
  qed
  have used1: "bits_of b1 ! n" if "n \<in> insert x (extent i)" for n
    using that x(1,2) kn cap(2) by (auto simp: d1(3) ext nth_set_range)
  have same: "sectors d3 n = sectors d1 n" if "n \<notin> insert x (extent i)" for n
    using that d3(4) [of n] d2(2) by (auto simp: ext)
  have x1: "x < capacity d1" "x \<notin> extent i"
    using x(1) d1(4) xk by (simp_all add: ext)
  have l1: "layout d1 (bits_of b1) (live ?s1 \<union> Y)"
    using inv1(7) by simp
  have ins: "layout d3 (bits_of b1) (insert x (live ?s1 \<union> Y))"
    "\<And>y. y \<in> live ?s1 \<union> Y \<Longrightarrow> contents d3 y = contents d1 y" "\<And>y. y \<in> live ?s1 \<union> Y \<Longrightarrow> dnode d3 y = dnode d1 y"
    using layout_insert [OF l1 cap3 refl i_def [symmetric] iok x1 used1 disj same] by blast+
  have c: "contents d3 1 = contents d1 1"
    by (rule ins(2)) simp
  have inv3: "fs_inv Y (?s1\<lparr>fs_disk := d3, free_map := b1\<rparr>)" "live (?s1\<lparr>fs_disk := d3, free_map := b1\<rparr>) = live ?s1"
    "root (?s1\<lparr>fs_disk := d3, free_map := b1\<rparr>) = root ?s1"
    using fs_inv_disk [OF d1(2), of d3 b1] d3(3) cap3 ins(3) c inv1(2) layout_subset [OF ins(1)] by auto
  then have "fs_inv (insert x Y) (?s1\<lparr>fs_disk := d3, free_map := b1\<rparr>)"
    using ins(1) unfolding fs_inv_def by simp
  moreover have "contents d3 x = replicate (nat len) 0"
    using zero_file [OF iok] d3(4) ext flen unfolding contents_def i_def [symmetric] by simp
  moreover have "contents d3 y = contents (fs_disk s) y" if "y \<in> live s \<union> Y" "y \<noteq> 0" for y
    using ins(2) [of y] d1(6) [OF that] that(1) by (simp add: lv1)
  ultimately show ?thesis
    using that [of b1 d3] create inv3(2,3) r1 lv1 d1(3) by simp
qed

subsection \<open>Opening and closing inodes\<close>

text \<open>The parts of the state that opening and closing keep.\<close>

definition same_data_state :: "fsys \<Rightarrow> fsys \<Rightarrow> bool" where
  "same_data_state s s' \<longleftrightarrow> sectors (fs_disk s') = sectors (fs_disk s) \<and> capacity (fs_disk s') = capacity (fs_disk s)
     \<and> free_map s' = free_map s"

lemma same_contents: "sectors d' = sectors d \<Longrightarrow> dnode d' = dnode d \<and> contents d' = contents d \<and> blocks d' = blocks d"
  by (auto simp: dnode_def contents_def file_bytes_def byte_at_def blocks_def fun_eq_iff)

lemma same_layout: "sectors d' = sectors d \<Longrightarrow> capacity d' = capacity d \<Longrightarrow> layout d' used X = layout d used X"
  using same_contents [of d' d] by (simp add: layout_def inode_ok_def)

lemma find_open_result:
  assumes "\<And>p. p \<in> set ps \<Longrightarrow> fs_inodes s p \<noteq> None"
  shows "find_open x ps s = Some (find (\<lambda>p. map_option i_sector (fs_inodes s p) = Some x) ps)"
  using assms
proof (induction ps)
  case (Cons p ps)
  then obtain i where "fs_inodes s p = Some i"
    by force
  then show ?case
    using Cons by (auto simp: get_inode_def)
qed simp

lemma find_open_cases:
  assumes "opens_ok s"
  obtains (opened) p i where "find_open x (open_inodes s) s = Some (Some p)" "fs_inodes s p = Some i" "i_sector i = x"
    | (unopened) "find_open x (open_inodes s) s = Some None" "x \<notin> open_sectors s"
proof -
  have f: "find_open x (open_inodes s) s = Some (find (\<lambda>p. map_option i_sector (fs_inodes s p) = Some x) (open_inodes s))"
    using assms by (intro find_open_result) (simp add: opens_ok_def)
  show ?thesis
  proof (cases "find (\<lambda>p. map_option i_sector (fs_inodes s p) = Some x) (open_inodes s)")
    case None
    then have "x \<notin> open_sectors s"
      using opens_okD(1) [OF assms] by (auto simp: find_None_iff open_sectors_def)
    then show ?thesis
      using unopened f None by simp
  next
    case (Some p)
    then have "map_option i_sector (fs_inodes s p) = Some x"
      by (auto simp: find_Some_iff)
    then show ?thesis
      using opened f Some by auto
  qed
qed

lemma open_sectors_update:
  assumes "fs_inodes s' = (fs_inodes s)(p \<mapsto> i)" "fs_inodes s p = None \<or> map_option i_sector (fs_inodes s p) = Some (i_sector i)"
  shows "open_sectors s' = insert (i_sector i) (open_sectors s)"
proof (rule equalityI; rule subsetI)
  fix x assume "x \<in> open_sectors s'"
  then obtain q j where "fs_inodes s' q = Some j" "x = i_sector j"
    by (auto simp: open_sectors_def)
  then show "x \<in> insert (i_sector i) (open_sectors s)"
    by (cases "q = p") (auto simp: assms(1) open_sectors_def)
next
  fix x assume "x \<in> insert (i_sector i) (open_sectors s)"
  then have "x = i_sector i \<or> (\<exists>q j. fs_inodes s q = Some j \<and> x = i_sector j)"
    by (auto simp: open_sectors_def)
  moreover have "q \<noteq> p \<or> i_sector j = i_sector i" if "fs_inodes s q = Some j" for q j
    using assms(2) that by auto
  ultimately consider "x = i_sector i" | q j where "q \<noteq> p" "fs_inodes s q = Some j" "x = i_sector j"
    by blast
  then show "x \<in> open_sectors s'"
  proof cases
    case 1
    moreover have "fs_inodes s' p = Some i"
      by (simp add: assms(1))
    ultimately show ?thesis
      unfolding open_sectors_def by blast
  next
    case 2
    moreover from this have "fs_inodes s' q = Some j"
      by (simp add: assms(1))
    ultimately show ?thesis
      unfolding open_sectors_def by blast
  qed
qed

lemma map_file_ok_mono:
  assumes "map_file_ok s" "free_map_file s' = free_map_file s" "next_block s \<le> next_block s'"
    "\<And>f. free_map_file s = Some f \<Longrightarrow> f < next_block s \<Longrightarrow> fs_files s' f = fs_files s f"
    "\<And>p i. fs_inodes s p = Some i \<Longrightarrow> i_sector i = 0 \<Longrightarrow> map_option i_sector (fs_inodes s' p) = Some 0"
    "capacity (fs_disk s') = capacity (fs_disk s)" "dnode (fs_disk s') 0 = dnode (fs_disk s) 0"
  shows "map_file_ok s'"
proof -
  obtain f fl i where f: "free_map_file s = Some f" "f < next_block s" "fs_files s f = Some fl" "fs_inodes s (f_inode fl) = Some i"
      "i_sector i = 0" "byte_cnt (capacity (fs_disk s)) \<le> file_len (dnode (fs_disk s) 0)"
    using assms(1) unfolding map_file_ok_def FREE_MAP_SECTOR_def by blast
  obtain j where "fs_inodes s' (f_inode fl) = Some j" "i_sector j = 0"
    using assms(5) [OF f(4,5)] by auto
  then show ?thesis
    unfolding map_file_ok_def FREE_MAP_SECTOR_def using f assms(2,3,6,7) assms(4) [OF f(1,2)]
    by (intro exI [of _ f] exI [of _ fl] exI [of _ j]) simp
qed

lemma fs_inv_put_inode:
  assumes inv: "fs_inv Y s" and p: "fs_inodes s p = Some j" and i: "i_sector i = i_sector j" "open_ok s i"
  shows "fs_inv Y (put_inode p i s)" "live (put_inode p i s) = live s" "root (put_inode p i s) = root s"
proof -
  let ?s = "put_inode p i s"
  show r: "root ?s = root s"
    by (simp add: root_def put_inode_def)
  have "open_sectors ?s = insert (i_sector i) (open_sectors s)"
    by (rule open_sectors_update [of _ _ p]) (use p i(1) in \<open>simp_all add: put_inode_def\<close>)
  also have "\<dots> = open_sectors s"
    using p i(1) by (auto simp: open_sectors_def)
  finally have "open_sectors ?s = open_sectors s" .
  then show lv: "live ?s = live s"
    by (simp add: live_def r)
  have ok: "open_ok ?s = open_ok s"
    by (simp add: open_ok_def fun_eq_iff r) (simp add: put_inode_def)
  note o = fs_invD(5) [OF inv]
  have "opens_ok ?s"
    using o i p unfolding opens_ok_def ok by (auto simp: put_inode_def)
  moreover have "map_file_ok ?s"
    using fs_invD(6) [OF inv] by (rule map_file_ok_mono) (use p i(1) in \<open>auto simp: put_inode_def\<close>)
  ultimately show "fs_inv Y ?s"
    using fs_invD [OF inv] by (simp add: fs_inv_def lv r) (simp add: put_inode_def)
qed

definition new_inode :: "disk \<Rightarrow> nat \<Rightarrow> inode" where
  "new_inode d x = \<lparr>i_sector = x, open_cnt = 1, removed = False, deny_write_cnt = 0, i_data = i_data (dnode d x)\<rparr>"

lemma fs_inv_open_new:
  assumes inv: "fs_inv Y s" and x: "x < 2 \<or> x \<in> dir_sectors (root s)" "x \<notin> open_sectors s"
    and s': "s' = s\<lparr>fs_disk := (fs_disk s)\<lparr>read_cnt := r\<rparr>, fs_inodes := (fs_inodes s)(next_block s \<mapsto> new_inode (fs_disk s) x),
      open_inodes := next_block s # open_inodes s, next_block := next_block s + 1\<rparr>"
  shows "fs_inv Y s'" "live s' = live s" "root s' = root s"
proof -
  let ?p = "next_block s"
  have d: "sectors (fs_disk s') = sectors (fs_disk s)" "capacity (fs_disk s') = capacity (fs_disk s)"
    by (simp_all add: s')
  note same = same_contents [OF d(1)]
  show rt: "root s' = root s"
    using same by (simp add: root_def)
  have p: "fs_inodes s ?p = None"
    by (rule no_inode [OF inv])
  have os: "open_sectors s' = insert x (open_sectors s)"
    using open_sectors_update [of s' s ?p "new_inode (fs_disk s) x"] p by (simp add: s') (simp add: new_inode_def)
  have "x = 0 \<or> x = 1 \<or> x \<in> dir_sectors (root s)"
    using x(1) by auto
  then have "x \<in> live s"
    by (auto simp: live_def FREE_MAP_SECTOR_def ROOT_DIR_SECTOR_def)
  then show lv: "live s' = live s"
    by (auto simp: live_def os rt)
  have ok: "open_ok s' = open_ok s"
    using same by (simp add: open_ok_def fun_eq_iff rt)
  have new: "open_ok s (new_inode (fs_disk s) x)"
    using x(1) by (auto simp: open_ok_def new_inode_def)
  note o = fs_invD(5) [OF inv]
  have "fs_inodes s' q = (if q = ?p then Some (new_inode (fs_disk s) x) else fs_inodes s q)" for q
    by (simp add: s')
  moreover have "i_sector i \<noteq> x" if "fs_inodes s q = Some i" for q i
    using x(2) that by (auto simp: open_sectors_def)
  moreover have "open_inodes s' = ?p # open_inodes s" "next_block s' = ?p + 1" "i_sector (new_inode (fs_disk s) x) = x"
    by (simp_all add: s' new_inode_def)
  moreover have "?p \<notin> set (open_inodes s)"
    using o p by (simp add: opens_ok_def)
  ultimately have "opens_ok s'"
    using o new unfolding opens_ok_def ok by (auto simp: less_Suc_eq)
  moreover have "map_file_ok s'"
    using fs_invD(6) [OF inv] by (rule map_file_ok_mono) (use p same d in \<open>auto simp: s'\<close>)
  moreover have "layout (fs_disk s') (bits_of (free_map s')) (live s' \<union> Y)"
    using fs_invD(7) [OF inv] same_layout [OF d] by (simp add: lv) (simp add: s')
  ultimately show "fs_inv Y s'"
    using fs_invD(1-4) [OF inv] rt d by (simp add: fs_inv_def disk_ok_def) (simp add: s')
qed

text \<open>
  Opening the inode of a system file or of a directory entry. The state keeps everything but the
  inode's table and counters.
\<close>

lemma inode_open_result:
  assumes inv: "fs_inv Y s" and m: "mallocs s = []" and x: "x < 2 \<or> x \<in> dir_sectors (root s)"
    and room: "\<And>p i. fs_inodes s p = Some i \<Longrightarrow> i_sector i = x \<Longrightarrow> open_cnt i < 2 ^ 31 - 1"
  obtains p s' i where "inode_open x s = Some (Some p, s')" "fs_inv Y s'" "live s' = live s" "root s' = root s"
    "mallocs s' = []" "same_data_state s s'" "fs_inodes s' = (fs_inodes s)(p \<mapsto> i)" "i_sector i = x"
    "fs_files s' = fs_files s" "fs_dirs s' = fs_dirs s" "free_map_file s' = free_map_file s" "next_block s \<le> next_block s'"
    "case fs_inodes s p of None \<Rightarrow> i = new_inode (fs_disk s) x | Some j \<Rightarrow> i = j\<lparr>open_cnt := open_cnt j + 1\<rparr>"
  using fs_invD(5) [OF inv]
proof (cases rule: find_open_cases [of s x])
  case (opened p j)
  let ?i = "j\<lparr>open_cnt := open_cnt j + 1\<rparr>"
  have j: "open_ok s j" "open_cnt j < 2 ^ 31 - 1"
    using opens_okD(3) [OF fs_invD(5) [OF inv] opened(2)] room [OF opened(2,3)] by simp_all
  then have "open_ok s ?i" "s32 (open_cnt j + 1) = open_cnt j + 1"
    by (simp_all add: open_ok_def)
  moreover from this have "inode_open x s = Some (Some p, put_inode p ?i s)"
    using opened by (simp add: inode_open_def inode_reopen_def get_inode_def)
  moreover note fs_inv_put_inode [OF inv opened(2), of ?i]
  ultimately show ?thesis
    using that [of p "put_inode p ?i s" ?i] opened(2,3) m by (simp add: same_data_state_def put_inode_def)
next
  case unopened
  have "x = 0 \<or> x = 1 \<or> x \<in> dir_sectors (root s)"
    using x by auto
  then have "x \<in> live s"
    by (auto simp: live_def FREE_MAP_SECTOR_def ROOT_DIR_SECTOR_def)
  then have "x < capacity (fs_disk s)"
    using layoutD(1) [OF fs_invD(7) [OF inv]] by blast
  then have ok: "sector_ok (fs_disk s) x"
    using fs_invD(8) [OF inv] by (simp add: sector_ok_def)
  define s' where "s' = s\<lparr>fs_disk := (fs_disk s)\<lparr>read_cnt := read_cnt (fs_disk s) + 1\<rparr>,
      fs_inodes := (fs_inodes s)(next_block s \<mapsto> new_inode (fs_disk s) x),
      open_inodes := next_block s # open_inodes s, next_block := next_block s + 1\<rparr>"
  have "inode_open x s = Some (Some (next_block s), s')"
    using unopened(1) m ok
    by (simp add: inode_open_def try_malloc_def disk_read_def put_inode_def s'_def new_inode_def dnode_def Let_def)
  moreover note fs_inv_open_new [OF inv x unopened(2) s'_def]
  moreover have "fs_inodes s (next_block s) = None"
    by (rule no_inode [OF inv])
  ultimately show ?thesis
    using that [of "next_block s" s' "new_inode (fs_disk s) x"] m
    by (simp add: same_data_state_def s'_def) (simp add: new_inode_def)
qed

lemma fs_inv_drop_inode:
  assumes inv: "fs_inv Y s" and p: "fs_inodes s p = Some i" "i_sector i \<noteq> 0"
    and s': "s' = s\<lparr>fs_inodes := (fs_inodes s)(p := None), open_inodes := remove1 p (open_inodes s)\<rparr>"
  shows "fs_inv Y s'" "root s' = root s" "open_sectors s' = open_sectors s - {i_sector i}" "live s' \<subseteq> live s"
proof -
  note o = fs_invD(5) [OF inv]
  show r: "root s' = root s"
    by (simp add: root_def s')
  have t: "fs_inodes s' q = (if q = p then None else fs_inodes s q)" for q
    by (simp add: s')
  show os: "open_sectors s' = open_sectors s - {i_sector i}"
  proof (rule set_eqI)
    fix x
    show "x \<in> open_sectors s' \<longleftrightarrow> x \<in> open_sectors s - {i_sector i}"
      unfolding open_sectors_def mem_Collect_eq Diff_iff singleton_iff t
      using opens_okD(4) [OF o p(1)] p(1) by (metis option.distinct(1) option.inject)
  qed
  then show lv: "live s' \<subseteq> live s"
    by (auto simp: live_def r)
  have ok: "open_ok s' = open_ok s"
    by (simp add: open_ok_def fun_eq_iff r) (simp add: s')
  have "open_inodes s' = remove1 p (open_inodes s)" "next_block s' = next_block s"
    by (simp_all add: s')
  then have "opens_ok s'"
    using o unfolding opens_ok_def ok t by (simp add: set_remove1_eq)
  moreover have "map_file_ok s'"
    using fs_invD(6) [OF inv] by (rule map_file_ok_mono) (use p in \<open>auto simp: s'\<close>)
  moreover have "layout (fs_disk s) (bits_of (free_map s)) (live s' \<union> Y)"
    using lv by (intro layout_subset [OF fs_invD(7) [OF inv]]) blast
  ultimately show "fs_inv Y s'"
    using fs_invD(1-4) [OF inv] by (simp add: fs_inv_def r) (simp add: s')
qed

lemma blocks_group:
  assumes "layout d used X" "x \<in> X"
  shows "group_at used 1 x True" "group_at used (bytes_to_sectors (inode_length (dnode d x))) (d_start (i_data (dnode d x))) True"
proof -
  have len: "length used = capacity d"
    using assms(1) by (simp add: layout_def)
  have "used ! n" if "n \<in> blocks d x" for n
    by (rule layoutD(4) [OF assms that])
  moreover have "d_start (i_data (dnode d x)) + bytes_to_sectors (inode_length (dnode d x)) \<le> capacity d"
    using layoutD(2) [OF assms] by (simp add: inode_ok_def)
  ultimately show "group_at used 1 x True" "group_at used (bytes_to_sectors (inode_length (dnode d x))) (d_start (i_data (dnode d x))) True"
    using layoutD(1) [OF assms] by (auto simp: group_at_def len blocks_def extent_def)
qed

lemma inode_close_removed:
  assumes inv: "fs_inv Y s" and m: "mallocs s = []" and p: "fs_inodes s p = Some i" and last: "open_cnt i = 1" "removed i"
    and x: "i_sector i \<notin> Y"
    and s2: "s2 = s\<lparr>fs_inodes := (fs_inodes s)(p := None), open_inodes := remove1 p (open_inodes s)\<rparr>"
  obtains d' b' where "inode_close (Some p) s = Some (s2\<lparr>fs_disk := d', free_map := b'\<rparr>)" "fs_inv Y (s2\<lparr>fs_disk := d', free_map := b'\<rparr>)"
    "live (s2\<lparr>fs_disk := d', free_map := b'\<rparr>) = live s2" "root (s2\<lparr>fs_disk := d', free_map := b'\<rparr>) = root s"
    "\<And>y. y \<in> live s2 \<union> Y \<Longrightarrow> y \<noteq> 0 \<Longrightarrow> contents d' y = contents (fs_disk s) y"
proof -
  let ?x = "i_sector i" and ?d = "fs_disk s" and ?i = "i\<lparr>open_cnt := 0\<rparr>"
  define st n where "st = d_start (i_data (dnode ?d ?x))" and "n = bytes_to_sectors (inode_length (dnode ?d ?x))"
  have ok: "open_ok s i"
    by (rule opens_okD(3) [OF fs_invD(5) [OF inv] p])
  then have data: "i_data i = i_data (dnode ?d ?x)" and x2: "2 \<le> ?x" "?x \<notin> dir_sectors (root s)"
    using last(2) by (auto simp: open_ok_def split: if_splits)
  have st_n: "d_start (i_data i) = st" "bytes_to_sectors (d_length (i_data i)) = n"
    using data by (simp_all add: st_def n_def inode_length_def)
  have x0: "?x \<noteq> 0"
    using x2(1) by simp
  note drop = fs_inv_drop_inode [OF inv p x0 s2]
  have d2: "fs_disk s2 = ?d" "free_map s2 = free_map s" "mallocs s2 = []" "fs_inodes s2 p = None"
    using m by (simp_all add: s2)
  note l = fs_invD(7) [OF inv]
  have xl: "?x \<in> live s \<union> Y"
    using open_live [OF p] by simp
  have x_dead: "?x \<notin> live s2 \<union> Y"
    using x x2 drop(2,3) by (auto simp: live_def FREE_MAP_SECTOR_def ROOT_DIR_SECTOR_def)
  have disj: "blocks ?d y \<inter> blocks ?d ?x = {}" if "y \<in> live s2 \<union> Y" for y
    using layoutD(5) [OF l _ xl, of y] that x_dead drop(4) by blast
  have bx: "blocks ?d ?x = insert ?x {st..<st + n}"
    by (simp add: blocks_def extent_def st_def n_def)
  have xe: "?x \<notin> {st..<st + n}"
    using layoutD(3) [OF l xl] by (simp add: extent_def st_def n_def)
  have g: "group_at (bits_of (free_map s)) 1 ?x True" "group_at (bits_of (free_map s)) n st True"
    using blocks_group [OF l xl] by (simp_all add: st_def n_def)
  have len: "?x + 1 \<le> bit_cnt (free_map s2)" "st + n \<le> bit_cnt (free_map s2)"
    using g d2(2) by (simp_all add: group_at_def)
  let ?t = "\<lambda>s. s\<lparr>fs_inodes := (fs_inodes s)(p \<mapsto> ?i)\<rparr>"
  note w1 = fs_inv_map_writable(2) [OF drop(1) d2(4), of ?i]
  note i2 = fs_invD [OF drop(1)]
  have pre: "mallocs (?t s2) = []" "wf_bitmap (free_map (?t s2))" "bit_cnt (free_map (?t s2)) = capacity (fs_disk (?t s2))"
    "group_at (bits_of (free_map (?t s2))) 1 ?x True"
    using i2(2,3) d2 g(1) by simp_all
  obtain d1 b1 where r1: "free_map_release ?x 1 (?t s2) = Some ((?t s2)\<lparr>fs_disk := d1, free_map := b1\<rparr>)"
    "wf_bitmap b1" "bit_cnt b1 = bit_cnt (free_map s2)" "bits_of b1 = set_range (bits_of (free_map s2)) ?x 1 False"
    "disk_ok d1" "capacity d1 = capacity (fs_disk s2)"
    "\<And>n. n \<notin> extent (dnode (fs_disk s2) 0) \<Longrightarrow> sectors d1 n = sectors (fs_disk s2) n"
    by (rule free_map_release_raw [OF w1 pre]) auto
  let ?s3 = "s2\<lparr>fs_disk := d1, free_map := b1\<rparr>"
  have inv3: "fs_inv Y ?s3" "live ?s3 = live s2" "root ?s3 = root s2"
    "\<And>y. y \<in> live s2 \<union> Y \<Longrightarrow> dnode d1 y = dnode ?d y"
    "\<And>y. y \<in> live s2 \<union> Y \<Longrightarrow> y \<noteq> 0 \<Longrightarrow> contents d1 y = contents ?d y"
    using fs_inv_release [OF drop(1) len(1) r1(2-7)] disj bx unfolding d2 by auto
  have g3: "group_at (bits_of b1) n st True"
    using g(2) xe len unfolding r1(4) d2(2) by (auto simp: group_at_def nth_set_range)
  have n3: "fs_inodes ?s3 p = None" "mallocs (?t ?s3) = []"
    using d2 by simp_all
  note w3 = fs_inv_map_writable(2) [OF inv3(1) n3(1), of ?i]
  note i3 = fs_invD [OF inv3(1)]
  have pre3: "wf_bitmap (free_map (?t ?s3))" "bit_cnt (free_map (?t ?s3)) = capacity (fs_disk (?t ?s3))"
    "group_at (bits_of (free_map (?t ?s3))) n st True"
    using i3(2,3) g3 by simp_all
  obtain d' b' where r3: "free_map_release st n (?t ?s3) = Some ((?t ?s3)\<lparr>fs_disk := d', free_map := b'\<rparr>)"
    "wf_bitmap b'" "bit_cnt b' = bit_cnt (free_map ?s3)" "bits_of b' = set_range (bits_of (free_map ?s3)) st n False"
    "disk_ok d'" "capacity d' = capacity (fs_disk ?s3)"
    "\<And>n. n \<notin> extent (dnode (fs_disk ?s3) 0) \<Longrightarrow> sectors d' n = sectors (fs_disk ?s3) n"
    by (rule free_map_release_raw [OF w3 n3(2) pre3]) auto
  have len3: "st + n \<le> bit_cnt (free_map ?s3)"
    using len(2) r1(3) by simp
  have "blocks (fs_disk ?s3) y \<inter> {st..<st + n} = {}" if "y \<in> live ?s3 \<union> Y" for y
  proof -
    have "blocks (fs_disk ?s3) y = blocks ?d y"
      using inv3(4) [of y] that unfolding inv3(2) by (simp add: blocks_def)
    then show ?thesis
      using disj [of y] that unfolding inv3(2) bx by blast
  qed
  then have inv4: "fs_inv Y (?s3\<lparr>fs_disk := d', free_map := b'\<rparr>)" "live (?s3\<lparr>fs_disk := d', free_map := b'\<rparr>) = live ?s3"
    "root (?s3\<lparr>fs_disk := d', free_map := b'\<rparr>) = root ?s3"
    "\<And>y. y \<in> live s2 \<union> Y \<Longrightarrow> y \<noteq> 0 \<Longrightarrow> contents d' y = contents d1 y"
    using fs_inv_release [OF inv3(1) len3 r3(2-7)] inv3(2) by auto
  have "(put_inode p ?i s)\<lparr>open_inodes := remove1 p (open_inodes s)\<rparr> = ?t s2"
    by (simp add: put_inode_def s2)
  moreover have eq: "(?t s2)\<lparr>fs_disk := d1, free_map := b1\<rparr> = ?t ?s3"
    by simp
  have r3': "free_map_release st n ((?t s2)\<lparr>fs_disk := d1, free_map := b1\<rparr>) = Some ((?t ?s3)\<lparr>fs_disk := d', free_map := b'\<rparr>)"
    unfolding eq by (rule r3(1))
  moreover have "((?t ?s3)\<lparr>fs_disk := d', free_map := b'\<rparr>)\<lparr>fs_inodes := (fs_inodes (?t ?s3))(p := None)\<rparr> = s2\<lparr>fs_disk := d', free_map := b'\<rparr>"
    using d2(4) by (simp add: s2)
  ultimately have "inode_close (Some p) s = Some (s2\<lparr>fs_disk := d', free_map := b'\<rparr>)"
    using p last st_n r1(1) r3' by (simp add: inode_close_def get_inode_def put_inode_def)
  then show ?thesis
    using that [of b' d'] inv3(2,3,5) inv4 drop(2) by simp
qed

lemma inode_close_result:
  assumes inv: "fs_inv Y s" and m: "mallocs s = []" and p: "fs_inodes s p = Some i" and x: "i_sector i \<noteq> 0" "i_sector i \<notin> Y"
  obtains s' where "inode_close (Some p) s = Some s'" "fs_inv Y s'" "root s' = root s" "mallocs s' = []"
    "\<And>y. y \<in> live s' \<union> Y \<Longrightarrow> y \<noteq> 0 \<Longrightarrow> contents (fs_disk s') y = contents (fs_disk s) y"
    "fs_inodes s' = (fs_inodes s)(p := (if open_cnt i = 1 then None else Some (i\<lparr>open_cnt := open_cnt i - 1\<rparr>)))"
    "fs_files s' = fs_files s" "fs_dirs s' = fs_dirs s" "free_map_file s' = free_map_file s" "next_block s' = next_block s"
    "\<not> (open_cnt i = 1 \<and> removed i) \<Longrightarrow> fs_disk s' = fs_disk s \<and> free_map s' = free_map s"
proof -
  define s2 where "s2 = s\<lparr>fs_inodes := (fs_inodes s)(p := None), open_inodes := remove1 p (open_inodes s)\<rparr>"
  have ok: "open_ok s i"
    by (rule opens_okD(3) [OF fs_invD(5) [OF inv] p])
  then have cnt: "0 < open_cnt i" "open_cnt i < 2 ^ 31" "s32 (open_cnt i - 1) = open_cnt i - 1"
    by (auto simp: open_ok_def)
  consider "open_cnt i = 1" "removed i" | "open_cnt i = 1" "\<not> removed i" | "open_cnt i \<noteq> 1"
    by blast
  then show ?thesis
  proof cases
    case 1
    obtain d' b' where c: "inode_close (Some p) s = Some (s2\<lparr>fs_disk := d', free_map := b'\<rparr>)" "fs_inv Y (s2\<lparr>fs_disk := d', free_map := b'\<rparr>)"
        "live (s2\<lparr>fs_disk := d', free_map := b'\<rparr>) = live s2" "root (s2\<lparr>fs_disk := d', free_map := b'\<rparr>) = root s"
        "\<And>y. y \<in> live s2 \<union> Y \<Longrightarrow> y \<noteq> 0 \<Longrightarrow> contents d' y = contents (fs_disk s) y"
      by (rule inode_close_removed [OF inv m p 1 x(2) s2_def]) blast
    show ?thesis
      by (rule that [OF c(1,2,4)]) (use 1 m c(3,5) in \<open>simp_all add: s2_def\<close>)
  next
    case 2
    have "inode_close (Some p) s = Some s2"
      using p cnt(3) 2 by (simp add: inode_close_def get_inode_def put_inode_def s2_def)
    then show ?thesis
      by (rule that) (use fs_inv_drop_inode [OF inv p x(1) s2_def] 2 m in \<open>simp_all add: s2_def\<close>)
  next
    case 3
    let ?i = "i\<lparr>open_cnt := open_cnt i - 1\<rparr>"
    have "inode_close (Some p) s = Some (put_inode p ?i s)"
      using p cnt(3) 3 by (simp add: inode_close_def get_inode_def)
    moreover have "open_ok s ?i"
      using ok 3 by (simp add: open_ok_def)
    ultimately show ?thesis
      by (intro that [of "put_inode p ?i s"])
        (use fs_inv_put_inode [OF inv p, of ?i] 3 m in \<open>simp_all add: put_inode_def\<close>)
  qed
qed

lemma fs_inv_blocks:
  assumes "fs_inv Y s" "next_block s \<le> n" "\<And>f. f < next_block s \<Longrightarrow> F f = fs_files s f"
    and s': "s' = s\<lparr>fs_dirs := D, fs_files := F, next_block := n\<rparr>"
  shows "fs_inv Y s'" "live s' = live s" "root s' = root s"
proof -
  show r: "root s' = root s"
    by (simp add: s' root_def)
  show lv: "live s' = live s"
    by (simp add: live_def r open_sectors_def) (simp add: s')
  have "open_ok s' = open_ok s"
    by (simp add: open_ok_def fun_eq_iff r) (simp add: s')
  then have "opens_ok s'"
    using fs_invD(5) [OF assms(1)] assms(2) unfolding opens_ok_def by (auto simp: s' intro: less_le_trans)
  moreover have "map_file_ok s'"
    using fs_invD(6) [OF assms(1)] by (rule map_file_ok_mono) (use assms(2,3) in \<open>simp_all add: s'\<close>)
  ultimately show "fs_inv Y s'"
    using fs_invD [OF assms(1)] by (simp add: fs_inv_def lv r) (simp add: s')
qed

end
