(* ===== verification/Filesys_Ops.thy ===== *)
theory Filesys_Ops
  imports Filesys_Inv
begin

section \<open>Operations on the root directory\<close>

text \<open>
  The bytes of a directory as a map from names to sectors, and that looking up, entering and erasing names in
  the root directory implement this map and keep the invariant of the file system.
\<close>

subsection \<open>Directories as maps\<close>

definition dir_find :: "8 word list \<Rightarrow> 8 word list \<Rightarrow> nat option" where
  "dir_find bs name = find (named name bs) [0..<slots bs]"

definition dir_map :: "8 word list \<Rightarrow> 8 word list \<rightharpoonup> nat" where
  "dir_map bs name = map_option (\<lambda>j. inode_sector (entry_at bs j)) (dir_find bs name)"

lemma dir_find_Some:
  assumes "dir_ok bs"
  shows "dir_find bs name = Some j \<longleftrightarrow> used_slot bs j \<and> entry_name (entry_at bs j) = name"
proof
  assume "dir_find bs name = Some j"
  then show "used_slot bs j \<and> entry_name (entry_at bs j) = name"
    by (auto simp: dir_find_def find_Some_iff named_def used_slot_def)
next
  assume j: "used_slot bs j \<and> entry_name (entry_at bs j) = name"
  have "\<not> named name bs i" if "i < j" for i
    using assms j that unfolding dir_ok_def named_def used_slot_def by (metis less_imp_neq order.strict_trans)
  moreover have "named name bs j" "j < slots bs"
    using j by (auto simp: named_def used_slot_def)
  ultimately show "dir_find bs name = Some j"
    by (auto simp: dir_find_def find_Some_iff intro!: exI [of _ j])
qed

lemma dir_find_None: "dir_find bs name = None \<longleftrightarrow> (\<forall>j. used_slot bs j \<longrightarrow> entry_name (entry_at bs j) \<noteq> name)"
  by (auto simp: dir_find_def find_None_iff named_def used_slot_def)

lemma dir_map_Some:
  assumes "dir_ok bs"
  shows "dir_map bs name = Some x \<longleftrightarrow> (\<exists>j. used_slot bs j \<and> entry_name (entry_at bs j) = name \<and> inode_sector (entry_at bs j) = x)"
  using dir_find_Some [OF assms] by (auto simp: dir_map_def)

lemma dir_map_None: "dir_map bs name = None \<longleftrightarrow> (\<forall>j. used_slot bs j \<longrightarrow> entry_name (entry_at bs j) \<noteq> name)"
  by (simp add: dir_map_def dir_find_None)

lemma dir_map_sector: "dir_ok bs \<Longrightarrow> dir_map bs name = Some x \<Longrightarrow> x \<in> dir_sectors bs \<and> 2 \<le> x"
  by (auto simp: dir_map_Some dir_sectors_def dir_ok_def)

lemma dir_sectors_image: "dir_sectors bs = (\<lambda>j. inode_sector (entry_at bs j)) ` {j. used_slot bs j}"
  by (auto simp: dir_sectors_def)

lemma used_slot_overwrite:
  assumes "k < slots bs" "length e = 20"
  shows "used_slot (overwrite (20 * k) e bs) j \<longleftrightarrow> (if j = k then in_use e else used_slot bs j)"
  using entry_at_overwrite [OF assms(1,2), of j] assms by (auto simp: used_slot_def)

lemma entry_at_used_overwrite:
  assumes "k < slots bs" "length e = 20" "used_slot (overwrite (20 * k) e bs) j"
  shows "entry_at (overwrite (20 * k) e bs) j = (if j = k then e else entry_at bs j)"
  using entry_at_overwrite [OF assms(1,2), of j] assms by (auto simp: used_slot_def)

text \<open>Entering a name in a free slot and erasing an entry.\<close>

lemma dir_add_bytes:
  assumes ok: "dir_ok bs" and k: "k < slots bs" "\<not> in_use (entry_at bs k)" and len: "length e = 20"
    and e: "in_use e" "entry_name e = name" "inode_sector e = x" and new: "dir_map bs name = None" "x \<notin> dir_sectors bs" "2 \<le> x"
  shows "dir_ok (overwrite (20 * k) e bs)" "dir_sectors (overwrite (20 * k) e bs) = insert x (dir_sectors bs)"
    "dir_map (overwrite (20 * k) e bs) = (dir_map bs)(name \<mapsto> x)"
proof -
  let ?bs = "overwrite (20 * k) e bs"
  have us: "used_slot ?bs j \<longleftrightarrow> j = k \<or> used_slot bs j" for j
    using used_slot_overwrite [OF k(1) len, of j] e(1) k by (auto simp: used_slot_def)
  have ent: "entry_at ?bs k = e" "used_slot bs j \<Longrightarrow> entry_at ?bs j = entry_at bs j" for j
    using entry_at_used_overwrite [OF k(1) len, of j] entry_at_used_overwrite [OF k(1) len, of k] us k by (auto simp: used_slot_def)
  have name: "used_slot bs j \<Longrightarrow> entry_name (entry_at bs j) \<noteq> name" "used_slot bs j \<Longrightarrow> inode_sector (entry_at bs j) \<noteq> x" for j
    using new(1,2) unfolding dir_map_None dir_sectors_def by blast+
  have "2 \<le> inode_sector (entry_at ?bs j)" if "used_slot ?bs j" for j
    using that ok new(3) e(3) ent unfolding us dir_ok_def by metis
  moreover have "i = j" if "used_slot ?bs i" "used_slot ?bs j"
      "entry_name (entry_at ?bs i) = entry_name (entry_at ?bs j) \<or> inode_sector (entry_at ?bs i) = inode_sector (entry_at ?bs j)" for i j
    using that ok name e(2,3) ent unfolding us dir_ok_def by metis
  ultimately show ok': "dir_ok ?bs"
    unfolding dir_ok_def by blast
  have "{j. used_slot ?bs j} = insert k {j. used_slot bs j}"
    using us by auto
  then show "dir_sectors ?bs = insert x (dir_sectors bs)"
    unfolding dir_sectors_image using ent e(3) by simp
  show "dir_map ?bs = (dir_map bs)(name \<mapsto> x)"
  proof
    fix n
    show "dir_map ?bs n = ((dir_map bs)(name \<mapsto> x)) n"
    proof (cases "n = name")
      case True
      then have "dir_map ?bs n = Some x"
        unfolding dir_map_Some [OF ok'] using us [of k] ent(1) e(2,3) by (intro exI [of _ k]) simp
      then show ?thesis
        using True by simp
    next
      case False
      have "dir_map ?bs n = Some y \<longleftrightarrow> dir_map bs n = Some y" for y
        unfolding dir_map_Some [OF ok'] dir_map_Some [OF ok] us using False e(2) ent by metis
      then have "dir_map ?bs n = dir_map bs n"
        by (metis not_None_eq)
      then show ?thesis
        using False by simp
    qed
  qed
qed

lemma dir_erase_bytes:
  assumes ok: "dir_ok bs" and k: "used_slot bs k" and len: "length e = 20" and e: "\<not> in_use e"
  shows "dir_ok (overwrite (20 * k) e bs)" "dir_sectors (overwrite (20 * k) e bs) = dir_sectors bs - {inode_sector (entry_at bs k)}"
    "dir_map (overwrite (20 * k) e bs) = (dir_map bs)(entry_name (entry_at bs k) := None)"
proof -
  let ?bs = "overwrite (20 * k) e bs"
  have kl: "k < slots bs"
    using k by (simp add: used_slot_def)
  have us: "used_slot ?bs j \<longleftrightarrow> j \<noteq> k \<and> used_slot bs j" for j
    using used_slot_overwrite [OF kl len, of j] e by simp
  have ent: "entry_at ?bs j = entry_at bs j" if "j \<noteq> k" "used_slot bs j" for j
    using entry_at_used_overwrite [OF kl len, of j] us that by simp
  have uniq: "j = k" if "used_slot bs j" "entry_name (entry_at bs j) = entry_name (entry_at bs k)
      \<or> inode_sector (entry_at bs j) = inode_sector (entry_at bs k)" for j
    using ok k that unfolding dir_ok_def by blast
  show ok': "dir_ok ?bs"
    using ok ent unfolding dir_ok_def us by simp
  have "{j. used_slot ?bs j} = {j. used_slot bs j} - {k}"
    using us by auto
  then have "dir_sectors ?bs = (\<lambda>j. inode_sector (entry_at bs j)) ` ({j. used_slot bs j} - {k})"
    unfolding dir_sectors_image using ent by (intro image_cong) auto
  moreover have "inj_on (\<lambda>j. inode_sector (entry_at bs j)) {j. used_slot bs j}"
    using ok unfolding dir_ok_def by (intro inj_onI) blast
  ultimately show "dir_sectors ?bs = dir_sectors bs - {inode_sector (entry_at bs k)}"
    using k unfolding dir_sectors_image by (subst (asm) inj_on_image_set_diff) auto
  show "dir_map ?bs = (dir_map bs)(entry_name (entry_at bs k) := None)"
  proof
    fix n
    show "dir_map ?bs n = ((dir_map bs)(entry_name (entry_at bs k) := None)) n"
    proof (cases "n = entry_name (entry_at bs k)")
      case True
      have "dir_map ?bs n = None"
        unfolding dir_map_None us using True ent uniq by auto
      then show ?thesis
        using True by simp
    next
      case False
      have "dir_map ?bs n = Some y \<longleftrightarrow> dir_map bs n = Some y" for y
        unfolding dir_map_Some [OF ok'] dir_map_Some [OF ok] us using False ent by metis
      then have "dir_map ?bs n = dir_map bs n"
        by (metis not_None_eq)
      then show ?thesis
        using False by simp
    qed
  qed
qed

subsection \<open>Operations on the root directory\<close>

lemma root_writable:
  assumes "fs_inv Y s" "fs_inodes s p = Some i" "i_sector i = 1"
  shows "writable p i s" "file_bytes (fs_disk s) i = root s" "extent i = extent (dnode (fs_disk s) 1)" "file_len i = length (root s)"
    "i_data i = i_data (dnode (fs_disk s) 1)"
proof -
  have ok: "open_ok s i"
    by (rule opens_okD(3) [OF fs_invD(5) [OF assms(1)] assms(2)])
  then show "writable p i s"
    using open_writable(4) [OF assms(1,2)] assms(3) by (simp add: open_ok_def)
  show "file_bytes (fs_disk s) i = root s" "extent i = extent (dnode (fs_disk s) 1)"
    using open_writable(1,2) [OF assms(1,2)] assms(3) by (simp_all add: root_def contents_def ROOT_DIR_SECTOR_def)
  then show "file_len i = length (root s)"
    by (metis length_file_bytes)
  show "i_data i = i_data (dnode (fs_disk s) 1)"
    using ok assms(3) by (simp add: open_ok_def)
qed

lemma fs_inv_read:
  assumes "fs_inv Y s" "reads_only s s'" "mallocs s = []"
  shows "fs_inv Y s'" "live s' = live s" "root s' = root s" "contents (fs_disk s') = contents (fs_disk s)" "mallocs s' = []"
    "same_data_state s s'" "fs_inodes s' = fs_inodes s" "fs_files s' = fs_files s" "fs_dirs s' = fs_dirs s"
    "free_map_file s' = free_map_file s" "next_block s' = next_block s"
proof -
  obtain r where s': "s' = s\<lparr>fs_disk := (fs_disk s)\<lparr>read_cnt := r\<rparr>\<rparr>"
    by (rule reads_only_disk [OF assms(2,3)])
  let ?d = "(fs_disk s)\<lparr>read_cnt := r\<rparr>"
  have d: "sectors ?d = sectors (fs_disk s)" "capacity ?d = capacity (fs_disk s)"
    by simp_all
  note same = same_contents [OF d(1)]
  have eq: "s\<lparr>fs_disk := ?d, free_map := free_map s\<rparr> = s'"
    by (simp add: s')
  have "fs_inv Y (s\<lparr>fs_disk := ?d, free_map := free_map s\<rparr>) \<and> live (s\<lparr>fs_disk := ?d, free_map := free_map s\<rparr>) = live s
      \<and> root (s\<lparr>fs_disk := ?d, free_map := free_map s\<rparr>) = root s"
    using fs_inv_disk [OF assms(1), of ?d "free_map s"] fs_invD [OF assms(1)] same same_layout [OF d] same_sectors(1) [OF d] by simp
  then show "fs_inv Y s'" "live s' = live s" "root s' = root s"
    unfolding eq by simp_all
  show "contents (fs_disk s') = contents (fs_disk s)" "mallocs s' = []" "same_data_state s s'" "fs_inodes s' = fs_inodes s"
    "fs_files s' = fs_files s" "fs_dirs s' = fs_dirs s" "free_map_file s' = free_map_file s" "next_block s' = next_block s"
    using same assms(3) by (simp_all add: s' same_data_state_def)
qed

text \<open>The pointer to an open root directory.\<close>

definition root_dir :: "nat \<Rightarrow> nat \<Rightarrow> inode \<Rightarrow> fsys \<Rightarrow> bool" where
  "root_dir dp p i s \<longleftrightarrow> (\<exists>d. fs_dirs s dp = Some d \<and> dir_inode d = p) \<and> fs_inodes s p = Some i \<and> i_sector i = 1"

lemma lookup_result:
  assumes inv: "fs_inv Y s" and m: "mallocs s = []" and dir: "root_dir dp p i s" and e: "length e = 20"
  obtains s' where "lookup dp name e s = Some (map_option (\<lambda>j. (entry_at (root s) j, 20 * j)) (dir_find (root s) name), s')"
    "reads_only s s'"
proof -
  obtain d where d: "fs_dirs s dp = Some d" "dir_inode d = p" and p: "fs_inodes s p = Some i" "i_sector i = 1"
    using dir unfolding root_dir_def by blast
  note w = root_writable [OF inv p]
  show ?thesis
    using lookup_loop_result [OF w(1) m e, of 0 name] d that unfolding w(2)
    by (auto simp: lookup_def get_dir_def dir_find_def)
qed

lemma free_slot_result:
  assumes inv: "fs_inv Y s" and m: "mallocs s = []" and dir: "root_dir dp p i s" and e: "length e = 20"
    and k: "find (\<lambda>j. \<not> in_use (entry_at (root s) j)) [0..<slots (root s)] = Some k"
  obtains e' s' where "free_slot_loop p 0 e s = Some (int (20 * k), e', s')" "reads_only s s'" "length e' = 20"
proof -
  have p: "fs_inodes s p = Some i" "i_sector i = 1"
    using dir unfolding root_dir_def by blast+
  note w = root_writable [OF inv p]
  show ?thesis
    using free_slot_loop_result [OF w(1) m e, of 0] that k unfolding w(2) by auto
qed

lemma root_write:
  assumes inv: "fs_inv Y s" and m: "mallocs s = []" and p: "fs_inodes s p = Some i" "i_sector i = 1"
    and bs: "length bs = 20" and k: "k < slots (root s)"
  obtains d' where "inode_write_at p bs 20 (int (20 * k)) s = Some (20, s\<lparr>fs_disk := d'\<rparr>)" "disk_ok d'"
    "capacity d' = capacity (fs_disk s)" "contents d' 1 = overwrite (20 * k) bs (root s)"
    "\<And>y. y \<in> live s \<union> Y \<Longrightarrow> dnode d' y = dnode (fs_disk s) y"
    "\<And>y. y \<in> live s \<union> Y \<Longrightarrow> y \<noteq> 1 \<Longrightarrow> contents d' y = contents (fs_disk s) y"
    "layout d' (bits_of (free_map s)) (live s \<union> Y)"
proof -
  note w = root_writable [OF inv p]
  have fit: "20 * k + 20 \<le> file_len i"
    using slot_fits [OF k] w(4) by simp
  have len: "file_len i + 511 < 2 ^ 31"
    using inode_ok_len [of "fs_disk s" i] w(1) by (simp add: writable_def)
  have wr: "disk_ok (fs_disk s)" "get_inode p s = Some i" "inode_ok (fs_disk s) i" "deny_write_cnt i = 0"
    using w(1) by (simp_all add: writable_def)
  obtain n s' where n: "inode_write_at p bs (int 20) (int (20 * k)) s = Some (int n, s')" "writes_in (extent i) s s'"
    "mallocs s = [] \<longrightarrow> n = min (nat (int 20)) (file_len i - 20 * k)"
    "file_bytes (fs_disk s') i = overwrite (20 * k) (take n bs) (file_bytes (fs_disk s) i)"
    by (rule inode_write_at_overwrite [OF wr(1-3) _ _ _ wr(4), of "20 * k" "int 20" bs]) (use fit len bs in auto)
  have n20: "n = 20"
    using n(3) m fit by simp
  obtain d' where d': "s' = s\<lparr>fs_disk := d'\<rparr>" "disk_ok d'" "capacity d' = capacity (fs_disk s)"
    "\<And>n. n \<notin> extent (dnode (fs_disk s) 1) \<Longrightarrow> sectors d' n = sectors (fs_disk s) n"
    by (rule writes_in_disk [OF n(2) m wr(1)]) (simp add: w(3))
  have one: "1 \<in> live s \<union> Y"
    by simp
  note x = extent_write [OF fs_invD(7) [OF inv] one d'(3,4)]
  have "dnode d' 1 = dnode (fs_disk s) 1"
    using x(1) one by blast
  then have "contents d' 1 = file_bytes d' i"
    using same_data(3) [OF w(5), of d'] by (simp add: contents_def)
  then have "contents d' 1 = overwrite (20 * k) bs (root s)"
    using n(4) n20 bs w(2) d'(1) by simp
  then show ?thesis
    using that [of d'] n(1) n20 d' x by simp
qed

text \<open>The invariant when the root directory changes and the flags of the open inodes change with it.\<close>

lemma fs_inv_new_root:
  assumes inv: "fs_inv Z s" and d: "disk_ok d'" "capacity d' = capacity (fs_disk s)" "contents d' 1 = bs" "dir_ok bs"
    and same: "\<And>y. y \<in> live s \<union> Z \<Longrightarrow> dnode d' y = dnode (fs_disk s) y" and l: "layout d' (bits_of (free_map s)) (live s \<union> Z)"
    and s': "fs_disk s' = d'" "open_inodes s' = open_inodes s" "next_block s' = next_block s" "fs_files s' = fs_files s"
      "free_map s' = free_map s" "free_map_file s' = free_map_file s"
    and tab: "\<And>p. fs_inodes s' p = map_option (\<lambda>i. i\<lparr>removed := (2 \<le> i_sector i \<and> i_sector i \<notin> dir_sectors bs)\<rparr>) (fs_inodes s p)"
    and sub: "dir_sectors bs \<union> Y \<subseteq> live s \<union> Z"
  shows "fs_inv Y s'" "root s' = bs" "live s' = {0, 1} \<union> dir_sectors bs \<union> open_sectors s"
proof -
  show r: "root s' = bs"
    using d(3) s'(1) by (simp add: root_def ROOT_DIR_SECTOR_def)
  have sectors_of: "open_sectors t = {x. \<exists>p. map_option i_sector (fs_inodes t p) = Some x}" for t
    by (auto simp: open_sectors_def)
  have "map_option i_sector (fs_inodes s' p) = map_option i_sector (fs_inodes s p)" for p
    by (simp add: tab option.map_comp comp_def)
  then have os: "open_sectors s' = open_sectors s"
    unfolding sectors_of by presburger
  then show lv: "live s' = {0, 1} \<union> dir_sectors bs \<union> open_sectors s"
    by (simp add: live_def r FREE_MAP_SECTOR_def ROOT_DIR_SECTOR_def)
  then have "live s' \<union> Y \<subseteq> live s \<union> Z"
    using sub by (auto simp: live_def FREE_MAP_SECTOR_def ROOT_DIR_SECTOR_def)
  then have "layout d' (bits_of (free_map s)) (live s' \<union> Y)"
    by (rule layout_subset [OF l])
  moreover have "open_ok s' i" if pi: "fs_inodes s' p = Some i" for p i
  proof -
    obtain j where j: "fs_inodes s p = Some j" "i = j\<lparr>removed := (2 \<le> i_sector j \<and> i_sector j \<notin> dir_sectors bs)\<rparr>"
      using pi tab [of p] by (cases "fs_inodes s p") simp_all
    have "dnode d' (i_sector j) = dnode (fs_disk s) (i_sector j)"
      using same open_live [OF j(1)] by blast
    then show ?thesis
      using opens_okD(3) [OF fs_invD(5) [OF inv] j(1)] j(2) s'(1) by (auto simp: open_ok_def r split: if_splits)
  qed
  moreover have "p = q" if "fs_inodes s' p = Some i" "fs_inodes s' q = Some j" "i_sector i = i_sector j" for p q i j
    using that opens_okD(4) [OF fs_invD(5) [OF inv], of p _ q] tab [of p] tab [of q]
    by (cases "fs_inodes s p"; cases "fs_inodes s q") auto
  ultimately have "opens_ok s'"
    using fs_invD(5) [OF inv] s'(2,3) unfolding opens_ok_def by (simp add: tab)
  moreover have "map_file_ok s'"
    using fs_invD(6) [OF inv] by (rule map_file_ok_mono) (use s' d(2) same tab in simp_all)
  ultimately show "fs_inv Y s'"
    using fs_invD(2,3) [OF inv] d s' r \<open>layout d' (bits_of (free_map s)) (live s' \<union> Y)\<close> by (simp add: fs_inv_def)
qed

lemma dir_add_result:
  assumes inv: "fs_inv {x} s" and m: "mallocs s = []" and dir: "root_dir dp p i s" and e: "length e = 20"
    and name: "name \<noteq> []" "length name \<le> NAME_MAX" "0 \<notin> set name" "dir_map (root s) name = None"
    and slot: "find (\<lambda>j. \<not> in_use (entry_at (root s) j)) [0..<slots (root s)] = Some k" and x: "x \<notin> live s"
  obtains s' where "dir_add dp name x e s = Some (True, s')" "fs_inv {} s'" "mallocs s' = []"
    "dir_map (root s') = (dir_map (root s))(name \<mapsto> x)" "root_dir dp p i s'" "fs_dirs s' = fs_dirs s" "fs_inodes s' = fs_inodes s"
    "\<And>y. y \<in> live s \<union> {x} \<Longrightarrow> y \<noteq> 1 \<Longrightarrow> contents (fs_disk s') y = contents (fs_disk s) y" "next_block s' = next_block s"
proof -
  obtain d where d: "fs_dirs s dp = Some d" "dir_inode d = p" and p: "fs_inodes s p = Some i" "i_sector i = 1"
    using dir unfolding root_dir_def by blast
  have "dir_find (root s) name = None"
    using name(4) by (simp add: dir_map_def)
  then obtain s1 where s1: "lookup dp name e s = Some (None, s1)" "reads_only s s1"
    using lookup_result [OF inv m dir e, of name] by auto
  note r1 = fs_inv_read [OF inv s1(2) m]
  have dir1: "root_dir dp p i s1"
    using dir r1 by (simp add: root_dir_def)
  have slot1: "find (\<lambda>j. \<not> in_use (entry_at (root s1) j)) [0..<slots (root s1)] = Some k"
    using slot r1(3) by simp
  obtain e' s2 where s2: "free_slot_loop p 0 e s1 = Some (int (20 * k), e', s2)" "reads_only s1 s2" "length e' = 20"
    by (rule free_slot_result [OF r1(1,5) dir1 e slot1])
  note r2 = fs_inv_read [OF r1(1) s2(2) r1(5)]
  have R: "root s2 = root s" "live s2 = live s"
    using r1 r2 by simp_all
  have xcap: "x < 2 ^ 32" "2 \<le> x"
    using layoutD(1) [OF fs_invD(7) [OF inv], of x] fs_invD(8) [OF inv] x
    by (auto simp: live_def FREE_MAP_SECTOR_def ROOT_DIR_SECTOR_def)
  have nm: "length name \<le> 14"
    using name(2) by (simp add: NAME_MAX_def)
  note ne = new_entry_facts [OF s2(3) nm name(3) xcap(1)]
  have k: "k < slots (root s)" "\<not> in_use (entry_at (root s) k)"
    using slot by (auto simp: find_Some_iff)
  have p2: "fs_inodes s2 p = Some i"
    using p(1) r1(7) r2(7) by simp
  have k2: "k < slots (root s2)"
    using k(1) R(1) by simp
  obtain d' where w: "inode_write_at p (new_entry name x e') 20 (int (20 * k)) s2 = Some (20, s2\<lparr>fs_disk := d'\<rparr>)" "disk_ok d'"
    "capacity d' = capacity (fs_disk s2)" "contents d' 1 = overwrite (20 * k) (new_entry name x e') (root s2)"
    "\<And>y. y \<in> live s2 \<union> {x} \<Longrightarrow> dnode d' y = dnode (fs_disk s2) y"
    "\<And>y. y \<in> live s2 \<union> {x} \<Longrightarrow> y \<noteq> 1 \<Longrightarrow> contents d' y = contents (fs_disk s2) y"
    "layout d' (bits_of (free_map s2)) (live s2 \<union> {x})"
    by (rule root_write [OF r2(1,5) p2 p(2) ne(1) k2]) blast
  have xd: "x \<notin> dir_sectors (root s)"
    using x by (simp add: live_def)
  have R': "contents d' 1 = overwrite (20 * k) (new_entry name x e') (root s)"
    using w(4) R(1) by simp
  note add = dir_add_bytes [OF fs_invD(4) [OF inv] k ne name(4) xd xcap(2)]
  let ?s = "s2\<lparr>fs_disk := d'\<rparr>"
  have tab: "fs_inodes ?s q = map_option (\<lambda>i. i\<lparr>removed := (2 \<le> i_sector i \<and> i_sector i \<notin> insert x (dir_sectors (root s)))\<rparr>) (fs_inodes s2 q)" for q
  proof (cases "fs_inodes s2 q")
    case (Some j)
    have "i_sector j \<noteq> x"
      using open_live [OF Some] R(2) x by auto
    then have "j = j\<lparr>removed := (2 \<le> i_sector j \<and> i_sector j \<notin> insert x (dir_sectors (root s)))\<rparr>"
      using opens_okD(3) [OF fs_invD(5) [OF r2(1)] Some] R(1) by (cases j) (auto simp: open_ok_def split: if_splits)
    then show ?thesis
      using Some by simp
  qed simp
  have sub: "dir_sectors (overwrite (20 * k) (new_entry name x e') (root s)) \<union> {} \<subseteq> live s2 \<union> {x}"
    using R(2) unfolding add(2) by (auto simp: live_def)
  have inv': "fs_inv {} ?s" "root ?s = overwrite (20 * k) (new_entry name x e') (root s)"
    using fs_inv_new_root [OF r2(1) w(2,3) R' add(1) w(5,7), of ?s "{}"] tab sub unfolding add(2) by simp_all
  have "dir_add dp name x e s = Some (True, ?s)"
    using d name(1,2) s1(1) s2(1) w(1) by (simp add: dir_add_def get_dir_def new_entry_def)
  then show ?thesis
    using that [of ?s] inv' add(3) dir r1 r2 w(6) R by (simp add: root_dir_def)
qed

lemma dir_open_root_result:
  assumes inv: "fs_inv {} s" and m: "mallocs s = []"
    and room: "\<And>p i. fs_inodes s p = Some i \<Longrightarrow> i_sector i = 1 \<Longrightarrow> open_cnt i < 2 ^ 31 - 1"
  obtains dp p i s' where "dir_open_root s = Some (Some dp, s')" "fs_inv {} s'" "live s' = live s" "root s' = root s" "mallocs s' = []"
    "same_data_state s s'" "root_dir dp p i s'" "fs_inodes s' = (fs_inodes s)(p \<mapsto> i)" "fs_files s' = fs_files s"
    "next_block s \<le> next_block s'" "open_cnt i = (case fs_inodes s p of None \<Rightarrow> 1 | Some j \<Rightarrow> open_cnt j + 1)"
    "\<And>j. fs_inodes s p = Some j \<Longrightarrow> i = j\<lparr>open_cnt := open_cnt j + 1\<rparr>"
proof -
  have one: "(1::nat) < 2 \<or> 1 \<in> dir_sectors (root s)"
    by simp
  obtain p s1 i where o: "inode_open 1 s = Some (Some p, s1)" "fs_inv {} s1" "live s1 = live s" "root s1 = root s"
    "mallocs s1 = []" "same_data_state s s1" "fs_inodes s1 = (fs_inodes s)(p \<mapsto> i)" "i_sector i = 1"
    "fs_files s1 = fs_files s" "fs_dirs s1 = fs_dirs s" "free_map_file s1 = free_map_file s" "next_block s \<le> next_block s1"
    "case fs_inodes s p of None \<Rightarrow> i = new_inode (fs_disk s) 1 | Some j \<Rightarrow> i = j\<lparr>open_cnt := open_cnt j + 1\<rparr>"
    by (rule inode_open_result [OF inv m one room])
  define s2 where "s2 = s1\<lparr>fs_dirs := (fs_dirs s1)(next_block s1 \<mapsto> \<lparr>dir_inode = p, dir_pos = 0\<rparr>), fs_files := fs_files s1,
    next_block := next_block s1 + 1\<rparr>"
  have op: "dir_open_root s = Some (Some (next_block s1), s2)"
    using o(1,5) by (simp add: dir_open_root_def dir_open_def ROOT_DIR_SECTOR_def try_malloc_def s2_def)
  have inv2: "fs_inv {} s2" "live s2 = live s1" "root s2 = root s1"
    using fs_inv_blocks [OF o(2) _ _ s2_def] by simp_all
  show ?thesis
    by (rule that [OF op inv2(1), of p i])
      (use inv2 o in \<open>auto simp: s2_def same_data_state_def root_dir_def new_inode_def split: option.splits\<close>)
qed

lemma dir_close_result:
  assumes inv: "fs_inv {} s" and m: "mallocs s = []" and dir: "root_dir dp p i s"
  obtains s' where "dir_close (Some dp) s = Some s'" "fs_inv {} s'" "root s' = root s" "mallocs s' = []"
    "fs_disk s' = fs_disk s" "free_map s' = free_map s"
    "fs_inodes s' = (fs_inodes s)(p := (if open_cnt i = 1 then None else Some (i\<lparr>open_cnt := open_cnt i - 1\<rparr>)))"
    "fs_files s' = fs_files s" "fs_dirs s' = (fs_dirs s)(dp := None)" "next_block s' = next_block s"
proof -
  obtain d where d: "fs_dirs s dp = Some d" "dir_inode d = p" and p: "fs_inodes s p = Some i" "i_sector i = 1"
    using dir unfolding root_dir_def by blast
  have nr: "\<not> removed i" "i_sector i \<noteq> 0"
    using opens_okD(3) [OF fs_invD(5) [OF inv] p(1)] p(2) by (auto simp: open_ok_def)
  obtain s1 where s1: "inode_close (Some p) s = Some s1" "fs_inv {} s1" "root s1 = root s" "mallocs s1 = []"
    "fs_inodes s1 = (fs_inodes s)(p := (if open_cnt i = 1 then None else Some (i\<lparr>open_cnt := open_cnt i - 1\<rparr>)))"
    "fs_files s1 = fs_files s" "fs_dirs s1 = fs_dirs s" "next_block s1 = next_block s"
    "\<not> (open_cnt i = 1 \<and> removed i) \<Longrightarrow> fs_disk s1 = fs_disk s \<and> free_map s1 = free_map s"
    by (rule inode_close_result [OF inv m p(1) nr(2)]) auto
  define s2 where "s2 = s1\<lparr>fs_dirs := (fs_dirs s1)(dp := None), fs_files := fs_files s1, next_block := next_block s1\<rparr>"
  have "dir_close (Some dp) s = Some s2"
    using d s1(1) by (simp add: dir_close_def get_dir_def s2_def)
  moreover have "fs_inv {} s2" "root s2 = root s1"
    using fs_inv_blocks [OF s1(2) _ _ s2_def] by simp_all
  ultimately show ?thesis
    using that [of s2] s1 nr(1) by (simp add: s2_def)
qed

text \<open>What the file system means: a map from names to contents.\<close>

definition fs_abs :: "fsys \<Rightarrow> 8 word list \<rightharpoonup> 8 word list" where
  "fs_abs s name = map_option (contents (fs_disk s)) (dir_map (root s) name)"

lemma fs_abs_cong:
  assumes "dir_ok (root s)" "dir_map (root s') = dir_map (root s)"
    and "\<And>y. y \<in> dir_sectors (root s) \<Longrightarrow> 2 \<le> y \<Longrightarrow> contents (fs_disk s') y = contents (fs_disk s) y"
  shows "fs_abs s' = fs_abs s"
proof
  fix name
  show "fs_abs s' name = fs_abs s name"
    using assms(3) dir_map_sector [OF assms(1), of name] assms(2) by (cases "dir_map (root s) name") (auto simp: fs_abs_def)
qed

end
