(* ===== verification/Filesys.thy ===== *)
theory Filesys
  imports Filesys_Ops
begin

section \<open>Files by name (\<^verbatim>\<open>filesys/filesys.c\<close>)\<close>

text \<open>
  The operations of the file system as operations on a map from names to contents: creating, opening,
  reading, writing and removing files, and what a failed creation leaves behind.
\<close>

subsection \<open>Creating files\<close>

definition openers_ok :: "fsys \<Rightarrow> bool" where
  "openers_ok s \<longleftrightarrow> (\<forall>p i. fs_inodes s p = Some i \<longrightarrow> open_cnt i < 2 ^ 31 - 1)"

definition valid_name :: "8 word list \<Rightarrow> bool" where
  "valid_name name \<longleftrightarrow> name \<noteq> [] \<and> length name \<le> NAME_MAX \<and> 0 \<notin> set name"

definition has_space :: "bool list \<Rightarrow> nat \<Rightarrow> bool" where
  "has_space used n \<longleftrightarrow> (\<exists>x. scan_from used 0 1 False = Some x \<and> scan_from (set_range used x 1 True) 0 n False \<noteq> None)"

definition has_slot :: "8 word list \<Rightarrow> bool" where
  "has_slot bs \<longleftrightarrow> (\<exists>j < slots bs. \<not> in_use (entry_at bs j))"

lemma has_slot_find:
  assumes "has_slot bs"
  obtains k where "find (\<lambda>j. \<not> in_use (entry_at bs j)) [0..<slots bs] = Some k"
  using assms by (cases "find (\<lambda>j. \<not> in_use (entry_at bs j)) [0..<slots bs]") (auto simp: has_slot_def find_None_iff)

text \<open>Opening and closing the root directory leaves the table of open inodes as it was.\<close>

lemma reopened:
  assumes "T = (fs_inodes s)(p \<mapsto> i)" "open_cnt i = (case fs_inodes s p of None \<Rightarrow> 1 | Some j \<Rightarrow> open_cnt j + 1)"
    "\<And>j. fs_inodes s p = Some j \<Longrightarrow> i = j\<lparr>open_cnt := open_cnt j + 1\<rparr>" "fs_inv {} s"
    "T' = T(p := (if open_cnt i = 1 then None else Some (i\<lparr>open_cnt := open_cnt i - 1\<rparr>)))"
  shows "T' = fs_inodes s"
proof
  fix q
  show "T' q = fs_inodes s q"
  proof (cases "fs_inodes s p")
    case None
    then show ?thesis
      using assms(1,2,5) by simp
  next
    case (Some j)
    have "0 < open_cnt j"
      using opens_okD(3) [OF fs_invD(5) [OF assms(4)] Some] by (simp add: open_ok_def)
    then show ?thesis
      using assms(1,2,5) assms(3) [OF Some] Some by (cases j) simp
  qed
qed

text \<open>The part of \<^verbatim>\<open>filesys_create\<close> before the entry in the directory.\<close>

lemma create_inode_result:
  assumes inv: "fs_inv {} s" and m: "mallocs s = []" and op: "openers_ok s"
    and len: "0 \<le> len" "len + 511 < 2 ^ 31"
    and sp: "scan_from (bits_of (free_map s)) 0 1 False = Some x"
      "scan_from (set_range (bits_of (free_map s)) x 1 True) 0 (bytes_to_sectors len) False = Some k"
  obtains dp p i s1 s2 s3 where "dir_open_root s = Some (Some dp, s1)" "free_map_allocate 1 s1 = Some (Some x, s2)"
    "inode_create x len s2 = Some (True, s3)" "fs_inv {x} s3" "mallocs s3 = []" "root_dir dp p i s3" "root s3 = root s" "live s3 = live s"
    "x \<notin> live s3" "contents (fs_disk s3) x = replicate (nat len) 0"
    "\<And>y. y \<in> live s \<Longrightarrow> y \<noteq> 0 \<Longrightarrow> contents (fs_disk s3) y = contents (fs_disk s) y"
    "bits_of (free_map s3) = set_range (set_range (bits_of (free_map s)) x 1 True) k (bytes_to_sectors len) True"
    "fs_inodes s3 = (fs_inodes s)(p \<mapsto> i)" "open_cnt i = (case fs_inodes s p of None \<Rightarrow> 1 | Some j \<Rightarrow> open_cnt j + 1)"
    "\<And>j. fs_inodes s p = Some j \<Longrightarrow> i = j\<lparr>open_cnt := open_cnt j + 1\<rparr>"
proof -
  have room: "\<And>p i. fs_inodes s p = Some i \<Longrightarrow> i_sector i = 1 \<Longrightarrow> open_cnt i < 2 ^ 31 - 1"
    using op by (simp add: openers_ok_def)
  obtain dp p i s1 where s1: "dir_open_root s = Some (Some dp, s1)" "fs_inv {} s1" "live s1 = live s" "root s1 = root s" "mallocs s1 = []"
    "same_data_state s s1" "root_dir dp p i s1" "fs_inodes s1 = (fs_inodes s)(p \<mapsto> i)"
    "open_cnt i = (case fs_inodes s p of None \<Rightarrow> 1 | Some j \<Rightarrow> open_cnt j + 1)"
    "\<And>j. fs_inodes s p = Some j \<Longrightarrow> i = j\<lparr>open_cnt := open_cnt j + 1\<rparr>"
    by (rule dir_open_root_result [OF inv m room]) (assumption | rule that)+
  have same1: "contents (fs_disk s1) = contents (fs_disk s)" "blocks (fs_disk s1) = blocks (fs_disk s)"
      "free_map s1 = free_map s" "capacity (fs_disk s1) = capacity (fs_disk s)"
    using s1(6) same_contents unfolding same_data_state_def by blast+
  have x: "scan_from (bits_of (free_map s1)) 0 1 False = Some x"
      "scan_from (set_range (bits_of (free_map s1)) x 1 True) 0 (bytes_to_sectors len) False = Some k"
    using sp same1(3) by simp_all
  have xbit: "x < capacity (fs_disk s1)" "\<not> bits_of (free_map s1) ! x"
    using scan_from_Some(2) [OF x(1)] fs_invD(3) [OF s1(2)] by (auto simp: group_at_def)
  have xfree: "x \<notin> blocks (fs_disk s1) y" if "y \<in> live s1" for y
    using layoutD(4) [OF fs_invD(7) [OF s1(2)], of y x] that xbit(2) by auto
  have xlive: "x \<notin> live s1"
    using xfree [of x] by (auto simp: blocks_def)
  obtain d2 b2 where a: "free_map_allocate 1 s1 = Some (Some x, s1\<lparr>fs_disk := d2, free_map := b2\<rparr>)"
    "fs_inv {} (s1\<lparr>fs_disk := d2, free_map := b2\<rparr>)" "bits_of b2 = set_range (bits_of (free_map s1)) x 1 True"
    "capacity d2 = capacity (fs_disk s1)"
    "\<And>x. x \<in> live s1 \<union> {} \<Longrightarrow> dnode d2 x = dnode (fs_disk s1) x"
    "\<And>x. x \<in> live s1 \<union> {} \<Longrightarrow> x \<noteq> 0 \<Longrightarrow> contents d2 x = contents (fs_disk s1) x"
    by (rule free_map_allocate_result [OF s1(2,5) x(1)]) blast
  define s2 where "s2 = s1\<lparr>fs_disk := d2, free_map := b2\<rparr>"
  have r2: "root s2 = root s1"
    using a(6) [of 1] by (simp add: root_def ROOT_DIR_SECTOR_def s2_def)
  have l2: "live s2 = live s1"
    by (simp add: live_def r2 open_sectors_def) (simp add: s2_def)
  have pre2: "fs_inv {} s2" "mallocs s2 = []" "x < capacity (fs_disk s2)" "bits_of (free_map s2) ! x"
      "scan_from (bits_of (free_map s2)) 0 (bytes_to_sectors len) False = Some k"
    using a(2,3,4) s1(5) xbit(1) x(2) fs_invD(3) [OF s1(2)] by (simp_all add: s2_def nth_set_range)
  have free2: "x \<notin> blocks (fs_disk s2) y" if "y \<in> live s2 \<union> {}" for y
    using xfree [of y] a(5) [of y] that l2 by (simp add: blocks_def s2_def)
  obtain d3 b3 where c: "inode_create x len s2 = Some (True, s2\<lparr>fs_disk := d3, free_map := b3\<rparr>)"
    "fs_inv {x} (s2\<lparr>fs_disk := d3, free_map := b3\<rparr>)"
    "live (s2\<lparr>fs_disk := d3, free_map := b3\<rparr>) = live s2" "root (s2\<lparr>fs_disk := d3, free_map := b3\<rparr>) = root s2"
    "contents d3 x = replicate (nat len) 0" "bits_of b3 = set_range (bits_of (free_map s2)) k (bytes_to_sectors len) True"
    "\<And>y. y \<in> live s2 \<union> {} \<Longrightarrow> y \<noteq> 0 \<Longrightarrow> contents d3 y = contents (fs_disk s2) y"
    by (rule inode_create_result [OF pre2(1,2) len pre2(3,4) free2 pre2(5)]) (assumption | rule that)+
  define s3 where "s3 = s2\<lparr>fs_disk := d3, free_map := b3\<rparr>"
  note c' = c(2-4) [folded s3_def]
  have pre3: "mallocs s3 = []" "root_dir dp p i s3" "root s3 = root s" "live s3 = live s" "contents (fs_disk s3) x = replicate (nat len) 0"
    using pre2(2) s1(3,4,7) c' c(5) r2 l2 by (simp_all add: s3_def s2_def root_dir_def)
  have xl3: "x \<notin> live s3"
    using xlive s1(3) pre3(4) by simp
  have cont: "contents (fs_disk s3) y = contents (fs_disk s) y" if y: "y \<in> live s" "y \<noteq> 0" for y
  proof -
    have "contents (fs_disk s3) y = contents (fs_disk s2) y"
      using c(7) [of y] y l2 s1(3) by (simp add: s3_def)
    also have "\<dots> = contents (fs_disk s) y"
      using a(6) [of y] y s1(3) same1(1) by (simp add: s2_def)
    finally show ?thesis .
  qed
  show ?thesis
    by (rule that [OF s1(1) a(1) [folded s2_def] c(1) [folded s3_def] c'(1) pre3(1-4) xl3 pre3(5) cont])
      (use s1(8-10) c(6) a(3) same1(3) in \<open>simp_all add: s3_def s2_def\<close>)
qed

lemma filesys_create_result:
  assumes inv: "fs_inv {} s" and m: "mallocs s = []" and op: "openers_ok s" and e: "length e = 20"
    and name: "valid_name name" "fs_abs s name = None" and slot: "has_slot (root s)"
    and len: "0 \<le> len" "len + 511 < 2 ^ 31" and space: "has_space (bits_of (free_map s)) (bytes_to_sectors len)"
  shows "\<exists>s'. filesys_create name len e s = Some (True, s') \<and> fs_inv {} s' \<and> mallocs s' = []
    \<and> fs_abs s' = (fs_abs s)(name \<mapsto> replicate (nat len) 0) \<and> fs_inodes s' = fs_inodes s"
proof -
  obtain x k where x: "scan_from (bits_of (free_map s)) 0 1 False = Some x"
      "scan_from (set_range (bits_of (free_map s)) x 1 True) 0 (bytes_to_sectors len) False = Some k"
    using space unfolding has_space_def by auto
  obtain dp p i s1 s2 s3 where c: "dir_open_root s = Some (Some dp, s1)" "free_map_allocate 1 s1 = Some (Some x, s2)"
    "inode_create x len s2 = Some (True, s3)" "fs_inv {x} s3" "mallocs s3 = []" "root_dir dp p i s3" "root s3 = root s" "live s3 = live s"
    "x \<notin> live s3" "contents (fs_disk s3) x = replicate (nat len) 0"
    "\<And>y. y \<in> live s \<Longrightarrow> y \<noteq> 0 \<Longrightarrow> contents (fs_disk s3) y = contents (fs_disk s) y"
    "fs_inodes s3 = (fs_inodes s)(p \<mapsto> i)" "open_cnt i = (case fs_inodes s p of None \<Rightarrow> 1 | Some j \<Rightarrow> open_cnt j + 1)"
    "\<And>j. fs_inodes s p = Some j \<Longrightarrow> i = j\<lparr>open_cnt := open_cnt j + 1\<rparr>"
    by (rule create_inode_result [OF inv m op len x]) (assumption | rule that)+
  obtain k where k: "find (\<lambda>j. \<not> in_use (entry_at (root s3) j)) [0..<slots (root s3)] = Some k"
    using has_slot_find [OF slot] c(7) by metis
  have nm: "name \<noteq> []" "length name \<le> NAME_MAX" "0 \<notin> set name" "dir_map (root s3) name = None"
    using name c(7) by (simp_all add: valid_name_def fs_abs_def)
  obtain s4 where s4: "dir_add dp name x e s3 = Some (True, s4)" "fs_inv {} s4" "mallocs s4 = []"
    "dir_map (root s4) = (dir_map (root s3))(name \<mapsto> x)" "root_dir dp p i s4" "fs_inodes s4 = fs_inodes s3"
    "\<And>y. y \<in> live s3 \<union> {x} \<Longrightarrow> y \<noteq> 1 \<Longrightarrow> contents (fs_disk s4) y = contents (fs_disk s3) y"
    by (rule dir_add_result [OF c(4-6) e nm k c(9)]) blast
  obtain s5 where s5: "dir_close (Some dp) s4 = Some s5" "fs_inv {} s5" "root s5 = root s4" "mallocs s5 = []" "fs_disk s5 = fs_disk s4"
    "fs_inodes s5 = (fs_inodes s4)(p := (if open_cnt i = 1 then None else Some (i\<lparr>open_cnt := open_cnt i - 1\<rparr>)))"
    by (rule dir_close_result [OF s4(2,3,5)]) blast
  have run: "filesys_create name len e s = Some (True, s5)"
    using c(1-3) s4(1) s5(1) by (simp add: filesys_create_def)
  have old: "contents (fs_disk s5) y = contents (fs_disk s) y" if "y \<in> dir_sectors (root s)" "2 \<le> y" for y
  proof -
    have y: "y \<in> live s" "y \<noteq> 0" "y \<noteq> 1"
      using that by (auto simp: live_def)
    then show ?thesis
      using s4(7) [of y] c(8) c(11) [of y] s5(5) by simp
  qed
  have "x \<noteq> 1"
    using c(9) system_live(4) [of s3] by metis
  then have new: "contents (fs_disk s5) x = replicate (nat len) 0"
    using s4(7) [of x] c(10) s5(5) by simp
  have "fs_abs s5 = (fs_abs s)(name \<mapsto> replicate (nat len) 0)"
    using dir_map_sector [OF fs_invD(4) [OF inv]] s4(4) s5(3) c(7) old new
    by (intro ext) (auto simp: fs_abs_def map_option_case split: option.splits)
  moreover have "fs_inodes s5 = fs_inodes s"
  proof (rule reopened [OF c(12-14) inv])
    show "fs_inodes s5 = (fs_inodes s3)(p := (if open_cnt i = 1 then None else Some (i\<lparr>open_cnt := open_cnt i - 1\<rparr>)))"
      using s5(6) s4(6) by simp
  qed
  ultimately show ?thesis
    using run s5(2,4) by blast
qed

subsection \<open>Opening files by name\<close>

lemma lookup_named:
  assumes inv: "fs_inv {} s" and m: "mallocs s = []" and dir: "root_dir dp p i s" and e: "length e = 20"
    and x: "dir_map (root s) name = Some x"
  obtains j s' where "lookup dp name e s = Some (Some (entry_at (root s) j, 20 * j), s')" "reads_only s s'" "used_slot (root s) j"
    "entry_name (entry_at (root s) j) = name" "inode_sector (entry_at (root s) j) = x"
proof -
  obtain j where j: "dir_find (root s) name = Some j" "inode_sector (entry_at (root s) j) = x"
    using x by (auto simp: dir_map_def)
  note u = dir_find_Some [OF fs_invD(4) [OF inv], THEN iffD1, OF j(1)]
  show ?thesis
    using lookup_result [OF inv m dir e, of name] that j u by auto
qed

text \<open>Opening the root directory, finding a name in it and opening its inode.\<close>

lemma open_named:
  assumes inv: "fs_inv {} s" and m: "mallocs s = []" and op: "openers_ok s" and e: "length e = 20"
    and x: "dir_map (root s) name = Some x"
  obtains dp p i s1 j s2 q t s3 where "dir_open_root s = Some (Some dp, s1)"
    "lookup dp name e s1 = Some (Some (entry_at (root s) j, 20 * j), s2)" "used_slot (root s) j"
    "entry_name (entry_at (root s) j) = name" "inode_sector (entry_at (root s) j) = x"
    "inode_open x s2 = Some (Some q, s3)" "fs_inv {} s3" "live s3 = live s" "root s3 = root s" "mallocs s3 = []"
    "contents (fs_disk s3) = contents (fs_disk s)" "root_dir dp p i s3" "fs_inodes s3 q = Some t" "i_sector t = x" "p \<noteq> q"
    "deny_write_cnt t = 0 \<or> (\<exists>q t'. fs_inodes s q = Some t' \<and> i_sector t' = x \<and> deny_write_cnt t' \<noteq> 0)"
    "fs_dirs s1 dp \<noteq> None" "root_dir dp p i s1"
proof -
  have room: "\<And>p i. fs_inodes s p = Some i \<Longrightarrow> i_sector i = 1 \<Longrightarrow> open_cnt i < 2 ^ 31 - 1"
    using op by (simp add: openers_ok_def)
  obtain dp p i s1 where s1: "dir_open_root s = Some (Some dp, s1)" "fs_inv {} s1" "live s1 = live s" "root s1 = root s" "mallocs s1 = []"
    "same_data_state s s1" "root_dir dp p i s1" "fs_inodes s1 = (fs_inodes s)(p \<mapsto> i)"
    by (rule dir_open_root_result [OF inv m room])
  have x1: "dir_map (root s1) name = Some x"
    using x s1(4) by simp
  obtain j s2 where j: "lookup dp name e s1 = Some (Some (entry_at (root s1) j, 20 * j), s2)" "reads_only s1 s2" "used_slot (root s1) j"
    "entry_name (entry_at (root s1) j) = name" "inode_sector (entry_at (root s1) j) = x"
    by (rule lookup_named [OF s1(2,5,7) e x1])
  note r2 = fs_inv_read [OF s1(2) j(2) s1(5)]
  have xs: "x \<in> dir_sectors (root s)" "2 \<le> x"
    using dir_map_sector [OF fs_invD(4) [OF inv] x] by simp_all
  have i1: "i_sector i = 1"
    using s1(7) by (simp add: root_dir_def)
  have x2: "x < 2 \<or> x \<in> dir_sectors (root s2)"
    using xs(1) r2(3) s1(4) by simp
  have old: "fs_inodes s q = Some t" if "fs_inodes s2 q = Some t" "i_sector t = x" for q t
    using that xs(2) i1 unfolding r2(7) s1(8) by (auto split: if_splits)
  have room2: "open_cnt t < 2 ^ 31 - 1" if "fs_inodes s2 q = Some t" "i_sector t = x" for q t
    using op old [OF that] by (simp add: openers_ok_def)
  obtain q s3 t where o: "inode_open x s2 = Some (Some q, s3)" "fs_inv {} s3" "live s3 = live s2" "root s3 = root s2"
    "mallocs s3 = []" "same_data_state s2 s3" "fs_inodes s3 = (fs_inodes s2)(q \<mapsto> t)" "i_sector t = x"
    "fs_files s3 = fs_files s2" "fs_dirs s3 = fs_dirs s2" "free_map_file s3 = free_map_file s2" "next_block s2 \<le> next_block s3"
    "case fs_inodes s2 q of None \<Rightarrow> t = new_inode (fs_disk s2) x | Some j \<Rightarrow> t = j\<lparr>open_cnt := open_cnt j + 1\<rparr>"
    by (rule inode_open_result [OF r2(1,5) x2 room2])
  have pi: "fs_inodes s2 p = Some i"
    using r2(7) s1(8) by simp
  have pq: "p \<noteq> q"
    using o(8,13) pi i1 xs(2) by auto
  have dir3: "root_dir dp p i s3"
    using s1(7) r2(7,9) o(7,10) pq by (simp add: root_dir_def)
  have "contents (fs_disk s3) = contents (fs_disk s2)" "contents (fs_disk s1) = contents (fs_disk s)"
    using o(6) s1(6) same_contents unfolding same_data_state_def by blast+
  then have cont: "contents (fs_disk s3) = contents (fs_disk s)"
    using r2(4) by simp
  have deny: "deny_write_cnt t = 0 \<or> (\<exists>q t'. fs_inodes s q = Some t' \<and> i_sector t' = x \<and> deny_write_cnt t' \<noteq> 0)"
  proof (cases "fs_inodes s2 q")
    case None
    then show ?thesis
      using o(13) by (simp add: new_inode_def)
  next
    case (Some t')
    then have "t = t'\<lparr>open_cnt := open_cnt t' + 1\<rparr>"
      using o(13) by simp
    then show ?thesis
      using old [OF Some] o(8) by auto
  qed
  show ?thesis
    by (rule that [OF s1(1) j(1) [unfolded s1(4)] j(3-5) [unfolded s1(4)] o(1,2)])
      (use o r2 s1 cont dir3 pq deny in \<open>auto simp: root_dir_def\<close>)
qed

text \<open>A file that is open on a name, at a position.\<close>

definition open_at :: "fsys \<Rightarrow> nat \<Rightarrow> 8 word list \<Rightarrow> nat \<Rightarrow> bool" where
  "open_at s f name k \<longleftrightarrow> k < 2 ^ 31 \<and> (\<exists>fl i. fs_files s f = Some fl \<and> f_pos fl = int k
     \<and> fs_inodes s (f_inode fl) = Some i \<and> dir_map (root s) name = Some (i_sector i))"

definition writes_allowed :: "fsys \<Rightarrow> 8 word list \<Rightarrow> bool" where
  "writes_allowed s name \<longleftrightarrow> (\<forall>p i. fs_inodes s p = Some i \<longrightarrow> dir_map (root s) name = Some (i_sector i) \<longrightarrow> deny_write_cnt i = 0)"

lemma filesys_open_result:
  assumes inv: "fs_inv {} s" and m: "mallocs s = []" and op: "openers_ok s" and e: "length e = 20"
    and name: "fs_abs s name = Some c"
  shows "\<exists>f s'. filesys_open name e s = Some (Some f, s') \<and> fs_inv {} s' \<and> mallocs s' = [] \<and> fs_abs s' = fs_abs s
    \<and> open_at s' f name 0 \<and> (writes_allowed s name \<longrightarrow> writes_allowed s' name)"
proof -
  obtain x where x: "dir_map (root s) name = Some x"
    using name by (auto simp: fs_abs_def)
  obtain dp p i s1 j s2 q t s3 where o: "dir_open_root s = Some (Some dp, s1)"
    "lookup dp name e s1 = Some (Some (entry_at (root s) j, 20 * j), s2)"
    "inode_sector (entry_at (root s) j) = x" "inode_open x s2 = Some (Some q, s3)" "fs_inv {} s3" "root s3 = root s" "mallocs s3 = []"
    "contents (fs_disk s3) = contents (fs_disk s)" "root_dir dp p i s3" "fs_inodes s3 q = Some t" "i_sector t = x" "p \<noteq> q"
    "deny_write_cnt t = 0 \<or> (\<exists>q t'. fs_inodes s q = Some t' \<and> i_sector t' = x \<and> deny_write_cnt t' \<noteq> 0)"
    by (rule open_named [OF inv m op e x]) blast
  obtain s4 where s4: "dir_close (Some dp) s3 = Some s4" "fs_inv {} s4" "root s4 = root s3" "mallocs s4 = []" "fs_disk s4 = fs_disk s3"
    "fs_inodes s4 = (fs_inodes s3)(p := (if open_cnt i = 1 then None else Some (i\<lparr>open_cnt := open_cnt i - 1\<rparr>)))"
    by (rule dir_close_result [OF o(5,7,9)]) blast
  define f where "f = next_block s4"
  define s5 where "s5 = s4\<lparr>fs_dirs := fs_dirs s4, fs_files := (fs_files s4)(f \<mapsto> \<lparr>f_inode = q, f_pos = 0, f_deny_write = False\<rparr>),
    next_block := next_block s4 + 1\<rparr>"
  have run: "filesys_open name e s = Some (Some f, s5)"
    using o(1-4) s4(1,4) by (simp add: filesys_open_def dir_lookup_def file_open_def try_malloc_def put_file_def s5_def f_def)
  have inv5: "fs_inv {} s5" "root s5 = root s4"
    using fs_inv_blocks [OF s4(2) _ _ s5_def] by (simp_all add: f_def)
  have root5: "root s5 = root s" and disk5: "contents (fs_disk s5) = contents (fs_disk s)"
    using inv5(2) s4(3,5) o(6,8) by (simp_all add: s5_def)
  then have "fs_abs s5 = fs_abs s"
    by (intro ext) (simp add: fs_abs_def)
  moreover have q5: "fs_inodes s5 q = Some t"
    using o(10,12) s4(6) by (simp add: s5_def)
  then have "open_at s5 f name 0"
    using x o(11) root5 by (simp add: open_at_def s5_def)
  moreover have "writes_allowed s5 name" if "writes_allowed s name"
  proof -
    have "deny_write_cnt t = 0"
      using o(13) that x unfolding writes_allowed_def by auto
    moreover have "p' = q" if "fs_inodes s5 p' = Some i'" "i_sector i' = x" for p' i'
      using opens_okD(4) [OF fs_invD(5) [OF inv5(1)] that(1) q5] that(2) o(11) by simp
    ultimately show ?thesis
      using q5 x unfolding writes_allowed_def root5 by fastforce
  qed
  ultimately show ?thesis
    using run inv5(1) s4(4) by (intro exI [of _ f] exI [of _ s5]) (simp add: s5_def)
qed

subsection \<open>Reading and writing open files\<close>

lemma fs_inv_put_file:
  assumes inv: "fs_inv {} s" and f: "fs_files s f = Some fl" "fs_inodes s (f_inode fl) = Some i" "i_sector i \<noteq> 0"
    and s': "s' = s\<lparr>fs_files := (fs_files s)(f \<mapsto> g)\<rparr>"
  shows "fs_inv {} s'" "root s' = root s"
proof -
  show r: "root s' = root s"
    by (simp add: root_def s')
  have lv: "live s' = live s"
    by (simp add: live_def r open_sectors_def) (simp add: s')
  have "open_ok s' = open_ok s"
    by (simp add: open_ok_def fun_eq_iff r) (simp add: s')
  then have o: "opens_ok s'"
    using fs_invD(5) [OF inv] unfolding opens_ok_def by (simp add: s')
  obtain f0 fl0 i0 where m: "free_map_file s = Some f0" "f0 < next_block s" "fs_files s f0 = Some fl0" "fs_inodes s (f_inode fl0) = Some i0"
      "i_sector i0 = 0" "byte_cnt (capacity (fs_disk s)) \<le> file_len (dnode (fs_disk s) 0)"
    using fs_invD(6) [OF inv] unfolding map_file_ok_def FREE_MAP_SECTOR_def by blast
  have "f0 \<noteq> f"
    using m(3-5) f by auto
  then have "map_file_ok s'"
    unfolding map_file_ok_def FREE_MAP_SECTOR_def using m
    by (intro exI [of _ f0] exI [of _ fl0] exI [of _ i0]) (simp add: s')
  then show "fs_inv {} s'"
    using fs_invD [OF inv] o by (simp add: fs_inv_def lv r) (simp add: s')
qed

lemma open_atE:
  assumes "fs_inv {} s" "open_at s f name k" "fs_abs s name = Some c"
  obtains fl i where "fs_files s f = Some fl" "f_pos fl = int k" "fs_inodes s (f_inode fl) = Some i"
    "dir_map (root s) name = Some (i_sector i)" "2 \<le> i_sector i" "file_bytes (fs_disk s) i = c" "file_len i = length c"
    "disk_ok (fs_disk s)" "get_inode (f_inode fl) s = Some i" "inode_ok (fs_disk s) i" "k < 2 ^ 31" "file_len i + 511 < 2 ^ 31"
proof -
  obtain fl i where f: "fs_files s f = Some fl" "f_pos fl = int k" "fs_inodes s (f_inode fl) = Some i"
      "dir_map (root s) name = Some (i_sector i)" "k < 2 ^ 31"
    using assms(2) unfolding open_at_def by blast
  note w = open_writable [OF assms(1) f(3)]
  have c: "file_bytes (fs_disk s) i = c"
    using w(1) assms(3) f(4) by (simp add: fs_abs_def contents_def)
  have l: "file_len i = length c"
    using c length_file_bytes [of "fs_disk s" i] by simp
  have data: "i_data i = i_data (dnode (fs_disk s) (i_sector i))"
    using opens_okD(3) [OF fs_invD(5) [OF assms(1)] f(3)] by (simp add: open_ok_def)
  have ok: "inode_ok (fs_disk s) i"
    unfolding same_data(4) [OF data]
    using layoutD(2) [OF fs_invD(7) [OF assms(1)]] open_live [OF f(3)] by blast
  have two: "2 \<le> i_sector i"
    using dir_map_sector [OF fs_invD(4) [OF assms(1)] f(4)] by simp
  show ?thesis
    using that [OF f(1-4) two c l fs_invD(1) [OF assms(1)] _ ok f(5)] inode_ok_len [OF ok] f(3) by (simp add: get_inode_def)
qed

lemma file_read_result:
  assumes inv: "fs_inv {} s" and m: "mallocs s = []" and o: "open_at s f name k" and c: "fs_abs s name = Some c" and sz: "0 \<le> sz"
  shows "\<exists>s'. file_read f sz s = Some (slice k (nat sz) c, s') \<and> fs_inv {} s' \<and> mallocs s' = [] \<and> fs_abs s' = fs_abs s
    \<and> open_at s' f name (k + length (slice k (nat sz) c))"
proof -
  obtain fl i where f: "fs_files s f = Some fl" "f_pos fl = int k" "fs_inodes s (f_inode fl) = Some i"
    "dir_map (root s) name = Some (i_sector i)" "2 \<le> i_sector i" "file_bytes (fs_disk s) i = c" "file_len i = length c"
    "disk_ok (fs_disk s)" "get_inode (f_inode fl) s = Some i" "inode_ok (fs_disk s) i" "k < 2 ^ 31" "file_len i + 511 < 2 ^ 31"
    by (rule open_atE [OF inv o c])
  let ?bs = "slice k (nat sz) c"
  obtain n s1 where n: "inode_read_at (f_inode fl) sz (int k) s = Some (take n (slice k (nat sz) (file_bytes (fs_disk s) i)), s1)"
    "reads_only s s1" "mallocs s = [] \<longrightarrow> n = nat sz"
    by (rule inode_read_at_slice [OF f(8-11) sz])
  have rd: "inode_read_at (f_inode fl) sz (int k) s = Some (?bs, s1)"
    using n(1,3) m f(6) by (simp add: slice_def)
  note r = fs_inv_read [OF inv n(2) m]
  have pos: "k + length ?bs < 2 ^ 31"
    using f(7,11,12) by (auto simp: slice_def min_def)
  let ?fl = "fl\<lparr>f_pos := int (k + length ?bs)\<rparr>"
  define s2 where "s2 = s1\<lparr>fs_files := (fs_files s1)(f \<mapsto> ?fl)\<rparr>"
  have f1: "fs_files s1 f = Some fl" "fs_inodes s1 (f_inode fl) = Some i" "i_sector i \<noteq> 0"
    using f(1,3,5) r(7,8) by simp_all
  note inv2 = fs_inv_put_file [OF r(1) f1 s2_def]
  have "s32 (int k + int (length ?bs)) = int (k + length ?bs)"
    using pos by simp
  then have "file_read f sz s = Some (?bs, s2)"
    using f(1,2) rd r(8) by (simp add: file_read_def get_file_def put_file_def s2_def)
  moreover have "fs_abs s2 = fs_abs s"
    using inv2(2) r(3,4) by (intro ext) (simp add: fs_abs_def s2_def)
  moreover have "open_at s2 f name (k + length ?bs)"
    unfolding open_at_def using pos f1(2) f(4) inv2(2) r(3)
    by (intro conjI exI [of _ ?fl] exI [of _ i]) (simp_all add: s2_def)
  ultimately show ?thesis
    using inv2(1) r(5) by (intro exI [of _ s2]) (simp add: s2_def)
qed

lemma file_write_result:
  assumes inv: "fs_inv {} s" and m: "mallocs s = []" and o: "open_at s f name k" and c: "fs_abs s name = Some c"
    and sz: "0 \<le> sz" "nat sz \<le> length buffer" and wr: "writes_allowed s name"
  shows "\<exists>s'. file_write f buffer sz s = Some (int (min (nat sz) (length c - k)), s') \<and> fs_inv {} s' \<and> mallocs s' = []
    \<and> fs_abs s' = (fs_abs s)(name \<mapsto> overwrite k (take (min (nat sz) (length c - k)) buffer) c)
    \<and> open_at s' f name (k + min (nat sz) (length c - k))"
proof -
  obtain fl i where f: "fs_files s f = Some fl" "f_pos fl = int k" "fs_inodes s (f_inode fl) = Some i"
    "dir_map (root s) name = Some (i_sector i)" "2 \<le> i_sector i" "file_bytes (fs_disk s) i = c" "file_len i = length c"
    "disk_ok (fs_disk s)" "get_inode (f_inode fl) s = Some i" "inode_ok (fs_disk s) i" "k < 2 ^ 31" "file_len i + 511 < 2 ^ 31"
    by (rule open_atE [OF inv o c])
  let ?n = "min (nat sz) (length c - k)" and ?x = "i_sector i"
  have deny: "deny_write_cnt i = 0"
    using wr f(3,4) unfolding writes_allowed_def by blast
  obtain n s1 where n: "inode_write_at (f_inode fl) buffer sz (int k) s = Some (int n, s1)" "writes_in (extent i) s s1"
    "mallocs s = [] \<longrightarrow> n = min (nat sz) (file_len i - k)"
    "file_bytes (fs_disk s1) i = overwrite k (take n buffer) (file_bytes (fs_disk s) i)"
    by (rule inode_write_at_overwrite [OF f(8-11) sz deny])
  have n': "n = ?n"
    using n(3) m f(7) by simp
  note e = open_writable [OF inv f(3)]
  obtain d' where d': "s1 = s\<lparr>fs_disk := d'\<rparr>" "disk_ok d'" "capacity d' = capacity (fs_disk s)"
    "\<And>n. n \<notin> extent (dnode (fs_disk s) ?x) \<Longrightarrow> sectors d' n = sectors (fs_disk s) n"
    by (rule writes_in_disk [OF n(2) m f(8)]) (simp add: e(2))
  have xl: "?x \<in> live s \<union> {}" "?x \<noteq> 1"
    using open_live [OF f(3)] f(5) by simp_all
  have i1: "fs_inv {} s1" "root s1 = root s" "\<And>y. y \<in> live s \<union> {} \<Longrightarrow> y \<noteq> ?x \<Longrightarrow> contents d' y = contents (fs_disk s) y"
    using fs_inv_data [OF inv xl d'(2-4)] unfolding d'(1) [symmetric] by blast+
  have "dnode d' ?x = dnode (fs_disk s) ?x"
    using extent_write(1) [OF fs_invD(7) [OF inv] xl(1) d'(3,4)] xl(1) by blast
  then have cx: "contents d' ?x = overwrite k (take ?n buffer) c"
    using n(4) n' f(6) e(1) [of d'] d'(1) by (simp add: contents_def)
  have pos: "k + ?n < 2 ^ 31"
    using f(7,11,12) by (auto simp: min_def)
  let ?fl = "fl\<lparr>f_pos := int (k + ?n)\<rparr>"
  define s2 where "s2 = s1\<lparr>fs_files := (fs_files s1)(f \<mapsto> ?fl)\<rparr>"
  have f1: "fs_files s1 f = Some fl" "fs_inodes s1 (f_inode fl) = Some i" "i_sector i \<noteq> 0"
    using f(1,3,5) d'(1) by simp_all
  note inv2 = fs_inv_put_file [OF i1(1) f1 s2_def]
  have "s32 (int k + int ?n) = int (k + ?n)"
    using pos by simp
  then have "file_write f buffer sz s = Some (int ?n, s2)"
    using f(1,2) n(1) n' d'(1) by (simp add: file_write_def get_file_def put_file_def s2_def)
  moreover have "fs_abs s2 = (fs_abs s)(name \<mapsto> overwrite k (take ?n buffer) c)"
  proof
    fix nm
    show "fs_abs s2 nm = ((fs_abs s)(name \<mapsto> overwrite k (take ?n buffer) c)) nm"
    proof (cases "dir_map (root s) nm")
      case None
      then show ?thesis
        using inv2(2) i1(2) f(4) by (auto simp: fs_abs_def)
    next
      case (Some y)
      note D = fs_invD(4) [OF inv]
      have y: "y \<in> live s"
        using dir_map_sector [OF D Some] by (simp add: live_def)
      have "nm = name" if "y = ?x"
        using Some f(4) that D unfolding dir_map_Some [OF D] dir_ok_def by metis
      then show ?thesis
        using Some inv2(2) i1(2,3) f(4) cx y by (cases "y = ?x") (auto simp: fs_abs_def s2_def d'(1))
    qed
  qed
  moreover have "open_at s2 f name (k + ?n)"
    unfolding open_at_def using pos f1(2) f(4) inv2(2) i1(2)
    by (intro conjI exI [of _ ?fl] exI [of _ i]) (simp_all add: s2_def)
  ultimately show ?thesis
    using inv2(1) m d'(1) by (intro exI [of _ s2]) (simp add: s2_def)
qed

subsection \<open>Removing files\<close>

lemma erase_entry:
  assumes inv: "fs_inv {} s" and m: "mallocs s = []" and p: "fs_inodes s p = Some i" "i_sector i = 1"
    and q: "fs_inodes s q = Some t" "i_sector t = x" and j: "used_slot (root s) j" "inode_sector (entry_at (root s) j) = x"
  obtains d' s' where "inode_write_at p (set_in_use False (entry_at (root s) j)) 20 (int (20 * j)) s = Some (20, s\<lparr>fs_disk := d'\<rparr>)"
    "inode_remove q (s\<lparr>fs_disk := d'\<rparr>) = Some s'" "s' = put_inode q (t\<lparr>removed := True\<rparr>) (s\<lparr>fs_disk := d'\<rparr>)" "fs_inv {} s'"
    "dir_map (root s') = (dir_map (root s))(entry_name (entry_at (root s) j) := None)" "dir_ok (root s')"
    "\<And>y. y \<in> live s \<Longrightarrow> y \<noteq> 1 \<Longrightarrow> contents (fs_disk s') y = contents (fs_disk s) y"
proof -
  let ?e = "set_in_use False (entry_at (root s) j)"
  have jl: "j < slots (root s)"
    using j(1) by (simp add: used_slot_def)
  note er = erased_entry_facts [OF length_entry_at [OF jl]]
  obtain d' where w: "inode_write_at p ?e 20 (int (20 * j)) s = Some (20, s\<lparr>fs_disk := d'\<rparr>)" "disk_ok d'"
    "capacity d' = capacity (fs_disk s)" "contents d' 1 = overwrite (20 * j) ?e (root s)"
    "\<And>y. y \<in> live s \<union> {} \<Longrightarrow> dnode d' y = dnode (fs_disk s) y"
    "\<And>y. y \<in> live s \<union> {} \<Longrightarrow> y \<noteq> 1 \<Longrightarrow> contents d' y = contents (fs_disk s) y"
    "layout d' (bits_of (free_map s)) (live s \<union> {})"
    by (rule root_write [OF inv m p er(1) jl]) blast
  note D = fs_invD(4) [OF inv]
  note ob = dir_erase_bytes [OF D j(1) er]
  define s' where "s' = put_inode q (t\<lparr>removed := True\<rparr>) (s\<lparr>fs_disk := d'\<rparr>)"
  have rm: "inode_remove q (s\<lparr>fs_disk := d'\<rparr>) = Some s'"
    using q(1) by (simp add: inode_remove_def get_inode_def s'_def)
  have x2: "2 \<le> x"
    using D j unfolding dir_ok_def by blast
  have tab: "fs_inodes s' r = map_option (\<lambda>i. i\<lparr>removed := (2 \<le> i_sector i \<and> i_sector i \<notin> dir_sectors (root s) - {x})\<rparr>) (fs_inodes s r)" for r
  proof (cases "r = q")
    case True
    then show ?thesis
      using q x2 by (simp add: s'_def put_inode_def)
  next
    case False
    show ?thesis
    proof (cases "fs_inodes s r")
      case None
      then show ?thesis
        using False by (simp add: s'_def put_inode_def)
    next
      case (Some v)
      have "i_sector v \<noteq> x"
        using opens_okD(4) [OF fs_invD(5) [OF inv] Some q(1)] q(2) False by auto
      then have "v = v\<lparr>removed := (2 \<le> i_sector v \<and> i_sector v \<notin> dir_sectors (root s) - {x})\<rparr>"
        using opens_okD(3) [OF fs_invD(5) [OF inv] Some] by (cases v) (auto simp: open_ok_def split: if_splits)
      then show ?thesis
        using Some False by (simp add: s'_def put_inode_def)
    qed
  qed
  have ds: "dir_sectors (overwrite (20 * j) ?e (root s)) = dir_sectors (root s) - {x}"
    using ob(2) j(2) by simp
  have sub: "dir_sectors (overwrite (20 * j) ?e (root s)) \<union> {} \<subseteq> live s \<union> {}"
    unfolding ds by (auto simp: live_def)
  have inv': "fs_inv {} s'" "root s' = overwrite (20 * j) ?e (root s)"
    using fs_inv_new_root [OF inv w(2-4) ob(1) w(5,7), of s' "{}"] tab sub unfolding ds by (simp_all add: s'_def put_inode_def)
  show ?thesis
    by (rule that [OF w(1) rm s'_def inv'(1)]) (use inv'(2) ob w(6) in \<open>simp_all add: s'_def put_inode_def\<close>)
qed

lemma filesys_remove_result:
  assumes inv: "fs_inv {} s" and m: "mallocs s = []" and op: "openers_ok s" and e: "length e = 20"
    and name: "fs_abs s name \<noteq> None"
  shows "\<exists>s'. filesys_remove name e s = Some (True, s') \<and> fs_inv {} s' \<and> mallocs s' = [] \<and> fs_abs s' = (fs_abs s)(name := None)"
proof -
  obtain x where x: "dir_map (root s) name = Some x"
    using name by (auto simp: fs_abs_def)
  obtain dp p i s1 j s2 q t s3 where o: "dir_open_root s = Some (Some dp, s1)"
    "lookup dp name e s1 = Some (Some (entry_at (root s) j, 20 * j), s2)" "used_slot (root s) j"
    "entry_name (entry_at (root s) j) = name" "inode_sector (entry_at (root s) j) = x"
    "inode_open x s2 = Some (Some q, s3)" "fs_inv {} s3" "live s3 = live s" "root s3 = root s" "mallocs s3 = []"
    "contents (fs_disk s3) = contents (fs_disk s)" "root_dir dp p i s3" "fs_inodes s3 q = Some t" "i_sector t = x" "p \<noteq> q"
    "root_dir dp p i s1"
    by (rule open_named [OF inv m op e x]) blast
  have p: "fs_inodes s3 p = Some i" "i_sector i = 1"
    using o(12) by (simp_all add: root_dir_def)
  have j: "used_slot (root s3) j" "inode_sector (entry_at (root s3) j) = x"
    using o(3,5,9) by simp_all
  obtain d' s4 where w: "inode_write_at p (set_in_use False (entry_at (root s3) j)) 20 (int (20 * j)) s3 = Some (20, s3\<lparr>fs_disk := d'\<rparr>)"
    "inode_remove q (s3\<lparr>fs_disk := d'\<rparr>) = Some s4" "s4 = put_inode q (t\<lparr>removed := True\<rparr>) (s3\<lparr>fs_disk := d'\<rparr>)" "fs_inv {} s4"
    "dir_map (root s4) = (dir_map (root s3))(entry_name (entry_at (root s3) j) := None)" "dir_ok (root s4)"
    "\<And>y. y \<in> live s3 \<Longrightarrow> y \<noteq> 1 \<Longrightarrow> contents (fs_disk s4) y = contents (fs_disk s3) y"
    by (rule erase_entry [OF o(7,10) p o(13,14) j]) (assumption | rule that)+
  have s4: "mallocs s4 = []" "fs_inodes s4 q = Some (t\<lparr>removed := True\<rparr>)" "fs_inodes s4 p = Some i" "fs_dirs s4 = fs_dirs s3"
    using w(3) o(10,15) p(1) by (simp_all add: put_inode_def)
  have x2: "2 \<le> x"
    using dir_map_sector [OF fs_invD(4) [OF inv] x] by simp
  have xt: "i_sector (t\<lparr>removed := True\<rparr>) \<noteq> 0" "i_sector (t\<lparr>removed := True\<rparr>) \<notin> {}"
    using o(14) x2 by simp_all
  obtain s5 where s5: "inode_close (Some q) s4 = Some s5" "fs_inv {} s5" "root s5 = root s4" "mallocs s5 = []"
    "\<And>y. y \<in> live s5 \<union> {} \<Longrightarrow> y \<noteq> 0 \<Longrightarrow> contents (fs_disk s5) y = contents (fs_disk s4) y"
    "fs_inodes s5 = (fs_inodes s4)(q := (if open_cnt (t\<lparr>removed := True\<rparr>) = 1 then None
       else Some ((t\<lparr>removed := True\<rparr>)\<lparr>open_cnt := open_cnt (t\<lparr>removed := True\<rparr>) - 1\<rparr>)))"
    "fs_dirs s5 = fs_dirs s4"
    by (rule inode_close_result [OF w(4) s4(1,2) xt]) blast
  have dir5: "root_dir dp p i s5"
    using o(12,15) s4(3,4) s5(6,7) by (simp add: root_dir_def)
  obtain s6 where s6: "dir_close (Some dp) s5 = Some s6" "fs_inv {} s6" "root s6 = root s5" "mallocs s6 = []" "fs_disk s6 = fs_disk s5"
    by (rule dir_close_result [OF s5(2,4) dir5]) blast
  have "20 * j + 20 \<le> length (root s)"
    using slot_fits [of j "root s"] o(3) by (simp add: used_slot_def)
  moreover have "length (root s) + 511 < 2 ^ 31"
    using root_writable(1,4) [OF o(7) p] inode_ok_len [of "fs_disk s3" i] o(9) by (simp add: writable_def)
  ultimately have "s32 (int (20 * j)) = int (20 * j)"
    by (intro s32_id) simp_all
  moreover obtain d where "fs_dirs s1 dp = Some d" "dir_inode d = p"
    using o(16) by (auto simp: root_dir_def)
  ultimately have run: "filesys_remove name e s = Some (True, s6)"
    using o(1,2,5,6,9) w(1,2) s5(1) s6(1) by (simp add: filesys_remove_def dir_remove_def get_dir_def)
  have dm: "dir_map (root s6) = (dir_map (root s))(name := None)"
    using w(5) s5(3) s6(3) o(4,9) by simp
  have cont: "contents (fs_disk s6) y = contents (fs_disk s) y" if "dir_map (root s6) nm = Some y" for nm y
  proof -
    have y6: "y \<in> dir_sectors (root s6)" "2 \<le> y"
      using dir_map_sector [OF fs_invD(4) [OF s6(2)] that] by simp_all
    have "dir_map (root s) nm = Some y"
      using that dm by (auto split: if_splits)
    then have y: "y \<in> live s3" "y \<in> live s5"
      using dir_map_sector [OF fs_invD(4) [OF inv]] o(9) s6(3) y6(1) by (auto simp: live_def)
    then show ?thesis
      using s5(5) [of y] w(7) [of y] y6(2) s6(5) o(11) by simp
  qed
  have "fs_abs s6 nm = ((fs_abs s)(name := None)) nm" for nm
    using cont [of nm] dm by (cases "dir_map (root s) nm") (auto simp: fs_abs_def)
  then have "fs_abs s6 = (fs_abs s)(name := None)"
    by blast
  then show ?thesis
    using run s6(2,4) by blast
qed

subsection \<open>A file that cannot be entered\<close>

lemma filesys_create_existing:
  assumes inv: "fs_inv {} s" and m: "mallocs s = []" and op: "openers_ok s" and e: "length e = 20"
    and name: "valid_name name" "fs_abs s name \<noteq> None" and len: "0 \<le> len" "len + 511 < 2 ^ 31"
    and x: "scan_from (bits_of (free_map s)) 0 1 False = Some x"
      "scan_from (set_range (bits_of (free_map s)) x 1 True) 0 (bytes_to_sectors len) False = Some k"
  shows "\<exists>s'. filesys_create name len e s = Some (False, s') \<and> fs_inv {} s' \<and> fs_abs s' = fs_abs s
    \<and> bits_of (free_map s') = set_range (bits_of (free_map s)) k (bytes_to_sectors len) True"
proof -
  let ?n = "bytes_to_sectors len" and ?used = "bits_of (free_map s)"
  obtain dp p i s1 s2 s3 where c: "dir_open_root s = Some (Some dp, s1)" "free_map_allocate 1 s1 = Some (Some x, s2)"
    "inode_create x len s2 = Some (True, s3)" "fs_inv {x} s3" "mallocs s3 = []" "root_dir dp p i s3" "root s3 = root s" "live s3 = live s"
    "x \<notin> live s3" "\<And>y. y \<in> live s \<Longrightarrow> y \<noteq> 0 \<Longrightarrow> contents (fs_disk s3) y = contents (fs_disk s) y"
    "bits_of (free_map s3) = set_range (set_range ?used x 1 True) k ?n True"
    by (rule create_inode_result [OF inv m op len x]) (assumption | rule that)+
  obtain j s4 where j: "lookup dp name e s3 = Some (Some j, s4)" "reads_only s3 s4"
  proof -
    obtain j where "dir_find (root s3) name = Some j"
      using name(2) c(7) by (auto simp: fs_abs_def dir_map_def)
    then show ?thesis
      using lookup_result [OF c(4-6) e, of name] that by auto
  qed
  obtain d where "fs_dirs s3 dp = Some d"
    using c(6) by (auto simp: root_dir_def)
  then have add: "dir_add dp name x e s3 = Some (False, s4)"
    using name(1) j(1) by (simp add: dir_add_def get_dir_def valid_name_def)
  note r = fs_inv_read [OF c(4) j(2) c(5)]
  have inv4: "fs_inv {} s4"
    by (rule fs_inv_subset [OF r(1)]) simp
  note F = fs_invD [OF inv4] and L = fs_invD(7) [OF r(1)]
  have same4: "free_map s4 = free_map s3"
    using r(6) by (simp add: same_data_state_def)
  have g: "group_at (bits_of (free_map s4)) 1 x True"
    by (rule blocks_group(1) [OF L]) simp
  have xn: "x + 1 \<le> bit_cnt (free_map s4)"
    using g by (simp add: group_at_def)
  have free: "blocks (fs_disk s4) y \<inter> {x..<x + 1} = {}" if "y \<in> live s4 \<union> {}" for y
  proof -
    have "y \<noteq> x"
      using that r(2) c(9) by auto
    then show ?thesis
      using layoutD(5) [OF L, of y x] that by (auto simp: blocks_def)
  qed
  obtain d' b' where rel: "free_map_release x 1 s4 = Some (s4\<lparr>fs_disk := d', free_map := b'\<rparr>)"
    "wf_bitmap b'" "bit_cnt b' = bit_cnt (free_map s4)" "bits_of b' = set_range (bits_of (free_map s4)) x 1 False"
    "disk_ok d'" "capacity d' = capacity (fs_disk s4)"
    "\<And>n. n \<notin> extent (dnode (fs_disk s4) 0) \<Longrightarrow> sectors d' n = sectors (fs_disk s4) n"
    by (rule free_map_release_raw [OF fs_inv_map_writable(1) [OF inv4 no_inode [OF inv4]] r(5) F(2,3) g]) (assumption | rule that)+
  define s5 where "s5 = s4\<lparr>fs_disk := d', free_map := b'\<rparr>"
  have inv5: "fs_inv {} s5" "root s5 = root s4" "\<And>y. y \<in> live s4 \<union> {} \<Longrightarrow> y \<noteq> 0 \<Longrightarrow> contents d' y = contents (fs_disk s4) y"
    using fs_inv_release [OF inv4 xn rel(2-7) free] unfolding s5_def by blast+
  have dir5: "root_dir dp p i s5" "mallocs s5 = []"
    using c(6) r(5,7,9) by (simp_all add: root_dir_def s5_def)
  obtain s6 where s6: "dir_close (Some dp) s5 = Some s6" "fs_inv {} s6" "root s6 = root s5" "fs_disk s6 = fs_disk s5" "free_map s6 = free_map s5"
    by (rule dir_close_result [OF inv5(1) dir5(2,1)]) blast
  have "x \<noteq> 0"
    using c(9) system_live(3) [of s3] by metis
  then have run: "filesys_create name len e s = Some (False, s6)"
    using c(1-3) add rel(1) s6(1) by (simp add: filesys_create_def s5_def)
  have "fs_abs s6 = fs_abs s"
  proof (rule fs_abs_cong [OF fs_invD(4) [OF inv]])
    show "dir_map (root s6) = dir_map (root s)"
      using s6(3) inv5(2) r(3) c(7) by simp
    fix y assume "y \<in> dir_sectors (root s)" "2 \<le> y"
    then have "y \<in> live s" "y \<noteq> 0"
      by (simp_all add: live_def)
    then show "contents (fs_disk s6) y = contents (fs_disk s) y"
      using inv5(3) [of y] r(2,4) c(8) c(10) [of y] s6(4) by (simp add: s5_def)
  qed
  moreover have "bits_of (free_map s6) = set_range ?used k ?n True"
  proof -
    have gx: "group_at ?used 1 x False" and gk: "group_at (set_range ?used x 1 True) ?n k False"
      using scan_from_Some(2) [OF x(1)] scan_from_Some(2) [OF x(2)] by simp_all
    have lx: "x + 1 \<le> length ?used" "\<not> ?used ! x"
      using gx by (simp_all add: group_at_def)
    have lk: "k + ?n \<le> length ?used"
      using gk lx(1) by (simp add: group_at_def)
    have "\<not> (k \<le> x \<and> x < k + ?n)"
    proof
      assume kx: "k \<le> x \<and> x < k + ?n"
      then have "\<not> set_range ?used x 1 True ! (k + (x - k))"
        using gk unfolding group_at_def by (metis less_diff_conv2 add.commute)
      then show False
        using kx lx by (simp add: nth_set_range)
    qed
    then show ?thesis
      using lx lk unfolding s6(5) s5_def
      by (intro nth_equalityI) (auto simp: rel(4) same4 c(11) nth_set_range le_less_Suc_eq)
  qed
  ultimately show ?thesis
    using run s6(2) by blast
qed

subsection \<open>A small file system\<close>

definition demo_sectors :: "nat \<Rightarrow> 8 word list" where
  "demo_sectors n =
     (if n = 0 then inode_disk_bytes \<lparr>d_start = 2, d_length = 8, d_magic = INODE_MAGIC\<rparr>
      else if n = 1 then inode_disk_bytes \<lparr>d_start = 3, d_length = 40, d_magic = INODE_MAGIC\<rparr>
      else if n = 3 then new_entry [97] 4 (replicate 20 0) @ replicate 492 0
      else if n = 4 then inode_disk_bytes \<lparr>d_start = 5, d_length = 3, d_magic = INODE_MAGIC\<rparr>
      else replicate 512 7)"

definition demo_fsys :: fsys where
  "demo_fsys = \<lparr>fs_disk = \<lparr>sectors = demo_sectors, capacity = 8, read_cnt = 0, write_cnt = 0\<rparr>,
     fs_inodes = [1 \<mapsto> \<lparr>i_sector = 0, open_cnt = 1, removed = False, deny_write_cnt = 0,
       i_data = \<lparr>d_start = 2, d_length = 8, d_magic = INODE_MAGIC\<rparr>\<rparr>],
     open_inodes = [1], next_block = 3, mallocs = [], fs_files = [2 \<mapsto> \<lparr>f_inode = 1, f_pos = 0, f_deny_write = False\<rparr>],
     fs_dirs = Map.empty, free_map = \<lparr>bit_cnt = 8, bits = [63]\<rparr>, free_map_file = Some 2\<rparr>"

lemma demo_nodes:
  "i_data (dnode (fs_disk demo_fsys) 0) = \<lparr>d_start = 2, d_length = 8, d_magic = INODE_MAGIC\<rparr>"
  "i_data (dnode (fs_disk demo_fsys) (Suc 0)) = \<lparr>d_start = 3, d_length = 40, d_magic = INODE_MAGIC\<rparr>"
  "i_data (dnode (fs_disk demo_fsys) 4) = \<lparr>d_start = 5, d_length = 3, d_magic = INODE_MAGIC\<rparr>"
  by (simp_all add: dnode_def demo_fsys_def demo_sectors_def inode_disk_roundtrip(1))

lemma one_sector: "bytes_to_sectors 8 = 1" "bytes_to_sectors 40 = 1" "bytes_to_sectors 3 = 1" "bytes_to_sectors 100 = 1"
  using bytes_to_sectors_eq [of 8] bytes_to_sectors_eq [of 40] bytes_to_sectors_eq [of 3] bytes_to_sectors_eq [of 100] by simp_all

lemma demo_extents:
  "extent (dnode (fs_disk demo_fsys) 0) = {2}" "extent (dnode (fs_disk demo_fsys) (Suc 0)) = {3}"
  "extent (dnode (fs_disk demo_fsys) 4) = {5}"
  using one_sector by (auto simp: extent_def inode_length_def demo_nodes)

lemma small_file:
  assumes "i_data (dnode d x) = \<lparr>d_start = st, d_length = int n, d_magic = mg\<rparr>" "n \<le> 512" "length (sectors d st) = 512"
  shows "contents d x = take n (sectors d st)"
  using assms by (intro nth_equalityI) (auto simp: contents_def file_bytes_def byte_at_def file_len_def inode_length_def)

lemma demo_entry: "length (new_entry [97] 4 (replicate 20 0)) = 20" "in_use (new_entry [97] 4 (replicate 20 0))"
  "entry_name (new_entry [97] 4 (replicate 20 0)) = [97]" "inode_sector (new_entry [97] 4 (replicate 20 0)) = 4"
  using new_entry_facts [of "replicate 20 0" "[97]" 4] by simp_all

lemma demo_root: "root demo_fsys = new_entry [97] 4 (replicate 20 0) @ replicate 20 0"
proof -
  have "root demo_fsys = take 40 (sectors (fs_disk demo_fsys) 3)"
    unfolding root_def ROOT_DIR_SECTOR_def
    by (rule small_file) (use demo_nodes(2) demo_entry(1) in \<open>simp_all add: demo_fsys_def demo_sectors_def\<close>)
  then show ?thesis
    using demo_entry(1) by (simp add: demo_fsys_def demo_sectors_def)
qed

lemma demo_slots: "slots (root demo_fsys) = 2" "entry_at (root demo_fsys) 0 = new_entry [97] 4 (replicate 20 0)"
  "entry_at (root demo_fsys) (Suc 0) = replicate 20 0"
  using demo_entry(1) by (simp_all add: slots_def entry_at_def slice_def demo_root)

lemma demo_used: "used_slot (root demo_fsys) j \<longleftrightarrow> j = 0"
proof -
  have "\<not> in_use (replicate 20 0)"
    by (simp add: in_use_def)
  moreover have "j < 2 \<longleftrightarrow> j = 0 \<or> j = Suc 0"
    by auto
  ultimately show ?thesis
    using demo_entry(2) demo_slots by (auto simp: used_slot_def)
qed

lemma demo_dir: "dir_ok (root demo_fsys)" "dir_sectors (root demo_fsys) = {4}" "open_sectors demo_fsys = {0}"
proof -
  show "dir_ok (root demo_fsys)" "dir_sectors (root demo_fsys) = {4}"
    using demo_entry by (simp_all add: dir_ok_def dir_sectors_def demo_used demo_slots)
  have "fs_inodes demo_fsys = [1 \<mapsto> \<lparr>i_sector = 0, open_cnt = 1, removed = False, deny_write_cnt = 0,
       i_data = \<lparr>d_start = 2, d_length = 8, d_magic = INODE_MAGIC\<rparr>\<rparr>]"
    by (simp add: demo_fsys_def)
  then show "open_sectors demo_fsys = {0}"
    by (auto simp: open_sectors_def split: if_splits)
qed

lemma demo_bits_used: "bits_of (free_map demo_fsys) = [True, True, True, True, True, True, False, False]"
  by (simp add: bits_of_def demo_fsys_def upt_rec bit_numeral_rec)

lemma demo_live: "live demo_fsys \<union> {} = {0, Suc 0, 4}"
  using demo_dir by (auto simp: live_def FREE_MAP_SECTOR_def ROOT_DIR_SECTOR_def)

lemma demo_layout: "layout (fs_disk demo_fsys) (bits_of (free_map demo_fsys)) (live demo_fsys \<union> {})"
  unfolding demo_live layout_def blocks_def demo_bits_used
  using one_sector by (simp add: demo_extents inode_ok_def inode_length_def demo_nodes) (simp add: demo_fsys_def)

lemma demo_disk_ok: "disk_ok (fs_disk demo_fsys)"
  using demo_entry(1) by (simp add: disk_ok_def demo_fsys_def demo_sectors_def inode_disk_roundtrip(2))

lemma demo_inv: "fs_inv {} demo_fsys"
proof -
  have d0: "dnode (fs_disk demo_fsys) 0 = \<lparr>i_sector = 0, open_cnt = 0, removed = False, deny_write_cnt = 0,
       i_data = \<lparr>d_start = 2, d_length = 8, d_magic = INODE_MAGIC\<rparr>\<rparr>"
    using demo_nodes(1) by (simp add: dnode_def)
  have "open_ok demo_fsys \<lparr>i_sector = 0, open_cnt = 1, removed = False, deny_write_cnt = 0,
       i_data = \<lparr>d_start = 2, d_length = 8, d_magic = INODE_MAGIC\<rparr>\<rparr>"
    using demo_nodes(1) by (simp add: open_ok_def)
  then have "opens_ok demo_fsys"
    by (simp add: opens_ok_def) (simp add: demo_fsys_def)
  moreover have "byte_cnt 8 = 8"
    using byte_cnt_eq(2) [of 8] by simp
  then have "map_file_ok demo_fsys"
    unfolding map_file_ok_def FREE_MAP_SECTOR_def d0
    by (simp add: demo_fsys_def file_len_def inode_length_def)
  moreover have "wf_bitmap (free_map demo_fsys)" "bit_cnt (free_map demo_fsys) = capacity (fs_disk demo_fsys)"
    by (simp_all add: wf_bitmap_def demo_fsys_def BITMAP_ERROR_def SIZE_MAX_def)
  ultimately show ?thesis
    using demo_disk_ok demo_dir(1) demo_layout by (simp add: fs_inv_def)
qed

lemma demo_facts: "mallocs demo_fsys = []" "openers_ok demo_fsys" "has_slot (root demo_fsys)"
  "dir_map (root demo_fsys) name = (if name = [97] then Some 4 else None)" "fs_abs demo_fsys [97] = Some [7, 7, 7]" "fs_abs demo_fsys [98] = None"
proof -
  show "mallocs demo_fsys = []" "openers_ok demo_fsys"
    by (simp_all add: demo_fsys_def openers_ok_def)
  have "\<not> in_use (replicate 20 0)"
    by (simp add: in_use_def)
  then show "has_slot (root demo_fsys)"
    unfolding has_slot_def by (intro exI [of _ "Suc 0"]) (simp add: demo_slots)
  show map: "dir_map (root demo_fsys) name = (if name = [97] then Some 4 else None)" for name
    using demo_entry by (simp add: dir_map_Some [OF demo_dir(1)] dir_map_None demo_used demo_slots)
  have "contents (fs_disk demo_fsys) 4 = take 3 (sectors (fs_disk demo_fsys) 5)"
    by (rule small_file) (use demo_nodes(3) in \<open>simp_all add: demo_fsys_def demo_sectors_def\<close>)
  then have "contents (fs_disk demo_fsys) 4 = [7, 7, 7]"
    by (simp add: demo_fsys_def demo_sectors_def numeral_3_eq_3)
  then show "fs_abs demo_fsys [97] = Some [7, 7, 7]" "fs_abs demo_fsys [98] = None"
    by (simp_all add: fs_abs_def map)
qed

lemma demo_fs_scan: "scan_from (bits_of (free_map demo_fsys)) 0 1 False = Some 6"
  "scan_from (set_range (bits_of (free_map demo_fsys)) 6 1 True) 0 1 False = Some 7"
  unfolding demo_bits_used by (simp_all add: scan_from_def set_range_def group_at_def upt_rec)

subsection \<open>The file system as a map from names to contents\<close>

lemma file_seek_result:
  assumes inv: "fs_inv {} s" and o: "open_at s f name k" and c: "fs_abs s name = Some c" and k: "k' < 2 ^ 31"
  shows "\<exists>s'. file_seek f (int k') s = Some s' \<and> fs_inv {} s' \<and> mallocs s' = mallocs s \<and> fs_abs s' = fs_abs s
    \<and> open_at s' f name k' \<and> writes_allowed s' name = writes_allowed s name"
proof -
  obtain fl i where f: "fs_files s f = Some fl" "fs_inodes s (f_inode fl) = Some i" "dir_map (root s) name = Some (i_sector i)" "2 \<le> i_sector i"
    by (rule open_atE [OF inv o c]) blast
  define s' where "s' = s\<lparr>fs_files := (fs_files s)(f \<mapsto> fl\<lparr>f_pos := int k'\<rparr>)\<rparr>"
  have i: "fs_inv {} s'" "root s' = root s"
    using fs_inv_put_file [OF inv f(1,2) _ s'_def] f(4) by simp_all
  have "file_seek f (int k') s = Some s'"
    using f(1) by (simp add: file_seek_def get_file_def put_file_def s'_def)
  moreover have "fs_abs s' = fs_abs s"
    using i(2) by (intro ext) (simp add: fs_abs_def s'_def)
  moreover have "open_at s' f name k'"
    using k f i(2) by (simp add: open_at_def s'_def)
  moreover have "writes_allowed s' name = writes_allowed s name"
    using i(2) by (simp add: writes_allowed_def s'_def)
  ultimately show ?thesis
    using i(1) by (intro exI [of _ s']) (simp add: s'_def)
qed

lemma slice_written:
  assumes "n = min m (length c - k)" "m \<le> length buffer"
  shows "slice k m (overwrite k (take n buffer) c) = take n buffer"
proof (cases "n = 0")
  case True
  then have "m = 0 \<or> length c \<le> k"
    using assms(1) by auto
  then show ?thesis
    using True by (auto simp: slice_def)
next
  case False
  then have fit: "k + length (take n buffer) \<le> length c" "length (take n buffer) = n"
    using assms by auto
  have "slice k n (overwrite k (take n buffer) c) = take n buffer"
    using slice_overwrite [OF fit(1)] fit(2) by simp
  moreover have "slice k m (overwrite k (take n buffer) c) = slice k n (overwrite k (take n buffer) c)"
    using assms(1) fit by (auto simp: slice_def min_def)
  ultimately show ?thesis
    by simp
qed

text \<open>C31: Creating a file with a new valid name, when the root directory has a free slot, the disk enough free
  sectors and memory does not run out, succeeds. It keeps the invariant of the file system (the live inodes own
  disjoint sectors, all marked as used, and the open inodes agree with the disk), adds the name with the given
  number of zero bytes and leaves the contents of every other file as they were. A following open and read of
  the name return zeros.\<close>

theorem filesys_create_correct:
  assumes "fs_inv {} s" "mallocs s = []" "openers_ok s" "length e = 20" "valid_name name" "fs_abs s name = None"
    and "has_slot (root s)" "0 \<le> len" "len + 511 < 2 ^ 31" "has_space (bits_of (free_map s)) (bytes_to_sectors len)" "0 \<le> sz"
  shows "\<exists>s1 f s2 s3. filesys_create name len e s = Some (True, s1) \<and> fs_inv {} s1
    \<and> fs_abs s1 = (fs_abs s)(name \<mapsto> replicate (nat len) 0)
    \<and> filesys_open name e s1 = Some (Some f, s2) \<and> file_read f sz s2 = Some (replicate (min (nat sz) (nat len)) 0, s3)"
proof -
  obtain s1 where s1: "filesys_create name len e s = Some (True, s1)" "fs_inv {} s1" "mallocs s1 = []"
      "fs_abs s1 = (fs_abs s)(name \<mapsto> replicate (nat len) 0)" "fs_inodes s1 = fs_inodes s"
    using filesys_create_result [OF assms(1-10)] by blast
  have "openers_ok s1" "fs_abs s1 name = Some (replicate (nat len) 0)"
    using assms(3) s1(4,5) by (simp_all add: openers_ok_def)
  note o = filesys_open_result [OF s1(2,3) this(1) assms(4) this(2)]
  obtain f s2 where s2: "filesys_open name e s1 = Some (Some f, s2)" "fs_inv {} s2" "mallocs s2 = []" "fs_abs s2 = fs_abs s1" "open_at s2 f name 0"
    using o by blast
  then have "fs_abs s2 name = Some (replicate (nat len) 0)"
    using s1(4) by simp
  from file_read_result [OF s2(2,3,5) this assms(11)] show ?thesis
    using s1 s2(1) by (fastforce simp: slice_def)
qed

theorem filesys_create_correct_witness:
  "\<exists>s1 f s2 s3. filesys_create [98] 100 (replicate 20 0) demo_fsys = Some (True, s1)
     \<and> filesys_open [98] (replicate 20 0) s1 = Some (Some f, s2) \<and> file_read f 3 s2 = Some ([0, 0, 0], s3)"
proof -
  have "has_space (bits_of (free_map demo_fsys)) (bytes_to_sectors 100)"
    unfolding has_space_def one_sector using demo_fs_scan by auto
  moreover have "valid_name [98]"
    by (simp add: valid_name_def NAME_MAX_def)
  ultimately show ?thesis
    using filesys_create_correct [of demo_fsys "replicate 20 0" "[98]" 100 3] demo_inv demo_facts
    by (auto simp: numeral_3_eq_3)
qed

text \<open>C32: A file that is opened by its name, positioned and written changes the contents of this name only: a slice of
  them is overwritten with the buffer, up to the end of the file. Reading it back at the same position returns what was
  written, and the invariant of the file system is kept.\<close>

theorem filesys_write_read:
  assumes "fs_inv {} s" "mallocs s = []" "openers_ok s" "length e = 20" "fs_abs s name = Some c" "writes_allowed s name"
    and "k < 2 ^ 31" "0 \<le> sz" "nat sz \<le> length buffer"
  shows "\<exists>f s1 s2 s3 s4 s5. filesys_open name e s = Some (Some f, s1) \<and> file_seek f (int k) s1 = Some s2
    \<and> file_write f buffer sz s2 = Some (int (min (nat sz) (length c - k)), s3)
    \<and> fs_abs s3 = (fs_abs s)(name \<mapsto> overwrite k (take (min (nat sz) (length c - k)) buffer) c)
    \<and> file_seek f (int k) s3 = Some s4 \<and> file_read f sz s4 = Some (take (min (nat sz) (length c - k)) buffer, s5)
    \<and> fs_abs s5 = fs_abs s3 \<and> fs_inv {} s5"
proof -
  let ?n = "min (nat sz) (length c - k)" and ?c = "overwrite k (take (min (nat sz) (length c - k)) buffer) c"
  obtain f s1 where s1: "filesys_open name e s = Some (Some f, s1)" "fs_inv {} s1" "mallocs s1 = []" "fs_abs s1 = fs_abs s"
      "open_at s1 f name 0" "writes_allowed s1 name"
    using filesys_open_result [OF assms(1-5)] assms(6) by blast
  then have c1: "fs_abs s1 name = Some c"
    using assms(5) by simp
  obtain s2 where s2: "file_seek f (int k) s1 = Some s2" "fs_inv {} s2" "mallocs s2 = []" "fs_abs s2 = fs_abs s1" "open_at s2 f name k"
      "writes_allowed s2 name"
    using file_seek_result [OF s1(2,5) c1 assms(7)] s1(3,6) by auto
  then have c2: "fs_abs s2 name = Some c"
    using c1 by simp
  obtain s3 where s3: "file_write f buffer sz s2 = Some (int ?n, s3)" "fs_inv {} s3" "mallocs s3 = []"
      "fs_abs s3 = (fs_abs s2)(name \<mapsto> ?c)" "open_at s3 f name (k + ?n)"
    using file_write_result [OF s2(2,3,5) c2 assms(8,9) s2(6)] by blast
  then have c3: "fs_abs s3 name = Some ?c"
    by simp
  obtain s4 where s4: "file_seek f (int k) s3 = Some s4" "fs_inv {} s4" "mallocs s4 = []" "fs_abs s4 = fs_abs s3" "open_at s4 f name k"
    using file_seek_result [OF s3(2,5) c3 assms(7)] s3(3) by auto
  then have c4: "fs_abs s4 name = Some ?c"
    using c3 by simp
  obtain s5 where "file_read f sz s4 = Some (slice k (nat sz) ?c, s5)" "fs_inv {} s5" "fs_abs s5 = fs_abs s4"
    using file_read_result [OF s4(2,3,5) c4 assms(8)] by blast
  then show ?thesis
    using s1(1,4) s2(1,4) s3(1,4) s4(1,4) slice_written [OF refl assms(9)] by auto
qed

theorem filesys_write_read_witness:
  "\<exists>f s1 s2 s3 s4 s5. filesys_open [97] (replicate 20 0) demo_fsys = Some (Some f, s1) \<and> file_seek f 1 s1 = Some s2
     \<and> file_write f [8, 9, 10] 3 s2 = Some (2, s3) \<and> fs_abs s3 = (fs_abs demo_fsys)([97] \<mapsto> [7, 8, 9])
     \<and> file_seek f 1 s3 = Some s4 \<and> file_read f 3 s4 = Some ([8, 9], s5)"
proof -
  have "writes_allowed demo_fsys [97]"
    by (auto simp: writes_allowed_def demo_fsys_def split: if_splits)
  then obtain f s1 s2 s3 s4 s5 where "filesys_open [97] (replicate 20 0) demo_fsys = Some (Some f, s1)" "file_seek f (int 1) s1 = Some s2"
      "file_write f [8, 9, 10] 3 s2 = Some (int (min (nat 3) (length [7, 7, 7 :: 8 word] - 1)), s3)"
      "fs_abs s3 = (fs_abs demo_fsys)([97] \<mapsto> overwrite 1 (take (min (nat 3) (length [7, 7, 7 :: 8 word] - 1)) [8, 9, 10]) [7, 7, 7])"
      "file_seek f (int 1) s3 = Some s4" "file_read f 3 s4 = Some (take (min (nat 3) (length [7, 7, 7 :: 8 word] - 1)) [8, 9, 10], s5)"
    using filesys_write_read [OF demo_inv demo_facts(1,2) _ demo_facts(5), of "replicate 20 0" 1 3 "[8, 9, 10]"] by auto
  then show ?thesis
    by (intro exI [of _ f] exI [of _ s1] exI [of _ s2] exI [of _ s3] exI [of _ s4] exI [of _ s5]) (simp add: overwrite_def)
qed



text \<open>C35: Creating a file whose name exists fails and keeps all files, but the sectors that were allocated for the
  new file's data stay marked as used although no inode owns them: only the sector of the inode is released.\<close>

theorem filesys_create_leaks:
  assumes "fs_inv {} s" "mallocs s = []" "openers_ok s" "length e = 20" "valid_name name" "fs_abs s name \<noteq> None"
    and "0 \<le> len" "len + 511 < 2 ^ 31" "scan_from (bits_of (free_map s)) 0 1 False = Some x"
    and "scan_from (set_range (bits_of (free_map s)) x 1 True) 0 (bytes_to_sectors len) False = Some k"
  shows "\<exists>s'. filesys_create name len e s = Some (False, s') \<and> fs_inv {} s' \<and> fs_abs s' = fs_abs s
    \<and> bits_of (free_map s') = set_range (bits_of (free_map s)) k (bytes_to_sectors len) True"
  using filesys_create_existing [OF assms] .

theorem filesys_create_leaks_witness:
  "\<exists>s'. filesys_create [97] 100 (replicate 20 0) demo_fsys = Some (False, s') \<and> fs_abs s' = fs_abs demo_fsys
     \<and> bits_of (free_map s') = [True, True, True, True, True, True, False, True]"
proof -
  have "valid_name [97]"
    by (simp add: valid_name_def NAME_MAX_def)
  then obtain s' where "filesys_create [97] 100 (replicate 20 0) demo_fsys = Some (False, s')" "fs_abs s' = fs_abs demo_fsys"
      "bits_of (free_map s') = set_range (bits_of (free_map demo_fsys)) 7 (bytes_to_sectors 100) True"
    using filesys_create_leaks [of demo_fsys "replicate 20 0" "[97]" 100 6 7] demo_inv demo_facts demo_fs_scan one_sector(4) by auto
  then show ?thesis
    by (intro exI [of _ s']) (simp add: one_sector demo_bits_used set_range_def)
qed

end
