(* ===== verification/Spec2Isabelle.thy ===== *)
theory Spec2Isabelle
  imports List_Interface Bitmaps Kernel_Safety Hash_Tables Division64 Rc4_Random Sort_Search Boot_Memory Filesys
begin

text \<open>
  Verification of the kernel library of the repository.
\<close>

end
